theory Spec2Isabelle
  imports Main "HOL-Library.Multiset" "HOL-Library.Monad_Syntax"
begin

section \<open>Value model of \<^verbatim>\<open>splay_tree<T, CMP>\<close> (src/util/splay_tree.h)\<close>

text \<open>
  A \<^verbatim>\<open>node *\<close> is either \<^verbatim>\<open>nullptr\<close> (\<open>Leaf\<close>) or points to a node with the fields
  \<^verbatim>\<open>m_left\<close>, \<^verbatim>\<open>m_value\<close>, \<^verbatim>\<open>m_right\<close>.  A pointer that the code dereferences without
  a null test (the splay target, the nodes stored in path entries) is modelled by the
  triple of the fields of the node it points to.  Reference counts and the copies of
  shared nodes do not appear in this model; they are the subject of the store model
  further down, where each operation of the class, run on a store whose handle
  represents a tree, is proved to return and to leave a store whose handle represents
  the result of the function given here.
\<close>

datatype 'a tree = Leaf | Node "'a tree" 'a "'a tree"

type_synonym 'a tnode = "'a tree \<times> 'a \<times> 'a tree"

text \<open>\<^verbatim>\<open>struct entry { bool m_right; node * m_node; }\<close>\<close>

type_synonym 'a tentry = "bool \<times> 'a tnode"

fun ptr :: "'a tnode \<Rightarrow> 'a tree" where
  "ptr (l, v, r) = Node l v r"

fun t_left :: "'a tnode \<Rightarrow> 'a tree" where
  "t_left (l, v, r) = l"

fun t_right :: "'a tnode \<Rightarrow> 'a tree" where
  "t_right (l, v, r) = r"

fun t_value :: "'a tnode \<Rightarrow> 'a" where
  "t_value (l, v, r) = v"

text \<open>\<^verbatim>\<open>void update(node * n, node * l, node * r)\<close>: the value of the node is kept.\<close>

fun update_t :: "'a tnode \<Rightarrow> 'a tree \<Rightarrow> 'a tree \<Rightarrow> 'a tnode" where
  "update_t (l0, v, r0) l r = (l, v, r)"

text \<open>
  The body of the \<^verbatim>\<open>while (path.size() > 1)\<close> loop of \<^verbatim>\<open>splay_to_top\<close>: the four two-level
  cases, chosen by \<^verbatim>\<open>g_right\<close> and \<^verbatim>\<open>p_right\<close>.  The child slot of \<open>p\<close> that leads to \<open>n\<close>
  and the child slot of \<open>g\<close> that leads to \<open>p\<close> are never read.
\<close>

fun splay_step2_t :: "'a tentry \<Rightarrow> 'a tentry \<Rightarrow> 'a tnode \<Rightarrow> 'a tnode" where
  "splay_step2_t (g_right, g) (p_right, p) n =
     (if \<not> g_right \<and> \<not> p_right then
        (let A = t_left n; B = t_right n; C = t_right p; D = t_right g;
             g = update_t g C D;
             p = update_t p B (ptr g)
         in update_t n A (ptr p))
      else if \<not> g_right \<and> p_right then
        (let A = t_left p; B = t_left n; C = t_right n; D = t_right g;
             p = update_t p A B;
             g = update_t g C D
         in update_t n (ptr p) (ptr g))
      else if g_right \<and> \<not> p_right then
        (let A = t_left g; B = t_left n; C = t_right n; D = t_right p;
             g = update_t g A B;
             p = update_t p C D
         in update_t n (ptr g) (ptr p))
      else
        (let A = t_left g; B = t_left p; C = t_left n; D = t_right n;
             g = update_t g A B;
             p = update_t p (ptr g) C
         in update_t n (ptr p) D))"

text \<open>The \<^verbatim>\<open>if (path.size() == 1)\<close> block: the two one-level cases.\<close>

fun splay_step1_t :: "'a tentry \<Rightarrow> 'a tnode \<Rightarrow> 'a tnode" where
  "splay_step1_t (p_right, p) n =
     (if \<not> p_right then
        (let A = t_left n; B = t_right n; C = t_right p;
             p = update_t p B C
         in update_t n A (ptr p))
      else
        (let A = t_left p; B = t_left n; C = t_right n;
             p = update_t p A B
         in update_t n (ptr p) C))"

text \<open>
  The path is a stack: the head of the list is \<^verbatim>\<open>path.back()\<close>, \<open>#\<close> is
  \<^verbatim>\<open>push_back\<close>.
\<close>

fun splay_to_top_t :: "'a tentry list \<Rightarrow> 'a tnode \<Rightarrow> 'a tnode" where
  "splay_to_top_t (p_entry # g_entry # path) n =
     splay_to_top_t path (splay_step2_t g_entry p_entry n)"
| "splay_to_top_t [p_entry] n = splay_step1_t p_entry n"
| "splay_to_top_t [] n = n"

text \<open>
  \<^verbatim>\<open>update_parent(path, child)\<close> seen from the path: the slot of the last entry that
  leads on is set to \<open>child\<close>.  With an empty path the code sets \<^verbatim>\<open>m_ptr\<close>, which
  \<^verbatim>\<open>insert_pull\<close> overwrites before it returns.
\<close>

fun update_parent_t :: "'a tentry list \<Rightarrow> 'a tree \<Rightarrow> 'a tentry list" where
  "update_parent_t [] child = []"
| "update_parent_t ((went_right, (l, x, r)) # path) child =
     (if went_right then (True, (l, x, child)) # path else (False, (child, x, r)) # path)"

text \<open>
  The \<^verbatim>\<open>while (true)\<close> loop of \<^verbatim>\<open>insert_pull\<close>.  \<open>None\<close> is the \<^verbatim>\<open>return false\<close> taken
  on an empty tree when \<open>is_insert\<close> is false; otherwise the loop leaves with
  \<open>found\<close>, the path and the splay target \<open>n\<close>.  Copying a shared node does not
  change the value of the tree, so it does not appear here.
\<close>

fun descend_t :: "('a \<Rightarrow> 'a \<Rightarrow> int) \<Rightarrow> 'a \<Rightarrow> bool \<Rightarrow> 'a tentry list \<Rightarrow> 'a tree
    \<Rightarrow> (bool \<times> 'a tentry list \<times> 'a tnode) option" where
  "descend_t cmp v is_insert path Leaf =
     (if is_insert then
        Some (False, update_parent_t path (Node Leaf v Leaf), (Leaf, v, Leaf))
      else (case path of
              [] \<Rightarrow> None
            | e # path' \<Rightarrow> Some (False, path', snd e)))"
| "descend_t cmp v is_insert path (Node l x r) =
     (let c = cmp v x in
      if c < 0 then descend_t cmp v is_insert ((False, (l, x, r)) # path) l
      else if c > 0 then descend_t cmp v is_insert ((True, (l, x, r)) # path) r
      else Some (True, path, (l, if is_insert then v else x, r)))"

text \<open>\<^verbatim>\<open>bool insert_pull(T const & v, bool is_insert)\<close>: the result and the new \<^verbatim>\<open>m_ptr\<close>.\<close>

definition insert_pull_t :: "('a \<Rightarrow> 'a \<Rightarrow> int) \<Rightarrow> 'a \<Rightarrow> bool \<Rightarrow> 'a tree \<Rightarrow> bool \<times> 'a tree" where
  "insert_pull_t cmp v is_insert t =
     (case descend_t cmp v is_insert [] t of
        None \<Rightarrow> (False, t)
      | Some (found, path, n) \<Rightarrow> (found, ptr (splay_to_top_t path n)))"

definition pull_t :: "('a \<Rightarrow> 'a \<Rightarrow> int) \<Rightarrow> 'a \<Rightarrow> 'a tree \<Rightarrow> bool \<times> 'a tree" where
  "pull_t cmp v t = insert_pull_t cmp v False t"

text \<open>The loop of \<^verbatim>\<open>pull_max\<close>: follow \<^verbatim>\<open>m_right\<close> until it is null.\<close>

fun descend_max_t :: "'a tentry list \<Rightarrow> 'a tree \<Rightarrow> 'a \<Rightarrow> 'a tree \<Rightarrow> 'a tentry list \<times> 'a tnode" where
  "descend_max_t path l x Leaf = (path, (l, x, Leaf))"
| "descend_max_t path l x (Node rl rx rr) =
     descend_max_t ((True, (l, x, Node rl rx rr)) # path) rl rx rr"

definition pull_max_t :: "'a tree \<Rightarrow> 'a tree" where
  "pull_max_t t =
     (case t of
        Leaf \<Rightarrow> Leaf
      | Node l x r \<Rightarrow> (case descend_max_t [] l x r of (path, n) \<Rightarrow> ptr (splay_to_top_t path n)))"

definition insert_t :: "('a \<Rightarrow> 'a \<Rightarrow> int) \<Rightarrow> 'a \<Rightarrow> 'a tree \<Rightarrow> 'a tree" where
  "insert_t cmp v t = snd (insert_pull_t cmp v True t)"

text \<open>\<^verbatim>\<open>T const * find(T const & v) const\<close>\<close>

fun find_t :: "('a \<Rightarrow> 'a \<Rightarrow> int) \<Rightarrow> 'a \<Rightarrow> 'a tree \<Rightarrow> 'a option" where
  "find_t cmp v Leaf = None"
| "find_t cmp v (Node l x r) =
     (let c = cmp v x in
      if c < 0 then find_t cmp v l
      else if c > 0 then find_t cmp v r
      else Some x)"

text \<open>The number of nodes whose value \<^verbatim>\<open>find\<close> compares with \<open>v\<close>.\<close>

fun find_visits_t :: "('a \<Rightarrow> 'a \<Rightarrow> int) \<Rightarrow> 'a \<Rightarrow> 'a tree \<Rightarrow> nat" where
  "find_visits_t cmp v Leaf = 0"
| "find_visits_t cmp v (Node l x r) =
     (let c = cmp v x in
      if c < 0 then Suc (find_visits_t cmp v l)
      else if c > 0 then Suc (find_visits_t cmp v r)
      else 1)"

definition contains_t :: "('a \<Rightarrow> 'a \<Rightarrow> int) \<Rightarrow> 'a \<Rightarrow> 'a tree \<Rightarrow> bool" where
  "contains_t cmp v t = (find_t cmp v t \<noteq> None)"

text \<open>\<^verbatim>\<open>find_memoize\<close>: the returned pointer (as an optional value) and the new \<^verbatim>\<open>m_ptr\<close>.\<close>

definition find_memoize_t :: "('a \<Rightarrow> 'a \<Rightarrow> int) \<Rightarrow> 'a \<Rightarrow> 'a tree \<Rightarrow> 'a option \<times> 'a tree" where
  "find_memoize_t cmp v t =
     (case pull_t cmp v t of
        (True, Node l x r) \<Rightarrow> (Some x, Node l x r)
      | (True, Leaf) \<Rightarrow> (None, Leaf)
      | (False, t') \<Rightarrow> (None, t'))"

text \<open>
  \<^verbatim>\<open>erase\<close>: \<open>left\<close> and \<open>right\<close> are the two subtree handles; in the last branch
  \<^verbatim>\<open>left.m_ptr->m_right = right.m_ptr\<close> overwrites the right slot of the root of
  \<open>left\<close> after \<^verbatim>\<open>left.pull_max()\<close>.
\<close>

definition erase_t :: "('a \<Rightarrow> 'a \<Rightarrow> int) \<Rightarrow> 'a \<Rightarrow> 'a tree \<Rightarrow> 'a tree" where
  "erase_t cmp v t =
     (case pull_t cmp v t of
        (True, Node left x right) \<Rightarrow>
          (if left = Leaf then right
           else if right = Leaf then left
           else (case pull_max_t left of
                   Node l m r \<Rightarrow> Node l m right
                 | Leaf \<Rightarrow> Leaf))
      | (True, Leaf) \<Rightarrow> Leaf
      | (False, t') \<Rightarrow> t')"

text \<open>\<^verbatim>\<open>static void to_buffer(node const * n, buffer<T> & r)\<close>: the values appended to \<open>r\<close>.\<close>

fun to_buffer_t :: "'a tree \<Rightarrow> 'a list" where
  "to_buffer_t Leaf = []"
| "to_buffer_t (Node l x r) = to_buffer_t l @ x # to_buffer_t r"

text \<open>
  \<^verbatim>\<open>check_invariant(node const * n)\<close>: true when none of its assertions fails.
\<close>

fun check_invariant_t :: "('a \<Rightarrow> 'a \<Rightarrow> int) \<Rightarrow> 'a tree \<Rightarrow> bool" where
  "check_invariant_t cmp Leaf = True"
| "check_invariant_t cmp (Node l x r) =
     ((case l of Leaf \<Rightarrow> True
        | Node ll lx lr \<Rightarrow> check_invariant_t cmp l \<and> cmp lx x < 0) \<and>
      (case r of Leaf \<Rightarrow> True
        | Node rl rx rr \<Rightarrow> check_invariant_t cmp r \<and> cmp x rx < 0))"

text \<open>The integer comparator of the end-to-end scenarios: \<open>sign (a - b)\<close>.\<close>

definition int_cmp :: "int \<Rightarrow> int \<Rightarrow> int" where
  "int_cmp a b = (if a < b then - 1 else if a = b then 0 else 1)"

text \<open>A comparator that looks at the key (first component) only.\<close>

definition key_cmp :: "int \<times> 'b \<Rightarrow> int \<times> 'b \<Rightarrow> int" where
  "key_cmp a b = int_cmp (fst a) (fst b)"

section \<open>Comparator contract, search-tree order and the content of a path\<close>

definition cmp_ok :: "('a \<Rightarrow> 'a \<Rightarrow> int) \<Rightarrow> bool" where
  "cmp_ok cmp \<longleftrightarrow>
     (\<forall>a b. (cmp a b < 0) = (0 < cmp b a)) \<and>
     (\<forall>a b c. cmp a b \<le> 0 \<longrightarrow> cmp b c \<le> 0 \<longrightarrow> cmp a c \<le> 0)"

definition bst :: "('a \<Rightarrow> 'a \<Rightarrow> int) \<Rightarrow> 'a tree \<Rightarrow> bool" where
  "bst cmp t = sorted_wrt (\<lambda>a b. cmp a b < 0) (to_buffer_t t)"

fun path_before :: "'a tentry list \<Rightarrow> 'a list" where
  "path_before [] = []"
| "path_before ((d, (l, x, r)) # path) =
     (if d then path_before path @ to_buffer_t l @ [x] else path_before path)"

fun path_after :: "'a tentry list \<Rightarrow> 'a list" where
  "path_after [] = []"
| "path_after ((d, (l, x, r)) # path) =
     (if d then path_after path else x # to_buffer_t r @ path_after path)"

fun slot_ok :: "'a tentry list \<Rightarrow> 'a tree \<Rightarrow> bool" where
  "slot_ok [] t = True"
| "slot_ok ((d, (l, x, r)) # path) t = (if d then r = t else l = t)"


fun all_right :: "'a tentry list \<Rightarrow> bool" where
  "all_right [] = True"
| "all_right ((d, n) # path) = (d \<and> all_right path)"

fun subtrees :: "'a tree \<Rightarrow> 'a tree set" where
  "subtrees Leaf = {Leaf}"
| "subtrees (Node l x r) = insert (Node l x r) (subtrees l \<union> subtrees r)"

fun last_visited :: "('a \<Rightarrow> 'a \<Rightarrow> int) \<Rightarrow> 'a \<Rightarrow> 'a \<Rightarrow> 'a tree \<Rightarrow> 'a" where
  "last_visited cmp v prev Leaf = prev"
| "last_visited cmp v prev (Node l x r) =
     (let c = cmp v x in
      if c < 0 then last_visited cmp v x l
      else if c > 0 then last_visited cmp v x r
      else x)"

definition clear_t :: "'a tree \<Rightarrow> 'a tree" where
  "clear_t t = Leaf"

text \<open>
  \<^verbatim>\<open>class splay_tree : public CMP\<close> with the member \<^verbatim>\<open>node * m_ptr\<close>: a handle is a
  comparator object together with the pointer to its root.
\<close>

type_synonym 'a handle_t = "('a \<Rightarrow> 'a \<Rightarrow> int) \<times> 'a tree"

text \<open>The tree of a handle is in search-tree order for the comparator of that handle.\<close>

definition ordered_t :: "'a handle_t \<Rightarrow> bool" where
  "ordered_t h = bst (fst h) (snd h)"

text \<open>
  \<^verbatim>\<open>splay_tree(splay_tree const & s):CMP(s), m_ptr(s.m_ptr)\<close>: the copy has the comparator
  and the root of \<open>s\<close>; the result is the pair of \<open>s\<close> and its copy.
\<close>

definition copy_t :: "'a handle_t \<Rightarrow> 'a handle_t \<times> 'a handle_t" where
  "copy_t s = (s, (fst s, snd s))"

text \<open>
  \<^verbatim>\<open>void swap(splay_tree & t) { std::swap(m_ptr, t.m_ptr); }\<close>: the two roots are
  exchanged, each handle keeps its comparator.  The result is the pair of \<^verbatim>\<open>*this\<close>
  and \<open>t\<close> after the call.
\<close>

definition swap_t :: "'a handle_t \<Rightarrow> 'a handle_t \<Rightarrow> 'a handle_t \<times> 'a handle_t" where
  "swap_t a b = ((fst a, snd b), (fst b, snd a))"

text \<open>The comparator of the descending order on the integers.\<close>

definition rev_cmp :: "int \<Rightarrow> int \<Rightarrow> int" where
  "rev_cmp a b = int_cmp b a"

definition s1 :: "int tree" where
  "s1 = foldl (\<lambda>t v. insert_t int_cmp v t) Leaf [3, 1, 4, 1, 5, 9, 2, 6]"

section \<open>Store model: nodes with reference counts\<close>

text \<open>
  The second model keeps what the value model leaves out: the nodes are cells of a store,
  a \<^verbatim>\<open>node *\<close> is \<open>None\<close> (\<^verbatim>\<open>nullptr\<close>) or the address of a cell, and every node
  carries its reference count \<^verbatim>\<open>m_rc\<close>.  A function of the class becomes a function
  from the store (and the handle's \<^verbatim>\<open>m_ptr\<close>) to an optional result; \<open>None\<close> stands for
  a run that the code does not survive or must not make: a null or freed pointer is
  dereferenced, a \<^verbatim>\<open>lean_assert\<close> fails, or a field of a shared node is written.
\<close>

text \<open>
  \<^verbatim>\<open>struct node { node * m_left; node * m_right; T m_value; MK_LEAN_RC(); ... }\<close>.  The
  counter \<^verbatim>\<open>m_rc\<close> is declared by the macro; the constructor sets it to 0, \<^verbatim>\<open>is_shared\<close>
  and \<^verbatim>\<open>display\<close> read it.  It is a natural number here, without an upper bound.
\<close>

record 'a node =
  m_left :: "nat option"
  m_right :: "nat option"
  m_value :: 'a
  m_rc :: nat

text \<open>
  The store: the allocated cells, and the next address that \<^verbatim>\<open>new\<close> hands out.  Addresses
  are never used again, so a pointer to a freed cell is recognised as dangling.
\<close>

record 'a store =
  heap :: "nat \<Rightarrow> 'a node option"
  next_free :: nat

text \<open>The store before any node is allocated.\<close>

definition empty_store :: "'a store" where
  "empty_store = \<lparr>heap = (\<lambda>a. None), next_free = 0\<rparr>"

text \<open>Overwrite the cell at \<open>a\<close>, and \<^verbatim>\<open>delete this\<close> in \<^verbatim>\<open>dealloc\<close>.\<close>

definition set_node :: "nat \<Rightarrow> 'a node \<Rightarrow> 'a store \<Rightarrow> 'a store" where
  "set_node a nd s = s\<lparr>heap := (heap s)(a \<mapsto> nd)\<rparr>"

definition free_node :: "nat \<Rightarrow> 'a store \<Rightarrow> 'a store" where
  "free_node a s = s\<lparr>heap := (heap s)(a := None)\<rparr>"

text \<open>
  Modelled from the spec: \<^verbatim>\<open>MK_LEAN_RC\<close> (util/rc.h), which defines the member
  \<^verbatim>\<open>inc_ref\<close>, is not part of the sources at hand; by section 4.1 of the specification
  the member adds one to \<^verbatim>\<open>m_rc\<close>.  The static wrapper is in the source:
  \<^verbatim>\<open>static void inc_ref(node * n) { if (n) n->inc_ref(); }\<close>.
\<close>

fun inc_ref :: "nat option \<Rightarrow> 'a store \<Rightarrow> 'a store option" where
  "inc_ref None s = Some s"
| "inc_ref (Some a) s =
     (case heap s a of
        None \<Rightarrow> None
      | Some nd \<Rightarrow> Some (set_node a (nd\<lparr>m_rc := m_rc nd + 1\<rparr>) s))"

text \<open>
  Modelled from the spec: \<^verbatim>\<open>MK_LEAN_RC\<close> (util/rc.h), which defines the member
  \<^verbatim>\<open>dec_ref\<close>, is not part of the sources at hand; by section 4.1 of the specification
  the member subtracts one from \<^verbatim>\<open>m_rc\<close> and, when the count has reached zero,
  deallocates the node.  The rest is in the source: the static wrapper
  \<^verbatim>\<open>static void dec_ref(node * n) { if (n) n->dec_ref(); }\<close>, \<^verbatim>\<open>dealloc\<close>, which is
  \<^verbatim>\<open>delete this\<close>, and the destructor \<^verbatim>\<open>~node\<close>, which decrements \<^verbatim>\<open>m_left\<close> and
  \<^verbatim>\<open>m_right\<close> before the cell is freed.  Decrementing a count that is zero already is
  a fault.  The recursion follows the pointers of the store, so the function is partial.
\<close>

partial_function (option) dec_ref :: "nat option \<Rightarrow> 'a store \<Rightarrow> 'a store option" where
  "dec_ref p s =
     (case p of
        None \<Rightarrow> Some s
      | Some a \<Rightarrow>
          (case heap s a of
             None \<Rightarrow> None
           | Some nd \<Rightarrow>
               if m_rc nd = 0 then None
               else if m_rc nd = 1 then
                 do {
                   s1 \<leftarrow> dec_ref (m_left nd) (set_node a (nd\<lparr>m_rc := 0\<rparr>) s);
                   s2 \<leftarrow> dec_ref (m_right nd) s1;
                   Some (free_node a s2)
                 }
               else Some (set_node a (nd\<lparr>m_rc := m_rc nd - 1\<rparr>) s)))"

text \<open>
  \<^verbatim>\<open>explicit node(T const & v, node * left = nullptr, node * right = nullptr)\<close>: the new
  node starts with \<^verbatim>\<open>m_rc(0)\<close> and the constructor increments both children.
\<close>

definition new_node :: "'a \<Rightarrow> nat option \<Rightarrow> nat option \<Rightarrow> 'a store \<Rightarrow> (nat \<times> 'a store) option" where
  "new_node v left right s =
     (let a = next_free s;
          s0 = s\<lparr>heap := (heap s)(a \<mapsto> \<lparr>m_left = left, m_right = right, m_value = v, m_rc = 0\<rparr>),
                 next_free := Suc a\<rparr>
      in do {
        s1 \<leftarrow> inc_ref left s0;
        s2 \<leftarrow> inc_ref right s1;
        Some (a, s2)
      })"

text \<open>\<^verbatim>\<open>node(node const & n):node(n.m_value, n.m_left, n.m_right) {}\<close>\<close>

definition copy_node :: "nat \<Rightarrow> 'a store \<Rightarrow> (nat \<times> 'a store) option" where
  "copy_node n s =
     (case heap s n of
        None \<Rightarrow> None
      | Some nd \<Rightarrow> new_node (m_value nd) (m_left nd) (m_right nd) s)"

text \<open>\<^verbatim>\<open>bool is_shared() const { return m_rc > 1; }\<close>\<close>

definition is_shared :: "'a node \<Rightarrow> bool" where
  "is_shared nd = (m_rc nd > 1)"

text \<open>
  \<^verbatim>\<open>void update(node * n, node * l, node * r)\<close> with its
  \<^verbatim>\<open>lean_assert(!n->is_shared())\<close>.
  Modelled from the spec: \<^verbatim>\<open>lean_assert\<close> (util/debug.h) is not part of the sources at hand;
  a failed assertion ends the run, which is the result \<open>None\<close> here.
\<close>

definition update :: "nat \<Rightarrow> nat option \<Rightarrow> nat option \<Rightarrow> 'a store \<Rightarrow> 'a store option" where
  "update n l r s =
     (case heap s n of
        None \<Rightarrow> None
      | Some nd \<Rightarrow>
          if is_shared nd then None
          else Some (set_node n (nd\<lparr>m_left := l, m_right := r\<rparr>) s))"

text \<open>\<^verbatim>\<open>struct entry { bool m_right; node * m_node; }\<close>\<close>

type_synonym entry = "bool \<times> nat"

text \<open>The test of \<^verbatim>\<open>lean_assert(!n->is_shared())\<close> on the node at an address.\<close>

definition unshared :: "'a store \<Rightarrow> nat \<Rightarrow> bool" where
  "unshared s a = (case heap s a of None \<Rightarrow> False | Some nd \<Rightarrow> \<not> is_shared nd)"

text \<open>
  One round of the \<^verbatim>\<open>while (path.size() > 1)\<close> loop of \<^verbatim>\<open>splay_to_top\<close>, after the two
  entries have been popped: the assertions on \<open>g\<close> and \<open>p\<close>, then the four cases on
  \<^verbatim>\<open>g_right\<close> and \<^verbatim>\<open>p_right\<close>, each with its assertion that \<open>p\<close> is the child of \<open>g\<close> and
  its three calls of \<^verbatim>\<open>update\<close>.
\<close>

definition splay_step2 :: "entry \<Rightarrow> entry \<Rightarrow> nat \<Rightarrow> 'a store \<Rightarrow> 'a store option" where
  "splay_step2 g_entry p_entry n s =
     (let g_right = fst g_entry; p_right = fst p_entry; g = snd g_entry; p = snd p_entry in
      case (heap s g, heap s p, heap s n) of
        (Some gn, Some pn, Some nn) \<Rightarrow>
          if is_shared gn \<or> is_shared pn then None
          else if \<not> g_right \<and> \<not> p_right then
            (if m_left gn \<noteq> Some p then None
             else let A = m_left nn; B = m_right nn; C = m_right pn; D = m_right gn in
               do { s \<leftarrow> update g C D s; s \<leftarrow> update p B (Some g) s; update n A (Some p) s })
          else if \<not> g_right \<and> p_right then
            (if m_left gn \<noteq> Some p then None
             else let A = m_left pn; B = m_left nn; C = m_right nn; D = m_right gn in
               do { s \<leftarrow> update p A B s; s \<leftarrow> update g C D s; update n (Some p) (Some g) s })
          else if g_right \<and> \<not> p_right then
            (if m_right gn \<noteq> Some p then None
             else let A = m_left gn; B = m_left nn; C = m_right nn; D = m_right pn in
               do { s \<leftarrow> update g A B s; s \<leftarrow> update p C D s; update n (Some g) (Some p) s })
          else
            (if m_right gn \<noteq> Some p then None
             else let A = m_left gn; B = m_left pn; C = m_left nn; D = m_right nn in
               do { s \<leftarrow> update g A B s; s \<leftarrow> update p (Some g) C s; update n (Some p) D s })
      | _ \<Rightarrow> None)"

text \<open>The \<^verbatim>\<open>if (path.size() == 1)\<close> block of \<^verbatim>\<open>splay_to_top\<close>.\<close>

definition splay_step1 :: "entry \<Rightarrow> nat \<Rightarrow> 'a store \<Rightarrow> 'a store option" where
  "splay_step1 p_entry n s =
     (let p_right = fst p_entry; p = snd p_entry in
      case (heap s p, heap s n) of
        (Some pn, Some nn) \<Rightarrow>
          if \<not> p_right then
            (let A = m_left nn; B = m_right nn; C = m_right pn in
               do { s \<leftarrow> update p B C s; update n A (Some p) s })
          else
            (let A = m_left pn; B = m_left nn; C = m_right nn in
               do { s \<leftarrow> update p A B s; update n (Some p) C s })
      | _ \<Rightarrow> None)"

text \<open>The loop and the final block; the path is a stack with its top at the head.\<close>

fun splay_loop :: "entry list \<Rightarrow> nat \<Rightarrow> 'a store \<Rightarrow> 'a store option" where
  "splay_loop (p_entry # g_entry # path) n s =
     do { s \<leftarrow> splay_step2 g_entry p_entry n s; splay_loop path n s }"
| "splay_loop [p_entry] n s = splay_step1 p_entry n s"
| "splay_loop [] n s = Some s"

text \<open>
  \<^verbatim>\<open>void splay_to_top(std::vector<entry> & path, node * n)\<close> with the assertion
  \<^verbatim>\<open>lean_assert(!n->is_shared())\<close> at its start and at its end.
\<close>

definition splay_to_top :: "entry list \<Rightarrow> nat \<Rightarrow> 'a store \<Rightarrow> 'a store option" where
  "splay_to_top path n s =
     (if \<not> unshared s n then None
      else do {
        s \<leftarrow> splay_loop path n s;
        if \<not> unshared s n then None else Some s
      })"


text \<open>
  The assignments \<^verbatim>\<open>parent->m_left = child\<close>, \<^verbatim>\<open>parent->m_right = child\<close> and
  \<^verbatim>\<open>n->m_value = v\<close>.  Writing a field of a shared node is a fault of the model: in
  \<^verbatim>\<open>update_parent\<close> and \<^verbatim>\<open>insert_pull\<close> the code asserts that the node is not shared just
  before the assignment, in \<^verbatim>\<open>erase\<close> it does not.
\<close>

definition write_left :: "nat \<Rightarrow> nat option \<Rightarrow> 'a store \<Rightarrow> 'a store option" where
  "write_left a c s =
     (case heap s a of
        None \<Rightarrow> None
      | Some nd \<Rightarrow> if is_shared nd then None else Some (set_node a (nd\<lparr>m_left := c\<rparr>) s))"

definition write_right :: "nat \<Rightarrow> nat option \<Rightarrow> 'a store \<Rightarrow> 'a store option" where
  "write_right a c s =
     (case heap s a of
        None \<Rightarrow> None
      | Some nd \<Rightarrow> if is_shared nd then None else Some (set_node a (nd\<lparr>m_right := c\<rparr>) s))"

definition write_value :: "nat \<Rightarrow> 'a \<Rightarrow> 'a store \<Rightarrow> 'a store option" where
  "write_value a v s =
     (case heap s a of
        None \<Rightarrow> None
      | Some nd \<Rightarrow> if is_shared nd then None else Some (set_node a (nd\<lparr>m_value := v\<rparr>) s))"

text \<open>
  \<^verbatim>\<open>void update_parent(std::vector<entry> const & path, node * child)\<close>; the handle's
  \<^verbatim>\<open>m_ptr\<close> is passed and returned with the store.
\<close>

definition update_parent :: "entry list \<Rightarrow> nat \<Rightarrow> 'a store \<times> nat option \<Rightarrow> ('a store \<times> nat option) option" where
  "update_parent path child sm =
     (case sm of (s, m_ptr) \<Rightarrow>
      (case path of
         [] \<Rightarrow> do {
           s \<leftarrow> inc_ref (Some child) s;
           s \<leftarrow> dec_ref m_ptr s;
           Some (s, Some child)
         }
       | back # _ \<Rightarrow> do {
           s \<leftarrow> inc_ref (Some child) s;
           let parent = snd back;
           (case heap s parent of
              None \<Rightarrow> None
            | Some pn \<Rightarrow>
                if is_shared pn then None
                else if fst back then do {
                  s \<leftarrow> dec_ref (m_right pn) s;
                  s \<leftarrow> write_right parent (Some child) s;
                  Some (s, m_ptr)
                } else do {
                  s \<leftarrow> dec_ref (m_left pn) s;
                  s \<leftarrow> write_left parent (Some child) s;
                  Some (s, m_ptr)
                })
         }))"

text \<open>
  \<^verbatim>\<open>bool check_invariant(node const * n) const\<close>: \<open>Some True\<close> when no assertion
  fails.
\<close>

partial_function (option) check_invariant :: "('a \<Rightarrow> 'a \<Rightarrow> int) \<Rightarrow> 'a store \<Rightarrow> nat option \<Rightarrow> bool option" where
  "check_invariant cmp s n =
     (case n of
        None \<Rightarrow> Some True
      | Some a \<Rightarrow>
          (case heap s a of
             None \<Rightarrow> None
           | Some nd \<Rightarrow> do {
               _ \<leftarrow> (case m_left nd of
                      None \<Rightarrow> Some True
                    | Some l \<Rightarrow> do {
                        _ \<leftarrow> check_invariant cmp s (Some l);
                        (case heap s l of
                           None \<Rightarrow> None
                         | Some ln \<Rightarrow> if cmp (m_value ln) (m_value nd) < 0 then Some True else None)
                      });
               _ \<leftarrow> (case m_right nd of
                      None \<Rightarrow> Some True
                    | Some r \<Rightarrow> do {
                        _ \<leftarrow> check_invariant cmp s (Some r);
                        (case heap s r of
                           None \<Rightarrow> None
                         | Some rn \<Rightarrow> if cmp (m_value nd) (m_value rn) < 0 then Some True else None)
                      });
               Some True
             }))"

text \<open>
  \<^verbatim>\<open>static void to_buffer(node const * n, buffer<T> & r)\<close>.
  Modelled from the spec: \<^verbatim>\<open>buffer\<close> (util/buffer.h) is not part of the sources at hand; it
  is a list here and \<^verbatim>\<open>push_back\<close> appends at its end.
\<close>

partial_function (option) to_buffer :: "'a store \<Rightarrow> nat option \<Rightarrow> 'a list \<Rightarrow> 'a list option" where
  "to_buffer s n r =
     (case n of
        None \<Rightarrow> Some r
      | Some a \<Rightarrow>
          (case heap s a of
             None \<Rightarrow> None
           | Some nd \<Rightarrow> do {
               r \<leftarrow> to_buffer s (m_left nd) r;
               to_buffer s (m_right nd) (r @ [m_value nd])
             }))"

text \<open>
  How the \<^verbatim>\<open>while (true)\<close> loop of \<^verbatim>\<open>insert_pull\<close> is left: by \<^verbatim>\<open>return false\<close>, or by
  \<^verbatim>\<open>break\<close> with \<open>found\<close>, the store, \<^verbatim>\<open>m_ptr\<close>, the path and \<open>n\<close>.
\<close>

datatype 'a loop_exit =
    Return_false "'a store" "nat option"
  | Break bool "'a store" "nat option" "entry list" nat

text \<open>
  The loop of \<^verbatim>\<open>insert_pull\<close>.  The \<^verbatim>\<open>static thread_local\<close> path is empty whenever
  \<^verbatim>\<open>insert_pull\<close> is entered, because \<^verbatim>\<open>splay_to_top\<close> pops all of it and the early
  \<^verbatim>\<open>return\<close> is taken with an empty path only; so it is an argument that starts empty.
\<close>

partial_function (option) insert_pull_loop ::
  "('a \<Rightarrow> 'a \<Rightarrow> int) \<Rightarrow> 'a \<Rightarrow> bool \<Rightarrow> 'a store \<Rightarrow> nat option \<Rightarrow> entry list \<Rightarrow> nat option
    \<Rightarrow> 'a loop_exit option" where
  "insert_pull_loop cmp v is_insert s m_ptr path n =
     (case n of
        None \<Rightarrow>
          if is_insert then do {
            (a, s) \<leftarrow> new_node v None None s;
            (s, m_ptr) \<leftarrow> update_parent path a (s, m_ptr);
            Some (Break False s m_ptr path a)
          } else (case path of
                    [] \<Rightarrow> Some (Return_false s m_ptr)
                  | e # path' \<Rightarrow> Some (Break False s m_ptr path' (snd e)))
      | Some a \<Rightarrow>
          (case heap s a of
             None \<Rightarrow> None
           | Some nd0 \<Rightarrow> do {
               (a, s, m_ptr) \<leftarrow>
                 (if is_shared nd0 then do {
                    (a', s) \<leftarrow> copy_node a s;
                    (s, m_ptr) \<leftarrow> update_parent path a' (s, m_ptr);
                    Some (a', s, m_ptr)
                  } else Some (a, s, m_ptr));
               (case heap s a of
                  None \<Rightarrow> None
                | Some nd \<Rightarrow>
                    if is_shared nd then None
                    else (let c = cmp v (m_value nd) in
                      if c < 0 then insert_pull_loop cmp v is_insert s m_ptr ((False, a) # path) (m_left nd)
                      else if c > 0 then insert_pull_loop cmp v is_insert s m_ptr ((True, a) # path) (m_right nd)
                      else do {
                        s \<leftarrow> (if is_insert then write_value a v s else Some s);
                        Some (Break True s m_ptr path a)
                      }))
             }))"

text \<open>
  \<^verbatim>\<open>bool insert_pull(T const & v, bool is_insert)\<close>: the loop, \<^verbatim>\<open>splay_to_top(path, n)\<close>,
  \<^verbatim>\<open>m_ptr = n\<close> and \<^verbatim>\<open>lean_assert(check_invariant())\<close>.
\<close>

definition insert_pull ::
  "('a \<Rightarrow> 'a \<Rightarrow> int) \<Rightarrow> 'a \<Rightarrow> bool \<Rightarrow> 'a store \<times> nat option \<Rightarrow> (bool \<times> 'a store \<times> nat option) option" where
  "insert_pull cmp v is_insert sm =
     (case sm of (s, m_ptr) \<Rightarrow> do {
        e \<leftarrow> insert_pull_loop cmp v is_insert s m_ptr [] m_ptr;
        (case e of
           Return_false s m_ptr \<Rightarrow> Some (False, s, m_ptr)
         | Break found s m_ptr path n \<Rightarrow> do {
             s \<leftarrow> splay_to_top path n s;
             _ \<leftarrow> check_invariant cmp s (Some n);
             Some (found, s, Some n)
           })
      })"

text \<open>\<^verbatim>\<open>bool pull(T const & v) { return insert_pull(v, false); }\<close>\<close>

definition pull :: "('a \<Rightarrow> 'a \<Rightarrow> int) \<Rightarrow> 'a \<Rightarrow> 'a store \<times> nat option \<Rightarrow> (bool \<times> 'a store \<times> nat option) option" where
  "pull cmp v sm = insert_pull cmp v False sm"

text \<open>The loop of \<^verbatim>\<open>pull_max\<close>; \<^verbatim>\<open>lean_assert(n)\<close> holds since \<open>n\<close> is an address.\<close>

partial_function (option) pull_max_loop ::
  "'a store \<Rightarrow> nat option \<Rightarrow> entry list \<Rightarrow> nat \<Rightarrow> ('a store \<times> nat option \<times> entry list \<times> nat) option" where
  "pull_max_loop s m_ptr path n =
     (case heap s n of
        None \<Rightarrow> None
      | Some nd0 \<Rightarrow> do {
          (n, s, m_ptr) \<leftarrow>
            (if is_shared nd0 then do {
               (n', s) \<leftarrow> copy_node n s;
               (s, m_ptr) \<leftarrow> update_parent path n' (s, m_ptr);
               Some (n', s, m_ptr)
             } else Some (n, s, m_ptr));
          (case heap s n of
             None \<Rightarrow> None
           | Some nd \<Rightarrow>
               (case m_right nd of
                  Some r \<Rightarrow> pull_max_loop s m_ptr ((True, n) # path) r
                | None \<Rightarrow> Some (s, m_ptr, path, n)))
        })"

text \<open>\<^verbatim>\<open>void pull_max()\<close>\<close>

definition pull_max :: "('a \<Rightarrow> 'a \<Rightarrow> int) \<Rightarrow> 'a store \<times> nat option \<Rightarrow> ('a store \<times> nat option) option" where
  "pull_max cmp sm =
     (case sm of (s, m_ptr) \<Rightarrow>
      (case m_ptr of
         None \<Rightarrow> Some (s, m_ptr)
       | Some root \<Rightarrow> do {
           (s, m_ptr, path, n) \<leftarrow> pull_max_loop s m_ptr [] root;
           s \<leftarrow> splay_to_top path n s;
           _ \<leftarrow> check_invariant cmp s (Some n);
           Some (s, Some n)
         }))"

text \<open>
  The copy constructor \<^verbatim>\<open>splay_tree(splay_tree const & s)\<close> and the private
  \<^verbatim>\<open>splay_tree(splay_tree const & s, node * new_root)\<close>: the new handle holds the pointer,
  whose count is incremented.
\<close>

definition copy_handle :: "'a store \<times> nat option \<Rightarrow> ('a store \<times> nat option) option" where
  "copy_handle sm = (case sm of (s, m_ptr) \<Rightarrow> do { s \<leftarrow> inc_ref m_ptr s; Some (s, m_ptr) })"

text \<open>\<^verbatim>\<open>~splay_tree() { node::dec_ref(m_ptr); }\<close>\<close>

definition destroy_handle :: "'a store \<times> nat option \<Rightarrow> 'a store option" where
  "destroy_handle sm = (case sm of (s, m_ptr) \<Rightarrow> dec_ref m_ptr s)"

text \<open>\<^verbatim>\<open>void swap(splay_tree & t) { std::swap(m_ptr, t.m_ptr); }\<close>\<close>

definition swap_h :: "nat option \<Rightarrow> nat option \<Rightarrow> nat option \<times> nat option" where
  "swap_h m_ptr t_m_ptr = (t_m_ptr, m_ptr)"

text \<open>
  A handle of the store model with its comparator base: \<^verbatim>\<open>class splay_tree : public CMP\<close>
  and \<^verbatim>\<open>node * m_ptr\<close>.
\<close>

type_synonym 'a handle = "('a \<Rightarrow> 'a \<Rightarrow> int) \<times> nat option"

text \<open>
  \<^verbatim>\<open>swap\<close> on two handles: \<^verbatim>\<open>std::swap(m_ptr, t.m_ptr)\<close> exchanges the pointers and
  leaves the comparator of each handle in place.  The result is the pair of \<^verbatim>\<open>*this\<close>
  and \<open>t\<close> after the call.
\<close>

definition swap_handle :: "'a handle \<Rightarrow> 'a handle \<Rightarrow> 'a handle \<times> 'a handle" where
  "swap_handle a b = (case swap_h (snd a) (snd b) of (p, q) \<Rightarrow> ((fst a, p), (fst b, q)))"

text \<open>
  The copy constructor on a handle: \<^verbatim>\<open>CMP(s)\<close> copies the comparator, \<^verbatim>\<open>m_ptr(s.m_ptr)\<close>
  the pointer, and the body increments the count of the root.
\<close>

definition copy_construct :: "'a store \<times> 'a handle \<Rightarrow> ('a store \<times> 'a handle) option" where
  "copy_construct sh = (case sh of (s, h) \<Rightarrow>
     do { (s, p) \<leftarrow> copy_handle (s, snd h); Some (s, (fst h, p)) })"

text \<open>\<^verbatim>\<open>bool empty() const { return m_ptr == nullptr; }\<close>\<close>

definition empty_h :: "nat option \<Rightarrow> bool" where
  "empty_h m_ptr = (m_ptr = None)"

text \<open>\<^verbatim>\<open>void clear() { node::dec_ref(m_ptr); m_ptr = nullptr; }\<close>\<close>

definition clear :: "'a store \<times> nat option \<Rightarrow> ('a store \<times> nat option) option" where
  "clear sm = (case sm of (s, m_ptr) \<Rightarrow> do { s \<leftarrow> dec_ref m_ptr s; Some (s, None) })"

text \<open>\<^verbatim>\<open>void insert(T const & v) { insert_pull(v, true); }\<close>\<close>

definition insert_h :: "('a \<Rightarrow> 'a \<Rightarrow> int) \<Rightarrow> 'a \<Rightarrow> 'a store \<times> nat option \<Rightarrow> ('a store \<times> nat option) option" where
  "insert_h cmp v sm = do { (found, s, m_ptr) \<leftarrow> insert_pull cmp v True sm; Some (s, m_ptr) }"

text \<open>
  \<^verbatim>\<open>T const * find(T const & v) const\<close>: the result is the address of the node whose
  \<^verbatim>\<open>m_value\<close> is pointed to, or \<open>None\<close> for \<^verbatim>\<open>nullptr\<close>.
\<close>

partial_function (option) find_loop ::
  "('a \<Rightarrow> 'a \<Rightarrow> int) \<Rightarrow> 'a \<Rightarrow> 'a store \<Rightarrow> nat option \<Rightarrow> nat option option" where
  "find_loop cmp v s n =
     (case n of
        None \<Rightarrow> Some None
      | Some a \<Rightarrow>
          (case heap s a of
             None \<Rightarrow> None
           | Some nd \<Rightarrow>
               (let c = cmp v (m_value nd) in
                if c < 0 then find_loop cmp v s (m_left nd)
                else if c > 0 then find_loop cmp v s (m_right nd)
                else Some (Some a))))"

definition find_h :: "('a \<Rightarrow> 'a \<Rightarrow> int) \<Rightarrow> 'a \<Rightarrow> 'a store \<times> nat option \<Rightarrow> nat option option" where
  "find_h cmp v sm = (case sm of (s, m_ptr) \<Rightarrow> find_loop cmp v s m_ptr)"

text \<open>The number of nodes whose value \<^verbatim>\<open>find\<close> compares with \<open>v\<close>, added to \<open>k\<close>.\<close>

partial_function (option) find_visits ::
  "('a \<Rightarrow> 'a \<Rightarrow> int) \<Rightarrow> 'a \<Rightarrow> 'a store \<Rightarrow> nat option \<Rightarrow> nat \<Rightarrow> nat option" where
  "find_visits cmp v s n k =
     (case n of
        None \<Rightarrow> Some k
      | Some a \<Rightarrow>
          (case heap s a of
             None \<Rightarrow> None
           | Some nd \<Rightarrow>
               (let c = cmp v (m_value nd) in
                if c < 0 then find_visits cmp v s (m_left nd) (Suc k)
                else if c > 0 then find_visits cmp v s (m_right nd) (Suc k)
                else Some (Suc k))))"

text \<open>\<^verbatim>\<open>bool contains(T const & v) const { return find(v); }\<close>\<close>

definition contains :: "('a \<Rightarrow> 'a \<Rightarrow> int) \<Rightarrow> 'a \<Rightarrow> 'a store \<times> nat option \<Rightarrow> bool option" where
  "contains cmp v sm = do { p \<leftarrow> find_h cmp v sm; Some (p \<noteq> None) }"

text \<open>\<^verbatim>\<open>T const * find_memoize(T const & v)\<close> with its assertion on the root.\<close>

definition find_memoize ::
  "('a \<Rightarrow> 'a \<Rightarrow> int) \<Rightarrow> 'a \<Rightarrow> 'a store \<times> nat option \<Rightarrow> (nat option \<times> 'a store \<times> nat option) option" where
  "find_memoize cmp v sm = do {
     (found, s, m_ptr) \<leftarrow> pull cmp v sm;
     if found then
       (case m_ptr of
          None \<Rightarrow> None
        | Some root \<Rightarrow>
            (case heap s root of
               None \<Rightarrow> None
             | Some nd \<Rightarrow> if cmp (m_value nd) v = 0 then Some (Some root, s, m_ptr) else None))
     else Some (None, s, m_ptr)
   }"

text \<open>
  \<^verbatim>\<open>void erase(T const & v)\<close>.  \<open>left\<close> and \<open>right\<close> are the two local handles; they
  are destroyed at the end of the block, \<open>right\<close> first.
\<close>

definition erase :: "('a \<Rightarrow> 'a \<Rightarrow> int) \<Rightarrow> 'a \<Rightarrow> 'a store \<times> nat option \<Rightarrow> ('a store \<times> nat option) option" where
  "erase cmp v sm = do {
     (found, s, m_ptr) \<leftarrow> pull cmp v sm;
     if found then
       (case m_ptr of
          None \<Rightarrow> None
        | Some root \<Rightarrow>
            (case heap s root of
               None \<Rightarrow> None
             | Some nd \<Rightarrow>
                 if cmp (m_value nd) v \<noteq> 0 then None
                 else do {
                   (s, left) \<leftarrow> copy_handle (s, m_left nd);
                   (s, right) \<leftarrow> copy_handle (s, m_right nd);
                   if empty_h left then do {
                     (m_ptr, right) \<leftarrow> Some (swap_h m_ptr right);
                     s \<leftarrow> destroy_handle (s, right);
                     s \<leftarrow> destroy_handle (s, left);
                     Some (s, m_ptr)
                   } else if empty_h right then do {
                     (m_ptr, left) \<leftarrow> Some (swap_h m_ptr left);
                     s \<leftarrow> destroy_handle (s, right);
                     s \<leftarrow> destroy_handle (s, left);
                     Some (s, m_ptr)
                   } else do {
                     (s, m_ptr) \<leftarrow> clear (s, m_ptr);
                     (s, left) \<leftarrow> pull_max cmp (s, left);
                     (case (left, right) of
                        (Some lroot, Some rroot) \<Rightarrow>
                          (case heap s lroot of
                             None \<Rightarrow> None
                           | Some ln \<Rightarrow>
                               if m_right ln \<noteq> None then None
                               else do {
                                 s \<leftarrow> inc_ref (Some rroot) s;
                                 s \<leftarrow> write_right lroot (Some rroot) s;
                                 (m_ptr, left) \<leftarrow> Some (swap_h m_ptr left);
                                 s \<leftarrow> destroy_handle (s, right);
                                 s \<leftarrow> destroy_handle (s, left);
                                 Some (s, m_ptr)
                               })
                      | _ \<Rightarrow> None)
                   }
                 }))
     else Some (s, m_ptr)
   }"

text \<open>
  The non-member \<^verbatim>\<open>insert(t, v)\<close>: \<^verbatim>\<open>splay_tree r(t); r.insert(v); return r;\<close>.  The
  argument handle stays as it is and the result is the handle \<open>r\<close>.
\<close>

definition insert_copy :: "('a \<Rightarrow> 'a \<Rightarrow> int) \<Rightarrow> 'a \<Rightarrow> 'a store \<times> nat option \<Rightarrow> ('a store \<times> nat option) option" where
  "insert_copy cmp v sm = do { r \<leftarrow> copy_handle sm; insert_h cmp v r }"

text \<open>The non-member \<^verbatim>\<open>erase(t, v)\<close>: \<^verbatim>\<open>splay_tree r(t); r.erase(v); return r;\<close>\<close>

definition erase_copy :: "('a \<Rightarrow> 'a \<Rightarrow> int) \<Rightarrow> 'a \<Rightarrow> 'a store \<times> nat option \<Rightarrow> ('a store \<times> nat option) option" where
  "erase_copy cmp v sm = do { r \<leftarrow> copy_handle sm; erase cmp v r }"

text \<open>The recursion equations of the partial functions are their code equations.\<close>

declare dec_ref.simps [code] check_invariant.simps [code] to_buffer.simps [code]
  insert_pull_loop.simps [code] pull_max_loop.simps [code] find_loop.simps [code] find_visits.simps [code]


section \<open>Store model: reference counts, represented trees and the invariants of the loops\<close>

text \<open>The reference count at an address; 0 where no node is allocated.\<close>

definition rc_of :: "'a store \<Rightarrow> nat \<Rightarrow> nat" where
  "rc_of s a = (case heap s a of None \<Rightarrow> 0 | Some nd \<Rightarrow> m_rc nd)"

text \<open>A store with three unshared nodes in a left chain: 3 above 2 above 1.\<close>

definition three_chain :: "int store" where
  "three_chain =
     \<lparr>heap = [0 \<mapsto> \<lparr>m_left = None, m_right = None, m_value = 1, m_rc = 1\<rparr>,
              1 \<mapsto> \<lparr>m_left = Some 0, m_right = None, m_value = 2, m_rc = 1\<rparr>,
              2 \<mapsto> \<lparr>m_left = Some 1, m_right = None, m_value = 3, m_rc = 1\<rparr>],
      next_free = 3\<rparr>"

text \<open>
  References are counted with multisets of addresses: a pointer contributes its target
  once, a null pointer nothing.
\<close>

fun opt_mset :: "nat option \<Rightarrow> nat multiset" where
  "opt_mset None = {#}"
| "opt_mset (Some a) = {#a#}"

text \<open>The references held by the two child slots of a node.\<close>

definition node_refs :: "'a node \<Rightarrow> nat multiset" where
  "node_refs nd = opt_mset (m_left nd) + opt_mset (m_right nd)"

text \<open>
  The references of a cell that count: none for a free cell, and none for a node whose
  own count is 0, which is a node under construction or in \<^verbatim>\<open>dealloc\<close>.
\<close>

definition cell_refs :: "'a node option \<Rightarrow> nat multiset" where
  "cell_refs c = (case c of None \<Rightarrow> {#} | Some nd \<Rightarrow> if m_rc nd = 0 then {#} else node_refs nd)"

text \<open>All references held by child slots in the store.\<close>

definition live_refs :: "'a store \<Rightarrow> nat multiset" where
  "live_refs s = (\<Sum>a<next_free s. cell_refs (heap s a))"

text \<open>
  Reference counts are exact: with \<open>R\<close> the references held outside the nodes (handles
  and local pointers), the count of every node is the number of references to it, and a
  free cell is referred to by nobody.  Allocated cells lie below \<open>next_free\<close>.
\<close>

definition rc_ok :: "'a store \<Rightarrow> nat multiset \<Rightarrow> bool" where
  "rc_ok s R \<longleftrightarrow>
     (\<forall>a. heap s a \<noteq> None \<longrightarrow> a < next_free s) \<and>
     (\<forall>a. rc_of s a = count (live_refs s + R) a)"

text \<open>The allocated nodes whose count is 0.\<close>

definition dead :: "'a store \<Rightarrow> nat set" where
  "dead s = {a. \<exists>nd. heap s a = Some nd \<and> m_rc nd = 0}"

text \<open>
  \<open>hang s M q t\<close>: in the store \<open>s\<close> the pointer \<open>q\<close> is the root of the tree \<open>t\<close>,
  and no node of it lies in the set \<open>M\<close>.
\<close>

inductive hang :: "'a store \<Rightarrow> nat set \<Rightarrow> nat option \<Rightarrow> 'a tree \<Rightarrow> bool"
  for s :: "'a store" and M :: "nat set" where
  hang_Leaf: "hang s M None Leaf"
| hang_Node: "heap s a = Some nd \<Longrightarrow> a \<notin> M \<Longrightarrow> hang s M (m_left nd) l \<Longrightarrow> hang s M (m_right nd) r
    \<Longrightarrow> hang s M (Some a) (Node l (m_value nd) r)"

text \<open>The pointer \<open>p\<close> represents the tree \<open>t\<close>.\<close>

definition repr :: "'a store \<Rightarrow> nat option \<Rightarrow> 'a tree \<Rightarrow> bool" where
  "repr s p t = hang s {} p t"

text \<open>The fields of a node other than its count.\<close>

definition shape :: "'a node \<Rightarrow> nat option \<times> 'a \<times> nat option" where
  "shape nd = (m_left nd, m_value nd, m_right nd)"

text \<open>Outside \<open>M\<close> every node of \<open>s\<close> is still there in \<open>s'\<close>, with the same fields.\<close>

definition frame :: "nat set \<Rightarrow> 'a store \<Rightarrow> 'a store \<Rightarrow> bool" where
  "frame M s s' \<longleftrightarrow>
     (\<forall>a nd. a \<notin> M \<longrightarrow> heap s a = Some nd \<longrightarrow> (\<exists>nd'. heap s' a = Some nd' \<and> shape nd' = shape nd))"

text \<open>The child slot that a path entry with \<^verbatim>\<open>m_right = d\<close> follows.\<close>

definition slot :: "bool \<Rightarrow> 'a node \<Rightarrow> nat option" where
  "slot d nd = (if d then m_right nd else m_left nd)"

text \<open>
  A path entry of the store and a path entry of the value model agree: same direction,
  the node is unshared and holds the same value, and the slot that the path does not
  follow represents the same subtree.  Nothing is said of the slot that the path follows.
\<close>

definition entry_rel :: "'a store \<Rightarrow> nat set \<Rightarrow> entry \<Rightarrow> 'a tentry \<Rightarrow> bool" where
  "entry_rel s M e te \<longleftrightarrow>
     fst e = fst te \<and>
     (\<exists>nd. heap s (snd e) = Some nd \<and> m_rc nd = 1 \<and> m_value nd = t_value (snd te) \<and>
        hang s M (slot (\<not> fst e) nd) (if fst e then t_left (snd te) else t_right (snd te)))"

text \<open>The splay target: an unshared node whose value and two subtrees are those of \<open>tn\<close>.\<close>

definition node_rel :: "'a store \<Rightarrow> nat set \<Rightarrow> nat \<Rightarrow> 'a tnode \<Rightarrow> bool" where
  "node_rel s M n tn \<longleftrightarrow>
     (\<exists>nn. heap s n = Some nn \<and> m_rc nn = 1 \<and> m_value nn = t_value tn \<and>
        hang s M (m_left nn) (t_left tn) \<and> hang s M (m_right nn) (t_right tn))"

text \<open>Each entry of the path is in the slot that the entry below it follows.\<close>

fun links :: "'a store \<Rightarrow> entry list \<Rightarrow> bool" where
  "links s (pe # ge # path) =
     ((\<exists>gn. heap s (snd ge) = Some gn \<and> slot (fst ge) gn = Some (snd pe)) \<and> links s (ge # path))"
| "links s path = True"

text \<open>Only cells in \<open>F\<close> differ between the two stores.\<close>

definition same_outside :: "nat set \<Rightarrow> 'a store \<Rightarrow> 'a store \<Rightarrow> bool" where
  "same_outside F s s' \<longleftrightarrow> next_free s' = next_free s \<and> (\<forall>a. a \<notin> F \<longrightarrow> heap s' a = heap s a)"

text \<open>
  The recorded path during a descent: every entry is an unshared node, the slot it
  follows holds the next node of the descent, and the bottom entry is what \<^verbatim>\<open>m_ptr\<close> holds.
\<close>

fun chain :: "'a store \<Rightarrow> nat option \<Rightarrow> entry list \<Rightarrow> nat option \<Rightarrow> bool" where
  "chain s m_ptr [] n = (m_ptr = n)"
| "chain s m_ptr (e # path) n =
     ((\<exists>nd. heap s (snd e) = Some nd \<and> m_rc nd = 1 \<and> slot (fst e) nd = n) \<and>
      chain s m_ptr path (Some (snd e)))"

text \<open>The references held by a list of handles.\<close>

definition roots_mset :: "nat option list \<Rightarrow> nat multiset" where
  "roots_mset roots = (\<Sum>r\<leftarrow>roots. opt_mset r)"

text \<open>A pointer that \<^verbatim>\<open>dec_ref\<close> only decrements: null, or to a node with a count of 2 or more.\<close>

definition shared_or_null :: "'a store \<Rightarrow> nat option \<Rightarrow> bool" where
  "shared_or_null s old =
     (case old of None \<Rightarrow> True
      | Some a \<Rightarrow> (case heap s a of None \<Rightarrow> False | Some nd \<Rightarrow> m_rc nd \<ge> 2))"

text \<open>The store after such a decrement.\<close>

definition drop_ref :: "nat option \<Rightarrow> 'a store \<Rightarrow> 'a store" where
  "drop_ref old s =
     (case old of None \<Rightarrow> s
      | Some a \<Rightarrow> (case heap s a of None \<Rightarrow> s | Some nd \<Rightarrow> set_node a (nd\<lparr>m_rc := m_rc nd - 1\<rparr>) s))"

text \<open>A pointer that may be given a further reference: null, or to a node with a positive count.\<close>

definition live_ptr :: "'a store \<Rightarrow> nat option \<Rightarrow> bool" where
  "live_ptr s p = (case p of None \<Rightarrow> True
     | Some c \<Rightarrow> (case heap s c of None \<Rightarrow> False | Some nd \<Rightarrow> m_rc nd > 0))"

text \<open>
  The invariant of the descent loops of \<^verbatim>\<open>insert_pull\<close> and \<^verbatim>\<open>pull_max\<close>.  \<open>Q\<close> lists the
  other handles with the trees they represent; \<open>path\<close> and \<open>n\<close> are the variables of the
  loop, \<open>tpath\<close> and \<open>t\<close> their counterparts in the value model.  Counts are exact, no
  node has count 0, the path is a chain of distinct unshared nodes from \<^verbatim>\<open>m_ptr\<close> to \<open>n\<close>,
  and \<open>n\<close> and the other handles represent their trees without touching the path.
\<close>

definition dinv :: "'a store \<Rightarrow> nat option \<Rightarrow> (nat option \<times> 'a tree) list \<Rightarrow> entry list \<Rightarrow> nat option
    \<Rightarrow> 'a tentry list \<Rightarrow> 'a tree \<Rightarrow> bool" where
  "dinv s m_ptr Q path n tpath t \<longleftrightarrow>
     rc_ok s (opt_mset m_ptr + roots_mset (map fst Q)) \<and> dead s = {} \<and>
     chain s m_ptr path n \<and> distinct (map snd path) \<and>
     list_all2 (entry_rel s (snd ` set path)) path tpath \<and>
     hang s (snd ` set path) n t \<and>
     (\<forall>q\<in>set Q. hang s (snd ` set path) (fst q) (snd q))"

text \<open>The same at the \<^verbatim>\<open>break\<close>, where \<open>n\<close> is the unshared splay target.\<close>

definition binv :: "'a store \<Rightarrow> nat option \<Rightarrow> (nat option \<times> 'a tree) list \<Rightarrow> entry list \<Rightarrow> nat
    \<Rightarrow> 'a tentry list \<Rightarrow> 'a tnode \<Rightarrow> bool" where
  "binv s m_ptr Q path a tpath tn \<longleftrightarrow>
     rc_ok s (opt_mset m_ptr + roots_mset (map fst Q)) \<and> dead s = {} \<and>
     chain s m_ptr path (Some a) \<and> distinct (a # map snd path) \<and>
     list_all2 (entry_rel s (insert a (snd ` set path))) path tpath \<and>
     node_rel s (insert a (snd ` set path)) a tn \<and>
     (\<forall>q\<in>set Q. hang s (insert a (snd ` set path)) (fst q) (snd q))"

text \<open>
  The invariant between two operations: a handle \<open>p\<close> that represents \<open>t\<close>, the other
  handles \<open>Q\<close> with their trees, exact counts for these handles, and no node with count 0.
\<close>

definition hinv :: "'a store \<Rightarrow> nat option \<Rightarrow> (nat option \<times> 'a tree) list \<Rightarrow> 'a tree \<Rightarrow> bool" where
  "hinv s p Q t \<longleftrightarrow>
     rc_ok s (opt_mset p + roots_mset (map fst Q)) \<and> dead s = {} \<and>
     repr s p t \<and> (\<forall>q\<in>set Q. repr s (fst q) (snd q))"

text \<open>The sum of all counts: it decreases along the recursion of \<^verbatim>\<open>dec_ref\<close>.\<close>

definition total_rc :: "'a store \<Rightarrow> nat" where
  "total_rc s = (\<Sum>a<next_free s. rc_of s a)"

text \<open>
  The number of references to the node at \<open>a\<close>: the child slots of allocated nodes that
  hold \<open>a\<close>, and the handles in \<open>hs\<close> that hold \<open>a\<close>.
\<close>

definition incoming :: "'a store \<Rightarrow> nat option list \<Rightarrow> nat \<Rightarrow> nat" where
  "incoming s hs a =
     (\<Sum>b<next_free s. case heap s b of
         None \<Rightarrow> 0
       | Some nb \<Rightarrow> (if m_left nb = Some a then 1 else 0) + (if m_right nb = Some a then 1 else 0))
     + length (filter (\<lambda>h. h = Some a) hs)"

text \<open>Every allocated node has a count of at least 1, equal to the number of references to it.\<close>

definition counted :: "'a store \<Rightarrow> nat option list \<Rightarrow> bool" where
  "counted s hs \<longleftrightarrow> (\<forall>a nd. heap s a = Some nd \<longrightarrow> 1 \<le> m_rc nd \<and> m_rc nd = incoming s hs a)"

text \<open>A store with one node, the root of two handles.\<close>

definition shared_pair :: "int store" where
  "shared_pair =
     \<lparr>heap = [0 \<mapsto> \<lparr>m_left = None, m_right = None, m_value = 1, m_rc = 2\<rparr>], next_free = Suc 0\<rparr>"

text \<open>A store with two unshared nodes, 2 at the root and 1 as its left child.\<close>

definition two_nodes :: "int store" where
  "two_nodes =
     \<lparr>heap = [0 \<mapsto> \<lparr>m_left = None, m_right = None, m_value = 1, m_rc = 1\<rparr>,
              1 \<mapsto> \<lparr>m_left = Some 0, m_right = None, m_value = 2, m_rc = 1\<rparr>],
      next_free = 2\<rparr>"

section \<open>The value model: order and content\<close>

lemma cmp_gt: "cmp_ok cmp \<Longrightarrow> (0 < cmp a b) = (cmp b a < 0)"
  by (simp add: cmp_ok_def)

lemma cmp_refl: "cmp_ok cmp \<Longrightarrow> cmp a a = 0"
  unfolding cmp_ok_def by (metis less_asym linorder_neqE_linordered_idom)

lemma cmp_sym: "cmp_ok cmp \<Longrightarrow> (cmp a b = 0) = (cmp b a = 0)"
  unfolding cmp_ok_def by (metis less_irrefl linorder_neqE_linordered_idom)

lemma cmp_le_iff: "cmp_ok cmp \<Longrightarrow> (cmp a b \<le> 0) = (\<not> cmp b a < 0)"
  unfolding cmp_ok_def by (metis not_le)

lemma cmp_lt_trans: "cmp_ok cmp \<Longrightarrow> cmp a b < 0 \<Longrightarrow> cmp b c < 0 \<Longrightarrow> cmp a c < 0"
proof -
  assume ok: "cmp_ok cmp" and ab: "cmp a b < 0" and bc: "cmp b c < 0"
  show "cmp a c < 0"
  proof (rule ccontr)
    assume "\<not> cmp a c < 0"
    then have "cmp c a \<le> 0" using ok by (simp add: cmp_le_iff)
    moreover have "cmp b c \<le> 0" using bc by simp
    ultimately have "cmp b a \<le> 0" using ok unfolding cmp_ok_def by blast
    then show False using ab ok by (simp add: cmp_ok_def)
  qed
qed

lemma cmp_eq_lt: "cmp_ok cmp \<Longrightarrow> cmp a b = 0 \<Longrightarrow> cmp b c < 0 \<Longrightarrow> cmp a c < 0"
proof -
  assume ok: "cmp_ok cmp" and ab: "cmp a b = 0" and bc: "cmp b c < 0"
  show "cmp a c < 0"
  proof (rule ccontr)
    assume "\<not> cmp a c < 0"
    then have "cmp c a \<le> 0" using ok by (simp add: cmp_le_iff)
    moreover have "cmp a b \<le> 0" using ab by simp
    ultimately have "cmp c b \<le> 0" using ok unfolding cmp_ok_def by blast
    then show False using bc ok by (simp add: cmp_ok_def)
  qed
qed

lemma cmp_lt_eq: "cmp_ok cmp \<Longrightarrow> cmp a b < 0 \<Longrightarrow> cmp b c = 0 \<Longrightarrow> cmp a c < 0"
proof -
  assume ok: "cmp_ok cmp" and ab: "cmp a b < 0" and bc: "cmp b c = 0"
  show "cmp a c < 0"
  proof (rule ccontr)
    assume "\<not> cmp a c < 0"
    then have "cmp c a \<le> 0" using ok by (simp add: cmp_le_iff)
    moreover have "cmp b c \<le> 0" using bc by simp
    ultimately have "cmp b a \<le> 0" using ok unfolding cmp_ok_def by blast
    then show False using ab ok by (simp add: cmp_ok_def)
  qed
qed

lemma int_cmp_ok: "cmp_ok int_cmp"
  by (auto simp: cmp_ok_def int_cmp_def split: if_splits)

lemma key_cmp_ok: "cmp_ok key_cmp"
  by (auto simp: cmp_ok_def key_cmp_def int_cmp_def split: if_splits)

lemma splay_step2_inorder:
  "to_buffer_t (ptr (splay_step2_t ge pe n)) =
     path_before [pe, ge] @ to_buffer_t (ptr n) @ path_after [pe, ge]"
  by (cases ge; cases pe; cases n) (auto simp: Let_def)

lemma splay_step1_inorder:
  "to_buffer_t (ptr (splay_step1_t pe n)) =
     path_before [pe] @ to_buffer_t (ptr n) @ path_after [pe]"
  by (cases pe; cases n) (auto simp: Let_def)

lemma path_before_cons2: "path_before (pe # ge # path) = path_before path @ path_before [pe, ge]"
  by (cases ge; cases pe) auto

lemma path_after_cons2: "path_after (pe # ge # path) = path_after [pe, ge] @ path_after path"
  by (cases ge; cases pe) auto

lemma splay_to_top_inorder:
  "to_buffer_t (ptr (splay_to_top_t path n)) =
     path_before path @ to_buffer_t (ptr n) @ path_after path"
proof (induction path n rule: splay_to_top_t.induct)
  case (1 p_entry g_entry path n)
  show ?case
    by (simp only: splay_to_top_t.simps "1.IH" splay_step2_inorder
        path_before_cons2 [of p_entry g_entry path] path_after_cons2 [of p_entry g_entry path] append_assoc)
next
  case (2 p_entry n)
  show ?case by (simp only: splay_to_top_t.simps splay_step1_inorder)
next
  case (3 n)
  show ?case by simp
qed

lemma splay_step2_value: "t_value (splay_step2_t ge pe n) = t_value n"
  by (cases ge; cases pe; cases n) (auto simp: Let_def)

lemma splay_step1_value: "t_value (splay_step1_t pe n) = t_value n"
  by (cases pe; cases n) (auto simp: Let_def)

lemma splay_to_top_value: "t_value (splay_to_top_t path n) = t_value n"
  by (induction path n rule: splay_to_top_t.induct)
     (simp_all only: splay_to_top_t.simps splay_step2_value splay_step1_value)

lemma path_before_update_parent: "path_before (update_parent_t path c) = path_before path"
  by (induction path c rule: update_parent_t.induct) auto

lemma path_after_update_parent: "path_after (update_parent_t path c) = path_after path"
  by (induction path c rule: update_parent_t.induct) auto

lemma descend_pull_inorder:
  "descend_t cmp v False path t = Some (found, path', n) \<Longrightarrow> slot_ok path t \<Longrightarrow>
   path_before path' @ to_buffer_t (ptr n) @ path_after path' =
   path_before path @ to_buffer_t t @ path_after path"
proof (induction t arbitrary: path)
  case Leaf
  then show ?case
    by (cases path) (auto split: if_splits)
next
  case (Node l x r)
  show ?case
  proof (cases "cmp v x < 0")
    case True
    with Node.prems have "descend_t cmp v False ((False, (l, x, r)) # path) l = Some (found, path', n)"
      by simp
    from Node.IH(1) [OF this] show ?thesis by simp
  next
    case False
    show ?thesis
    proof (cases "0 < cmp v x")
      case True
      with False Node.prems have "descend_t cmp v False ((True, (l, x, r)) # path) r = Some (found, path', n)"
        by simp
      from Node.IH(2) [OF this] show ?thesis by simp
    next
      case F2: False
      with False Node.prems show ?thesis by auto
    qed
  qed
qed


lemma cmp_neq_iff: "cmp_ok cmp \<Longrightarrow> (cmp a b \<noteq> 0) = (cmp a b < 0 \<or> cmp b a < 0)"
  using cmp_gt [of cmp a b] by auto

lemma cmp_lt_neq: "cmp_ok cmp \<Longrightarrow> cmp a b < 0 \<Longrightarrow> cmp b a \<noteq> 0"
  using cmp_gt [of cmp b a] by auto

lemma sorted_replace_equiv:
  assumes ok: "cmp_ok cmp" and e: "cmp v x = 0"
    and s: "sorted_wrt (\<lambda>a b. cmp a b < 0) (xs @ x # ys)"
  shows "sorted_wrt (\<lambda>a b. cmp a b < 0) (xs @ v # ys)"
    and "\<forall>y\<in>set xs \<union> set ys. cmp y v \<noteq> 0"
proof -
  have xv: "cmp x v = 0" using e cmp_sym [OF ok] by blast
  have l: "\<forall>y\<in>set xs. cmp y v < 0"
    using s cmp_lt_eq [OF ok _ xv] by (auto simp: sorted_wrt_append)
  have r: "\<forall>y\<in>set ys. cmp v y < 0"
    using s cmp_eq_lt [OF ok e] by (auto simp: sorted_wrt_append)
  show "sorted_wrt (\<lambda>a b. cmp a b < 0) (xs @ v # ys)"
    using s l r by (auto simp: sorted_wrt_append)
  show "\<forall>y\<in>set xs \<union> set ys. cmp y v \<noteq> 0"
    using l r cmp_lt_neq [OF ok] by fastforce
qed

lemma descend_value_insert:
  "descend_t cmp v True path t = Some (found, path', n) \<Longrightarrow> t_value n = v"
  by (induction t arbitrary: path) (auto simp: Let_def split: if_splits)

lemma descend_value_found:
  "descend_t cmp v False path t = Some (True, path', n) \<Longrightarrow> cmp v (t_value n) = 0"
  by (induction t arbitrary: path) (auto simp: Let_def split: if_splits list.splits)

lemma descend_value_not_found:
  "descend_t cmp v False path t = Some (False, path', n) \<Longrightarrow>
   \<forall>e\<in>set path. cmp v (t_value (snd e)) \<noteq> 0 \<Longrightarrow> cmp v (t_value n) \<noteq> 0"
proof (induction t arbitrary: path)
  case Leaf
  then show ?case by (cases path) (auto split: if_splits)
next
  case (Node l x r)
  show ?case
  proof (cases "cmp v x < 0")
    case True
    with Node.prems(1) have d: "descend_t cmp v False ((False, (l, x, r)) # path) l = Some (False, path', n)"
      by simp
    show ?thesis by (rule Node.IH(1) [OF d]) (use True Node.prems(2) in auto)
  next
    case False
    show ?thesis
    proof (cases "0 < cmp v x")
      case True
      with False Node.prems(1) have d: "descend_t cmp v False ((True, (l, x, r)) # path) r = Some (False, path', n)"
        by simp
      show ?thesis by (rule Node.IH(2) [OF d]) (use True Node.prems(2) in auto)
    next
      case F2: False
      with False Node.prems(1) show ?thesis by auto
    qed
  qed
qed

lemma descend_found_iff:
  assumes ok: "cmp_ok cmp"
  shows "descend_t cmp v ins path t = Some (found, path', n) \<Longrightarrow>
   sorted_wrt (\<lambda>a b. cmp a b < 0) (to_buffer_t t) \<Longrightarrow>
   found = (\<exists>x\<in>set (to_buffer_t t). cmp v x = 0)"
proof (induction t arbitrary: path)
  case Leaf
  then show ?case by (auto split: if_splits list.splits)
next
  case (Node l x r)
  have sl: "sorted_wrt (\<lambda>a b. cmp a b < 0) (to_buffer_t l)"
    and sr: "sorted_wrt (\<lambda>a b. cmp a b < 0) (to_buffer_t r)"
    and lx: "\<forall>y\<in>set (to_buffer_t l). cmp y x < 0"
    and xr: "\<forall>y\<in>set (to_buffer_t r). cmp x y < 0"
    using Node.prems(2) by (auto simp: sorted_wrt_append)
  show ?case
  proof (cases "cmp v x < 0")
    case True
    with Node.prems(1) have d: "descend_t cmp v ins ((False, (l, x, r)) # path) l = Some (found, path', n)"
      by simp
    have "\<forall>y\<in>set (to_buffer_t r). cmp v y < 0"
      using xr cmp_lt_trans [OF ok True] by blast
    then have "\<forall>y\<in>set (to_buffer_t r). cmp v y \<noteq> 0" by fastforce
    with Node.IH(1) [OF d sl] True show ?thesis by auto
  next
    case False
    show ?thesis
    proof (cases "0 < cmp v x")
      case True
      with False Node.prems(1) have d: "descend_t cmp v ins ((True, (l, x, r)) # path) r = Some (found, path', n)"
        by simp
      have xv: "cmp x v < 0" using True cmp_gt [OF ok] by blast
      have "\<forall>y\<in>set (to_buffer_t l). cmp y v < 0"
        using lx cmp_lt_trans [OF ok _ xv] by blast
      then have "\<forall>y\<in>set (to_buffer_t l). cmp v y \<noteq> 0"
        using cmp_lt_neq [OF ok] by blast
      with Node.IH(2) [OF d sr] True show ?thesis by auto
    next
      case F2: False
      with False Node.prems(1) show ?thesis by auto
    qed
  qed
qed

lemma descend_insert_sorted_set:
  assumes ok: "cmp_ok cmp"
  shows "descend_t cmp v True path t = Some (found, path', n) \<Longrightarrow>
   sorted_wrt (\<lambda>a b. cmp a b < 0) (path_before path @ to_buffer_t t @ path_after path) \<Longrightarrow>
   \<forall>y\<in>set (path_before path). cmp y v < 0 \<Longrightarrow>
   \<forall>y\<in>set (path_after path). cmp v y < 0 \<Longrightarrow>
   sorted_wrt (\<lambda>a b. cmp a b < 0) (path_before path' @ to_buffer_t (ptr n) @ path_after path') \<and>
   set (path_before path' @ to_buffer_t (ptr n) @ path_after path') =
     {y \<in> set (path_before path @ to_buffer_t t @ path_after path). cmp y v \<noteq> 0} \<union> {v}"
proof (induction t arbitrary: path)
  case Leaf
  from Leaf.prems(1) have p: "path' = update_parent_t path (Node Leaf v Leaf)" and n: "n = (Leaf, v, Leaf)"
    by auto
  have nz: "\<forall>y\<in>set (path_before path) \<union> set (path_after path). cmp y v \<noteq> 0"
    using Leaf.prems(3,4) cmp_lt_neq [OF ok] by fastforce
  show ?case
    using Leaf.prems(2,3,4) nz
    by (auto simp: p n path_before_update_parent path_after_update_parent sorted_wrt_append)
next
  case (Node l x r)
  let ?B = "path_before path" and ?A = "path_after path"
  have s: "sorted_wrt (\<lambda>a b. cmp a b < 0) ((?B @ to_buffer_t l) @ x # (to_buffer_t r @ ?A))"
    using Node.prems(2) by simp
  show ?case
  proof (cases "cmp v x < 0")
    case True
    with Node.prems(1) have d: "descend_t cmp v True ((False, (l, x, r)) # path) l = Some (found, path', n)"
      by simp
    have a: "\<forall>y\<in>set (path_after ((False, (l, x, r)) # path)). cmp v y < 0"
      using s True Node.prems(4) cmp_lt_trans [OF ok True] by (auto simp: sorted_wrt_append)
    have "sorted_wrt (\<lambda>a b. cmp a b < 0)
        (path_before ((False, (l, x, r)) # path) @ to_buffer_t l @ path_after ((False, (l, x, r)) # path))"
      using Node.prems(2) by simp
    from Node.IH(1) [OF d this _ a] Node.prems(3) show ?thesis by simp
  next
    case False
    show ?thesis
    proof (cases "0 < cmp v x")
      case True
      with False Node.prems(1) have d: "descend_t cmp v True ((True, (l, x, r)) # path) r = Some (found, path', n)"
        by simp
      have xv: "cmp x v < 0" using True cmp_gt [OF ok] by blast
      have b: "\<forall>y\<in>set (path_before ((True, (l, x, r)) # path)). cmp y v < 0"
        using s xv Node.prems(3) cmp_lt_trans [OF ok _ xv] by (auto simp: sorted_wrt_append)
      have "sorted_wrt (\<lambda>a b. cmp a b < 0)
          (path_before ((True, (l, x, r)) # path) @ to_buffer_t r @ path_after ((True, (l, x, r)) # path))"
        using Node.prems(2) by simp
      from Node.IH(2) [OF d this b] Node.prems(4) show ?thesis by simp
    next
      case F2: False
      then have e: "cmp v x = 0" using False by simp
      from Node.prems(1) e have p: "path' = path" and n: "n = (l, v, r)" by auto
      note r = sorted_replace_equiv [OF ok e s]
      have xv: "cmp x v = 0" using e cmp_sym [OF ok] by blast
      have vv: "cmp v v = 0" by (rule cmp_refl [OF ok])
      have "sorted_wrt (\<lambda>a b. cmp a b < 0) (?B @ to_buffer_t (ptr n) @ ?A)"
        using r(1) by (simp add: n)
      moreover have "set (?B @ to_buffer_t (ptr n) @ ?A) =
         {y \<in> set (?B @ to_buffer_t (Node l x r) @ ?A). cmp y v \<noteq> 0} \<union> {v}"
        using r(2) xv by (auto simp: n)
      ultimately show ?thesis by (simp only: p)
    qed
  qed
qed

lemma find_Some:
  "find_t cmp v t = Some x \<Longrightarrow> x \<in> set (to_buffer_t t) \<and> cmp v x = 0"
  by (induction t) (auto simp: Let_def split: if_splits)

lemma find_None_iff:
  assumes ok: "cmp_ok cmp"
  shows "sorted_wrt (\<lambda>a b. cmp a b < 0) (to_buffer_t t) \<Longrightarrow>
   (find_t cmp v t = None) = (\<forall>x\<in>set (to_buffer_t t). cmp v x \<noteq> 0)"
proof (induction t)
  case Leaf
  show ?case by simp
next
  case (Node l x r)
  have sl: "sorted_wrt (\<lambda>a b. cmp a b < 0) (to_buffer_t l)"
    and sr: "sorted_wrt (\<lambda>a b. cmp a b < 0) (to_buffer_t r)"
    and lx: "\<forall>y\<in>set (to_buffer_t l). cmp y x < 0"
    and xr: "\<forall>y\<in>set (to_buffer_t r). cmp x y < 0"
    using Node.prems by (auto simp: sorted_wrt_append)
  show ?case
  proof (cases "cmp v x < 0")
    case True
    have "\<forall>y\<in>set (to_buffer_t r). cmp v y < 0"
      using xr cmp_lt_trans [OF ok True] by blast
    then have "\<forall>y\<in>set (to_buffer_t r). cmp v y \<noteq> 0" by fastforce
    with Node.IH(1) [OF sl] True show ?thesis by auto
  next
    case False
    show ?thesis
    proof (cases "0 < cmp v x")
      case True
      have xv: "cmp x v < 0" using True cmp_gt [OF ok] by blast
      have "\<forall>y\<in>set (to_buffer_t l). cmp y v < 0"
        using lx cmp_lt_trans [OF ok _ xv] by blast
      then have "\<forall>y\<in>set (to_buffer_t l). cmp v y \<noteq> 0"
        using cmp_lt_neq [OF ok] by blast
      with Node.IH(2) [OF sr] True show ?thesis by auto
    next
      case F2: False
      with False show ?thesis by auto
    qed
  qed
qed

lemma splay_all_right: "all_right path \<Longrightarrow> t_right (splay_to_top_t path n) = t_right n"
proof (induction path n rule: splay_to_top_t.induct)
  case (1 p_entry g_entry path n)
  then show ?case by (cases p_entry; cases g_entry; cases n) (auto simp: Let_def)
next
  case (2 p_entry n)
  then show ?case by (cases p_entry; cases n) (auto simp: Let_def)
next
  case (3 n)
  show ?case by simp
qed

lemma descend_max_props:
  "descend_max_t path l x r = (path', n) \<Longrightarrow> all_right path \<Longrightarrow>
   all_right path' \<and> t_right n = Leaf \<and>
   path_before path' @ to_buffer_t (ptr n) @ path_after path' =
   path_before path @ to_buffer_t (Node l x r) @ path_after path"
proof (induction path l x r rule: descend_max_t.induct)
  case (1 path l x)
  then show ?case by auto
next
  case (2 path l x rl rx rr)
  from "2.prems" have d: "descend_max_t ((True, l, x, Node rl rx rr) # path) rl rx rr = (path', n)"
    by simp
  from "2.IH" [OF d] "2.prems"(2) show ?case by simp
qed

lemma all_right_after: "all_right path \<Longrightarrow> path_after path = []"
  by (induction path) auto

lemma pull_max_props:
  "t \<noteq> Leaf \<Longrightarrow> \<exists>l m. pull_max_t t = Node l m Leaf \<and> to_buffer_t t = to_buffer_t l @ [m]"
proof -
  assume "t \<noteq> Leaf"
  then obtain l x r where t: "t = Node l x r" by (cases t) auto
  obtain path n where d: "descend_max_t [] l x r = (path, n)" by (cases "descend_max_t [] l x r")
  from descend_max_props [OF d] have ar: "all_right path" and rn: "t_right n = Leaf"
    and io: "path_before path @ to_buffer_t (ptr n) @ path_after path = to_buffer_t (Node l x r)"
    by auto
  obtain l' m r' where s: "splay_to_top_t path n = (l', m, r')" by (cases "splay_to_top_t path n")
  have "r' = Leaf" using splay_all_right [OF ar, of n] rn s by simp
  moreover have "to_buffer_t (Node l' m r') = to_buffer_t (Node l x r)"
    using splay_to_top_inorder [of path n] io s by simp
  ultimately show ?thesis using t d s by (auto simp: pull_max_t_def)
qed

lemma descend_None: "descend_t cmp v ins path t = None \<Longrightarrow> t = Leaf \<and> path = [] \<and> \<not> ins"
  by (induction t arbitrary: path) (auto simp: Let_def split: if_splits list.splits)

lemma pull_Leaf: "pull_t cmp v Leaf = (False, Leaf)"
  by (simp add: pull_t_def insert_pull_t_def)

lemma pull_inorder: "to_buffer_t (snd (pull_t cmp v t)) = to_buffer_t t"
proof (cases "descend_t cmp v False [] t")
  case None
  then show ?thesis by (simp add: pull_t_def insert_pull_t_def)
next
  case (Some res)
  obtain found path n where res: "res = (found, path, n)" by (cases res)
  from descend_pull_inorder [OF Some [unfolded res]]
  have "path_before path @ to_buffer_t (ptr n) @ path_after path = to_buffer_t t" by simp
  then show ?thesis
    using Some res by (simp add: pull_t_def insert_pull_t_def splay_to_top_inorder)
qed

lemma pull_found_iff:
  assumes ok: "cmp_ok cmp" and b: "bst cmp t"
  shows "fst (pull_t cmp v t) = (\<exists>x\<in>set (to_buffer_t t). cmp v x = 0)"
proof (cases "descend_t cmp v False [] t")
  case None
  with descend_None [OF None] show ?thesis by (simp add: pull_t_def insert_pull_t_def)
next
  case (Some res)
  obtain found path n where res: "res = (found, path, n)" by (cases res)
  from descend_found_iff [OF ok Some [unfolded res]] b
  have "found = (\<exists>x\<in>set (to_buffer_t t). cmp v x = 0)" by (simp add: bst_def)
  then show ?thesis using Some res by (simp add: pull_t_def insert_pull_t_def)
qed

lemma ptr_splay_root: "ptr (splay_to_top_t path n) = Node (t_left (splay_to_top_t path n)) (t_value n) (t_right (splay_to_top_t path n))"
  using splay_to_top_value [of path n] by (cases "splay_to_top_t path n") auto

lemma pull_found_root:
  "fst (pull_t cmp v t) \<Longrightarrow> \<exists>l x r. snd (pull_t cmp v t) = Node l x r \<and> cmp v x = 0"
proof (cases "descend_t cmp v False [] t")
  case None
  assume "fst (pull_t cmp v t)"
  with None show ?thesis by (simp add: pull_t_def insert_pull_t_def)
next
  case (Some res)
  assume f: "fst (pull_t cmp v t)"
  obtain found path n where res: "res = (found, path, n)" by (cases res)
  from f Some res have "found" by (simp add: pull_t_def insert_pull_t_def)
  with Some res have "cmp v (t_value n) = 0" using descend_value_found by fastforce
  then show ?thesis using Some res ptr_splay_root [of path n]
    by (simp add: pull_t_def insert_pull_t_def)
qed

lemma pull_not_found_root:
  "\<not> fst (pull_t cmp v t) \<Longrightarrow> t \<noteq> Leaf \<Longrightarrow>
   \<exists>l x r. snd (pull_t cmp v t) = Node l x r \<and> cmp v x \<noteq> 0"
proof (cases "descend_t cmp v False [] t")
  case None
  assume "t \<noteq> Leaf"
  with descend_None [OF None] show ?thesis by simp
next
  case (Some res)
  assume f: "\<not> fst (pull_t cmp v t)"
  obtain found path n where res: "res = (found, path, n)" by (cases res)
  from f Some res have "\<not> found" by (simp add: pull_t_def insert_pull_t_def)
  with Some res have "descend_t cmp v False [] t = Some (False, path, n)" by simp
  from descend_value_not_found [OF this] have "cmp v (t_value n) \<noteq> 0" by simp
  then show ?thesis using Some res ptr_splay_root [of path n]
    by (simp add: pull_t_def insert_pull_t_def)
qed

lemma insert_root: "\<exists>l r. insert_t cmp v t = Node l v r"
proof (cases "descend_t cmp v True [] t")
  case None
  with descend_None [OF None] show ?thesis by simp
next
  case (Some res)
  obtain found path n where res: "res = (found, path, n)" by (cases res)
  from descend_value_insert [OF Some [unfolded res]] have "t_value n = v" .
  then show ?thesis using Some res ptr_splay_root [of path n]
    by (simp add: insert_t_def insert_pull_t_def)
qed

lemma insert_sorted_set:
  assumes ok: "cmp_ok cmp" and b: "bst cmp t"
  shows "bst cmp (insert_t cmp v t) \<and>
    set (to_buffer_t (insert_t cmp v t)) = {y \<in> set (to_buffer_t t). cmp y v \<noteq> 0} \<union> {v}"
proof (cases "descend_t cmp v True [] t")
  case None
  with descend_None [OF None] show ?thesis by simp
next
  case (Some res)
  obtain found path n where res: "res = (found, path, n)" by (cases res)
  from descend_insert_sorted_set [OF ok Some [unfolded res]] b
  show ?thesis using Some res
    by (simp add: insert_t_def insert_pull_t_def splay_to_top_inorder bst_def)
qed

lemma erase_found_inorder:
  assumes p: "pull_t cmp v t = (True, Node L x R)"
  shows "to_buffer_t (erase_t cmp v t) = to_buffer_t L @ to_buffer_t R"
proof (cases "L = Leaf \<or> R = Leaf")
  case True
  then show ?thesis using p by (auto simp: erase_t_def)
next
  case False
  then have "L \<noteq> Leaf" by simp
  from pull_max_props [OF this] obtain l m where
    pm: "pull_max_t L = Node l m Leaf" and io: "to_buffer_t L = to_buffer_t l @ [m]" by blast
  show ?thesis using False p pm io by (simp add: erase_t_def)
qed

lemma erase_not_found: "\<not> fst (pull_t cmp v t) \<Longrightarrow> erase_t cmp v t = snd (pull_t cmp v t)"
  by (cases "pull_t cmp v t") (auto simp: erase_t_def)

lemma erase_sorted_set:
  assumes ok: "cmp_ok cmp" and b: "bst cmp t"
  shows "bst cmp (erase_t cmp v t) \<and>
    set (to_buffer_t (erase_t cmp v t)) = {y \<in> set (to_buffer_t t). cmp y v \<noteq> 0}"
proof (cases "fst (pull_t cmp v t)")
  case True
  from pull_found_root [OF True] obtain L x R where
    s: "snd (pull_t cmp v t) = Node L x R" and e: "cmp v x = 0" by blast
  from True s have p: "pull_t cmp v t = (True, Node L x R)" by (cases "pull_t cmp v t") auto
  have io: "to_buffer_t t = to_buffer_t L @ x # to_buffer_t R"
    using pull_inorder [of cmp v t] s by simp
  have srt: "sorted_wrt (\<lambda>a b. cmp a b < 0) (to_buffer_t L @ x # to_buffer_t R)"
    using b io by (simp add: bst_def)
  have xv: "cmp x v = 0" using e cmp_sym [OF ok] by blast
  note r = sorted_replace_equiv [OF ok e srt]
  have "sorted_wrt (\<lambda>a b. cmp a b < 0) (to_buffer_t L @ to_buffer_t R)"
    using srt by (auto simp: sorted_wrt_append)
  moreover have "set (to_buffer_t L @ to_buffer_t R) = {y \<in> set (to_buffer_t t). cmp y v \<noteq> 0}"
    using r(2) xv io by auto
  ultimately show ?thesis by (simp add: erase_found_inorder [OF p] bst_def)
next
  case False
  from pull_found_iff [OF ok b, of v] False
  have ne: "\<forall>x\<in>set (to_buffer_t t). cmp v x \<noteq> 0" by simp
  then have "\<forall>x\<in>set (to_buffer_t t). cmp x v \<noteq> 0" using cmp_sym [OF ok] by blast
  then show ?thesis using b by (auto simp: erase_not_found [OF False] pull_inorder bst_def)
qed

lemma contains_iff:
  assumes ok: "cmp_ok cmp" and b: "bst cmp t"
  shows "contains_t cmp v t = (\<exists>x\<in>set (to_buffer_t t). cmp v x = 0)"
  using find_None_iff [OF ok b [unfolded bst_def], of v] by (auto simp: contains_t_def)

lemma check_invariant_bst:
  "bst cmp t \<Longrightarrow> check_invariant_t cmp t"
  unfolding bst_def
proof (induction t)
  case Leaf
  show ?case by simp
next
  case (Node l x r)
  have sl: "sorted_wrt (\<lambda>a b. cmp a b < 0) (to_buffer_t l)"
    and sr: "sorted_wrt (\<lambda>a b. cmp a b < 0) (to_buffer_t r)"
    and lx: "\<forall>y\<in>set (to_buffer_t l). cmp y x < 0"
    and xr: "\<forall>y\<in>set (to_buffer_t r). cmp x y < 0"
    using Node.prems by (auto simp: sorted_wrt_append)
  have cl: "check_invariant_t cmp l" by (rule Node.IH(1) [OF sl])
  have cr: "check_invariant_t cmp r" by (rule Node.IH(2) [OF sr])
  have a: "case l of Leaf \<Rightarrow> True | Node ll lx lr \<Rightarrow> check_invariant_t cmp l \<and> cmp lx x < 0"
    using cl lx by (cases l) simp_all
  have b: "case r of Leaf \<Rightarrow> True | Node rl rx rr \<Rightarrow> check_invariant_t cmp r \<and> cmp x rx < 0"
    using cr xr by (cases r) simp_all
  show ?case using a b by (simp only: check_invariant_t.simps simp_thms)
qed

lemma bst_Leaf: "bst cmp Leaf"
  by (simp add: bst_def)

lemma s1_eq:
  "s1 = Node (Node (Node Leaf 1 Leaf) 2 (Node (Node Leaf 3 (Node Leaf 4 Leaf)) 5 Leaf)) 6 (Node Leaf 9 Leaf)"
  by (simp add: s1_def insert_t_def insert_pull_t_def int_cmp_def)

lemma bst_s1: "bst int_cmp s1"
  by (simp add: s1_eq bst_def int_cmp_def)

lemma descend_insert_target:
  "descend_t cmp v True path t = Some (found, path', n) \<Longrightarrow>
   (\<not> found \<and> n = (Leaf, v, Leaf)) \<or>
   (found \<and> (\<exists>l x r. Node l x r \<in> subtrees t \<and> cmp v x = 0 \<and> n = (l, v, r)))"
proof (induction t arbitrary: path)
  case Leaf
  then show ?case by auto
next
  case (Node l x r)
  show ?case
  proof (cases "cmp v x < 0")
    case True
    with Node.prems have "descend_t cmp v True ((False, (l, x, r)) # path) l = Some (found, path', n)"
      by simp
    from Node.IH(1) [OF this] show ?thesis by auto
  next
    case False
    show ?thesis
    proof (cases "0 < cmp v x")
      case True
      with False Node.prems have "descend_t cmp v True ((True, (l, x, r)) # path) r = Some (found, path', n)"
        by simp
      from Node.IH(2) [OF this] show ?thesis by auto
    next
      case F2: False
      with False Node.prems show ?thesis by auto
    qed
  qed
qed

lemma descend_last_visited:
  "descend_t cmp v False path t = Some (False, path', n) \<Longrightarrow>
   (case path of [] \<Rightarrow> t \<noteq> Leaf | e # es \<Rightarrow> prev = t_value (snd e)) \<Longrightarrow>
   t_value n = last_visited cmp v prev t"
proof (induction t arbitrary: path prev)
  case Leaf
  then show ?case by (cases path) auto
next
  case (Node l x r)
  show ?case
  proof (cases "cmp v x < 0")
    case True
    with Node.prems have "descend_t cmp v False ((False, (l, x, r)) # path) l = Some (False, path', n)"
      by simp
    from Node.IH(1) [OF this, of x] True show ?thesis by simp
  next
    case False
    show ?thesis
    proof (cases "0 < cmp v x")
      case True
      with False Node.prems have "descend_t cmp v False ((True, (l, x, r)) # path) r = Some (False, path', n)"
        by simp
      from Node.IH(2) [OF this, of x] True False show ?thesis by simp
    next
      case F2: False
      with False Node.prems show ?thesis by auto
    qed
  qed
qed

lemma pull_not_found_last_visited:
  assumes "\<not> fst (pull_t cmp v t)" and "t \<noteq> Leaf"
  shows "\<exists>l r. snd (pull_t cmp v t) = Node l (last_visited cmp v prev t) r"
proof (cases "descend_t cmp v False [] t")
  case None
  with descend_None [OF None] assms show ?thesis by simp
next
  case (Some res)
  obtain found path n where res: "res = (found, path, n)" by (cases res)
  from assms(1) Some res have "\<not> found" by (simp add: pull_t_def insert_pull_t_def)
  with Some res have d: "descend_t cmp v False [] t = Some (False, path, n)" by simp
  have "t_value n = last_visited cmp v prev t"
    by (rule descend_last_visited [OF d]) (simp add: assms(2))
  then show ?thesis using Some res ptr_splay_root [of path n]
    by (simp add: pull_t_def insert_pull_t_def)
qed

lemma cmp_eq_trans: "cmp_ok cmp \<Longrightarrow> cmp a b = 0 \<Longrightarrow> cmp b c = 0 \<Longrightarrow> cmp a c = 0"
proof -
  assume ok: "cmp_ok cmp" and ab: "cmp a b = 0" and bc: "cmp b c = 0"
  have ba: "cmp b a = 0" and cb: "cmp c b = 0" using ab bc cmp_sym [OF ok] by blast+
  have "cmp a c \<le> 0" using ok ab bc unfolding cmp_ok_def by (metis order_refl)
  moreover have "cmp c a \<le> 0" using ok ba cb unfolding cmp_ok_def by (metis order_refl)
  ultimately show "cmp a c = 0" using cmp_le_iff [OF ok, of c a] by simp
qed

lemma sorted_equiv_unique:
  assumes ok: "cmp_ok cmp"
  shows "sorted_wrt (\<lambda>a b. cmp a b < 0) xs \<Longrightarrow> x \<in> set xs \<Longrightarrow> y \<in> set xs \<Longrightarrow>
    cmp v x = 0 \<Longrightarrow> cmp v y = 0 \<Longrightarrow> x = y"
proof (induction xs)
  case Nil
  then show ?case by simp
next
  case (Cons a as)
  have xv: "cmp x v = 0" and yv: "cmp y v = 0"
    using Cons.prems(4,5) cmp_sym [OF ok] by blast+
  have xy: "cmp x y = 0" by (rule cmp_eq_trans [OF ok xv Cons.prems(5)])
  have yx: "cmp y x = 0" by (rule cmp_eq_trans [OF ok yv Cons.prems(4)])
  show ?case
  proof (cases "x = a")
    case True
    show ?thesis
    proof (cases "y = a")
      case True
      with \<open>x = a\<close> show ?thesis by simp
    next
      case False
      with Cons.prems(1,3) True have "cmp x y < 0" by auto
      with xy show ?thesis by simp
    qed
  next
    case False
    show ?thesis
    proof (cases "y = a")
      case True
      with Cons.prems(1,2) False have "cmp y x < 0" by auto
      with yx show ?thesis by simp
    next
      case F2: False
      with False Cons show ?thesis by auto
    qed
  qed
qed

lemma sorted_distinct:
  assumes ok: "cmp_ok cmp"
  shows "sorted_wrt (\<lambda>a b. cmp a b < 0) xs \<Longrightarrow> distinct xs"
proof (induction xs)
  case Nil
  show ?case by simp
next
  case (Cons a as)
  have "a \<notin> set as"
  proof
    assume "a \<in> set as"
    with Cons.prems have "cmp a a < 0" by auto
    then show False using cmp_refl [OF ok, of a] by simp
  qed
  with Cons show ?case by simp
qed

lemma find_memoize_found:
  "fst (pull_t cmp v t) \<Longrightarrow>
   \<exists>l x r. find_memoize_t cmp v t = (Some x, Node l x r) \<and> cmp v x = 0"
proof -
  assume f: "fst (pull_t cmp v t)"
  from pull_found_root [OF f] obtain l x r where
    s: "snd (pull_t cmp v t) = Node l x r" and e: "cmp v x = 0" by blast
  from f s have "pull_t cmp v t = (True, Node l x r)" by (cases "pull_t cmp v t") auto
  then show ?thesis using e by (simp add: find_memoize_t_def)
qed

lemma find_memoize_not_found:
  "\<not> fst (pull_t cmp v t) \<Longrightarrow> find_memoize_t cmp v t = (None, snd (pull_t cmp v t))"
  by (cases "pull_t cmp v t") (auto simp: find_memoize_t_def)

lemma find_memoize_snd: "snd (find_memoize_t cmp v t) = snd (pull_t cmp v t)"
proof (cases "fst (pull_t cmp v t)")
  case True
  from pull_found_root [OF True] obtain l x r where
    s: "snd (pull_t cmp v t) = Node l x r" by blast
  from True s have "pull_t cmp v t = (True, Node l x r)" by (cases "pull_t cmp v t") auto
  then show ?thesis by (simp add: find_memoize_t_def)
next
  case False
  then show ?thesis by (simp add: find_memoize_not_found)
qed

section \<open>Store model: the splay steps keep every reference count\<close>

lemma update_Some:
  "heap s a = Some nd \<Longrightarrow> m_rc nd \<le> 1 \<Longrightarrow>
   update a l r s = Some (s\<lparr>heap := (heap s)(a \<mapsto> nd\<lparr>m_left := l, m_right := r\<rparr>)\<rparr>)"
  by (simp add: update_def is_shared_def set_node_def)

lemma splay_step2_cases:
  assumes g: "heap s g = Some gn" and p: "heap s p = Some pn" and n: "heap s n = Some nn"
    and d: "g \<noteq> p" "g \<noteq> n" "p \<noteq> n"
    and u: "m_rc gn \<le> 1" "m_rc pn \<le> 1" "m_rc nn \<le> 1"
  shows "m_left gn = Some p \<Longrightarrow> splay_step2 (False, g) (False, p) n s =
      Some (s\<lparr>heap := (heap s)
        (g \<mapsto> gn\<lparr>m_left := m_right pn, m_right := m_right gn\<rparr>,
         p \<mapsto> pn\<lparr>m_left := m_right nn, m_right := Some g\<rparr>,
         n \<mapsto> nn\<lparr>m_left := m_left nn, m_right := Some p\<rparr>)\<rparr>)"
    and "m_left gn = Some p \<Longrightarrow> splay_step2 (False, g) (True, p) n s =
      Some (s\<lparr>heap := (heap s)
        (p \<mapsto> pn\<lparr>m_left := m_left pn, m_right := m_left nn\<rparr>,
         g \<mapsto> gn\<lparr>m_left := m_right nn, m_right := m_right gn\<rparr>,
         n \<mapsto> nn\<lparr>m_left := Some p, m_right := Some g\<rparr>)\<rparr>)"
    and "m_right gn = Some p \<Longrightarrow> splay_step2 (True, g) (False, p) n s =
      Some (s\<lparr>heap := (heap s)
        (g \<mapsto> gn\<lparr>m_left := m_left gn, m_right := m_left nn\<rparr>,
         p \<mapsto> pn\<lparr>m_left := m_right nn, m_right := m_right pn\<rparr>,
         n \<mapsto> nn\<lparr>m_left := Some g, m_right := Some p\<rparr>)\<rparr>)"
    and "m_right gn = Some p \<Longrightarrow> splay_step2 (True, g) (True, p) n s =
      Some (s\<lparr>heap := (heap s)
        (g \<mapsto> gn\<lparr>m_left := m_left gn, m_right := m_left pn\<rparr>,
         p \<mapsto> pn\<lparr>m_left := Some g, m_right := m_left nn\<rparr>,
         n \<mapsto> nn\<lparr>m_left := Some p, m_right := m_right nn\<rparr>)\<rparr>)"
  using assms
  by (simp_all add: splay_step2_def update_def is_shared_def set_node_def Let_def)

lemma splay_step1_cases:
  assumes p: "heap s p = Some pn" and n: "heap s n = Some nn"
    and d: "p \<noteq> n"
    and u: "m_rc pn \<le> 1" "m_rc nn \<le> 1"
  shows "splay_step1 (False, p) n s =
      Some (s\<lparr>heap := (heap s)
        (p \<mapsto> pn\<lparr>m_left := m_right nn, m_right := m_right pn\<rparr>,
         n \<mapsto> nn\<lparr>m_left := m_left nn, m_right := Some p\<rparr>)\<rparr>)"
    and "splay_step1 (True, p) n s =
      Some (s\<lparr>heap := (heap s)
        (p \<mapsto> pn\<lparr>m_left := m_left pn, m_right := m_left nn\<rparr>,
         n \<mapsto> nn\<lparr>m_left := Some p, m_right := m_right nn\<rparr>)\<rparr>)"
  using assms
  by (simp_all add: splay_step1_def update_def is_shared_def set_node_def Let_def)

lemma update_rc_of: "update a l r s = Some s' \<Longrightarrow> rc_of s' b = rc_of s b"
  by (auto simp: update_def rc_of_def set_node_def split: option.splits if_splits)

lemma splay_step2_rc_of: "splay_step2 ge pe n s = Some s' \<Longrightarrow> rc_of s' b = rc_of s b"
  by (auto simp: splay_step2_def Let_def update_rc_of
      split: option.splits if_splits Option.bind_splits)

lemma splay_step1_rc_of: "splay_step1 pe n s = Some s' \<Longrightarrow> rc_of s' b = rc_of s b"
  by (auto simp: splay_step1_def Let_def update_rc_of
      split: option.splits if_splits Option.bind_splits)

lemma splay_loop_rc_of: "splay_loop path n s = Some s' \<Longrightarrow> rc_of s' b = rc_of s b"
proof (induction path n s rule: splay_loop.induct)
  case (1 p_entry g_entry path n s)
  then show ?case by (auto simp: splay_step2_rc_of split: Option.bind_splits)
next
  case (2 p_entry n s)
  then show ?case by (simp add: splay_step1_rc_of)
next
  case (3 n s)
  then show ?case by simp
qed

lemma splay_to_top_rc_of: "splay_to_top path n s = Some s' \<Longrightarrow> rc_of s' b = rc_of s b"
  by (auto simp: splay_to_top_def splay_loop_rc_of split: if_splits Option.bind_splits)

section \<open>Store model: counting references\<close>

lemma sum_fun_upd_mset:
  fixes f :: "nat \<Rightarrow> nat multiset"
  assumes "a < n"
  shows "(\<Sum>b<n. (f(a := x)) b) + f a = (\<Sum>b<n. f b) + x"
proof -
  have fin: "finite {..<n}" and ain: "a \<in> {..<n}" using assms by simp_all
  have "(\<Sum>b<n. (f(a := x)) b) = x + (\<Sum>b\<in>{..<n} - {a}. (f(a := x)) b)"
    using sum.remove [OF fin ain, of "f(a := x)"] by simp
  moreover have "(\<Sum>b\<in>{..<n} - {a}. (f(a := x)) b) = (\<Sum>b\<in>{..<n} - {a}. f b)"
    by (rule sum.cong) auto
  moreover have "(\<Sum>b<n. f b) = f a + (\<Sum>b\<in>{..<n} - {a}. f b)"
    using sum.remove [OF fin ain, of f] by simp
  ultimately show ?thesis by (simp add: ac_simps)
qed

lemma live_refs_heap_upd:
  assumes "a < next_free s"
  shows "live_refs (s\<lparr>heap := (heap s)(a := c)\<rparr>) + cell_refs (heap s a) = live_refs s + cell_refs c"
proof -
  let ?f = "\<lambda>b. cell_refs (heap s b)"
  have h: "heap (s\<lparr>heap := (heap s)(a := c)\<rparr>) = (heap s)(a := c)"
    and nf: "next_free (s\<lparr>heap := (heap s)(a := c)\<rparr>) = next_free s" by simp_all
  have e: "(\<Sum>b<next_free s. cell_refs (((heap s)(a := c)) b)) = (\<Sum>b<next_free s. (?f(a := cell_refs c)) b)"
    by (rule sum.cong) auto
  note u = sum_fun_upd_mset [OF assms, of ?f "cell_refs c"]
  show ?thesis unfolding live_refs_def h nf e by (rule u)
qed

lemma live_refs_same_refs:
  assumes "a < next_free s" and "cell_refs c = cell_refs (heap s a)"
  shows "live_refs (s\<lparr>heap := (heap s)(a := c)\<rparr>) = live_refs s"
  using live_refs_heap_upd [OF assms(1), of c] assms(2) by simp

lemma live_refs_alloc:
  assumes "\<forall>a. heap s a \<noteq> None \<longrightarrow> a < next_free s"
  shows "live_refs (s\<lparr>heap := (heap s)(next_free s := c), next_free := Suc (next_free s)\<rparr>)
     = live_refs s + cell_refs c"
proof -
  have n: "heap s (next_free s) = None" using assms by (metis less_irrefl)
  have "(\<Sum>a<next_free s. cell_refs (((heap s)(next_free s := c)) a)) = (\<Sum>a<next_free s. cell_refs (heap s a))"
    by (rule sum.cong) auto
  then show ?thesis by (simp add: live_refs_def)
qed

lemma cell_refs_subset:
  assumes "a < next_free s"
  shows "cell_refs (heap s a) \<subseteq># live_refs s"
proof -
  have "live_refs s = cell_refs (heap s a) + (\<Sum>b\<in>{..<next_free s} - {a}. cell_refs (heap s b))"
    unfolding live_refs_def using sum.remove [of "{..<next_free s}" a "\<lambda>b. cell_refs (heap s b)"] assms
    by simp
  then show ?thesis by (metis mset_subset_eq_add_left)
qed

lemma cell_refs_subset2:
  assumes "a < next_free s" and "b < next_free s" and "a \<noteq> b"
  shows "cell_refs (heap s a) + cell_refs (heap s b) \<subseteq># live_refs s"
proof -
  let ?f = "\<lambda>b. cell_refs (heap s b)"
  have 1: "live_refs s = ?f a + (\<Sum>c\<in>{..<next_free s} - {a}. ?f c)"
    unfolding live_refs_def using sum.remove [of "{..<next_free s}" a ?f] assms by simp
  have "b \<in> {..<next_free s} - {a}" using assms by simp
  then have 2: "(\<Sum>c\<in>{..<next_free s} - {a}. ?f c) = ?f b + (\<Sum>c\<in>{..<next_free s} - {a} - {b}. ?f c)"
    using sum.remove [of "{..<next_free s} - {a}" b ?f] by simp
  show ?thesis unfolding 1 2 by (simp add: add.assoc [symmetric])
qed

lemma rc_of_set_node [simp]:
  "rc_of (set_node a nd s) b = (if b = a then m_rc nd else rc_of s b)"
  by (simp add: rc_of_def set_node_def)

lemma heap_set_node [simp]: "heap (set_node a nd s) = (heap s)(a \<mapsto> nd)"
  by (simp add: set_node_def)

lemma next_free_set_node [simp]: "next_free (set_node a nd s) = next_free s"
  by (simp add: set_node_def)

lemma rc_okD:
  "rc_ok s R \<Longrightarrow> heap s a = Some nd \<Longrightarrow> a < next_free s"
  "rc_ok s R \<Longrightarrow> rc_of s a = count (live_refs s) a + count R a"
  by (auto simp: rc_ok_def)

lemma live_refs_set_node:
  assumes "a < next_free s"
  shows "live_refs (set_node a nd s) + cell_refs (heap s a) = live_refs s + cell_refs (Some nd)"
  using live_refs_heap_upd [OF assms, of "Some nd"] by (simp add: set_node_def)

lemma rc_ok_change_rc:
  assumes ok: "rc_ok s R" and h: "heap s c = Some nd" and l: "m_rc nd > 0" and k: "k > 0"
    and R: "\<forall>x. count R' x + (if x = c then m_rc nd else 0) = count R x + (if x = c then k else 0)"
  shows "rc_ok (set_node c (nd\<lparr>m_rc := k\<rparr>) s) R'"
proof -
  have c: "c < next_free s" by (rule rc_okD(1) [OF ok h])
  have "cell_refs (Some (nd\<lparr>m_rc := k\<rparr>)) = cell_refs (heap s c)"
    using h l k by (simp add: cell_refs_def node_refs_def)
  then have lr: "live_refs (set_node c (nd\<lparr>m_rc := k\<rparr>) s) = live_refs s"
    using live_refs_set_node [OF c, of "nd\<lparr>m_rc := k\<rparr>"] by simp
  have rc: "rc_of s c = m_rc nd" using h by (simp add: rc_of_def)
  show ?thesis
    unfolding rc_ok_def
  proof (intro conjI allI impI)
    fix a assume "heap (set_node c (nd\<lparr>m_rc := k\<rparr>) s) a \<noteq> None"
    then show "a < next_free (set_node c (nd\<lparr>m_rc := k\<rparr>) s)"
      using ok c by (auto simp: rc_ok_def split: if_splits)
  next
    fix a
    show "rc_of (set_node c (nd\<lparr>m_rc := k\<rparr>) s) a = count (live_refs (set_node c (nd\<lparr>m_rc := k\<rparr>) s) + R') a"
      using rc_okD(2) [OF ok, of a] R [rule_format, of a] rc by (auto simp: lr)
  qed
qed

lemma inc_ref_live:
  assumes ok: "rc_ok s R" and h: "heap s c = Some nd" and l: "m_rc nd > 0"
  shows "inc_ref (Some c) s = Some (set_node c (nd\<lparr>m_rc := Suc (m_rc nd)\<rparr>) s)"
    and "rc_ok (set_node c (nd\<lparr>m_rc := Suc (m_rc nd)\<rparr>) s) (add_mset c R)"
proof -
  show "inc_ref (Some c) s = Some (set_node c (nd\<lparr>m_rc := Suc (m_rc nd)\<rparr>) s)"
    using h by simp
  show "rc_ok (set_node c (nd\<lparr>m_rc := Suc (m_rc nd)\<rparr>) s) (add_mset c R)"
    by (rule rc_ok_change_rc [OF ok h l]) auto
qed

lemma dec_ref_shared:
  assumes ok: "rc_ok s (add_mset c R)" and h: "heap s c = Some nd" and l: "m_rc nd \<ge> 2"
  shows "dec_ref (Some c) s = Some (set_node c (nd\<lparr>m_rc := m_rc nd - 1\<rparr>) s)"
    and "rc_ok (set_node c (nd\<lparr>m_rc := m_rc nd - 1\<rparr>) s) R"
proof -
  show "dec_ref (Some c) s = Some (set_node c (nd\<lparr>m_rc := m_rc nd - 1\<rparr>) s)"
    using h l by (subst dec_ref.simps) simp
  show "rc_ok (set_node c (nd\<lparr>m_rc := m_rc nd - 1\<rparr>) s) R"
    by (rule rc_ok_change_rc [OF ok h]) (use l in auto)
qed

lemma dec_ref_None [simp]: "dec_ref None s = Some s"
  by (subst dec_ref.simps) simp

lemma rc_ok_revive:
  assumes ok: "rc_ok s (R + node_refs nd)" and h: "heap s c = Some nd" and l: "m_rc nd = 0" and k: "k > 0"
    and R: "\<forall>x. count R' x = count R x + (if x = c then k else 0)"
  shows "rc_ok (set_node c (nd\<lparr>m_rc := k\<rparr>) s) R'"
proof -
  have c: "c < next_free s" by (rule rc_okD(1) [OF ok h])
  have "cell_refs (heap s c) = {#}" using h l by (simp add: cell_refs_def)
  moreover have "cell_refs (Some (nd\<lparr>m_rc := k\<rparr>)) = node_refs nd"
    using k by (simp add: cell_refs_def node_refs_def)
  ultimately have lr: "live_refs (set_node c (nd\<lparr>m_rc := k\<rparr>) s) = live_refs s + node_refs nd"
    using live_refs_set_node [OF c, of "nd\<lparr>m_rc := k\<rparr>"] by simp
  have rc: "rc_of s c = 0" using h l by (simp add: rc_of_def)
  show ?thesis
    unfolding rc_ok_def
  proof (intro conjI allI impI)
    fix a assume "heap (set_node c (nd\<lparr>m_rc := k\<rparr>) s) a \<noteq> None"
    then show "a < next_free (set_node c (nd\<lparr>m_rc := k\<rparr>) s)"
      using ok c by (auto simp: rc_ok_def split: if_splits)
  next
    fix a
    show "rc_of (set_node c (nd\<lparr>m_rc := k\<rparr>) s) a = count (live_refs (set_node c (nd\<lparr>m_rc := k\<rparr>) s) + R') a"
      using rc_okD(2) [OF ok, of a] R [rule_format, of a] rc by (auto simp: lr)
  qed
qed

lemma rc_ok_relink:
  assumes ok: "rc_ok s R" and h: "heap s b = Some nb" and l: "m_rc nb > 0"
    and k: "m_rc nb' = m_rc nb"
    and R: "R' + node_refs nb' = R + node_refs nb"
  shows "rc_ok (set_node b nb' s) R'"
proof -
  have b: "b < next_free s" by (rule rc_okD(1) [OF ok h])
  have "cell_refs (heap s b) = node_refs nb" using h l by (simp add: cell_refs_def)
  moreover have "cell_refs (Some nb') = node_refs nb'" using k l by (simp add: cell_refs_def)
  ultimately have lr: "live_refs (set_node b nb' s) + node_refs nb = live_refs s + node_refs nb'"
    using live_refs_set_node [OF b, of nb'] by simp
  have "(live_refs (set_node b nb' s) + R') + (node_refs nb + node_refs nb')
      = (live_refs s + R) + (node_refs nb + node_refs nb')"
    using lr R by (metis (no_types, lifting) add.assoc add.commute)
  then have eq: "live_refs (set_node b nb' s) + R' = live_refs s + R" by simp
  have rc: "rc_of s b = m_rc nb" using h by (simp add: rc_of_def)
  show ?thesis
    unfolding rc_ok_def
  proof (intro conjI allI impI)
    fix a assume "heap (set_node b nb' s) a \<noteq> None"
    then show "a < next_free (set_node b nb' s)"
      using ok b by (auto simp: rc_ok_def split: if_splits)
  next
    fix a
    show "rc_of (set_node b nb' s) a = count (live_refs (set_node b nb' s) + R') a"
      unfolding eq using ok rc k by (auto simp: rc_ok_def)
  qed
qed

lemma rc_ok_alloc:
  assumes ok: "rc_ok s R" and l: "m_rc nd = 0"
  shows "rc_ok (s\<lparr>heap := (heap s)(next_free s \<mapsto> nd), next_free := Suc (next_free s)\<rparr>) R"
    and "heap s (next_free s) = None"
proof -
  have b: "\<forall>a. heap s a \<noteq> None \<longrightarrow> a < next_free s" using ok by (simp add: rc_ok_def)
  then show n: "heap s (next_free s) = None" by (metis less_irrefl)
  have lr: "live_refs (s\<lparr>heap := (heap s)(next_free s \<mapsto> nd), next_free := Suc (next_free s)\<rparr>) = live_refs s"
    using live_refs_alloc [OF b, of "Some nd"] l by (simp add: cell_refs_def)
  have rc: "rc_of s (next_free s) = 0" using n by (simp add: rc_of_def)
  show "rc_ok (s\<lparr>heap := (heap s)(next_free s \<mapsto> nd), next_free := Suc (next_free s)\<rparr>) R"
    unfolding rc_ok_def lr
    using ok l rc by (auto simp: rc_ok_def rc_of_def less_Suc_eq)
qed

section \<open>Store model: represented trees and frames\<close>

lemma hang_None_iff [simp]: "hang s M None t = (t = Leaf)"
  by (auto intro: hang_Leaf elim: hang.cases)

lemma hang_Some_iff:
  "hang s M (Some a) t =
     (\<exists>nd l r. heap s a = Some nd \<and> a \<notin> M \<and> t = Node l (m_value nd) r \<and>
        hang s M (m_left nd) l \<and> hang s M (m_right nd) r)"
  by (auto intro: hang_Node elim: hang.cases)

lemma hang_mono: "hang s M q t \<Longrightarrow> M' \<subseteq> M \<Longrightarrow> hang s M' q t"
  by (induction rule: hang.induct) (auto intro: hang.intros)

lemma hang_repr: "hang s M q t \<Longrightarrow> repr s q t"
  unfolding repr_def by (rule hang_mono) simp_all

lemma hang_frame: "hang s M q t \<Longrightarrow> frame M s s' \<Longrightarrow> hang s' M q t"
proof (induction rule: hang.induct)
  case hang_Leaf
  show ?case by simp
next
  case (hang_Node a nd l r)
  from hang_Node.prems hang_Node.hyps(1,2) obtain nd' where
    h: "heap s' a = Some nd'" and sh: "shape nd' = shape nd" by (auto simp: frame_def)
  have "hang s' M (Some a) (Node l (m_value nd') r)"
    using hang_Node h sh by (intro hang.hang_Node) (auto simp: shape_def)
  then show ?case using sh by (simp add: shape_def)
qed

lemma hang_det: "hang s M q t \<Longrightarrow> hang s M' q t' \<Longrightarrow> t = t'"
proof (induction arbitrary: t' rule: hang.induct)
  case hang_Leaf
  then show ?case by simp
next
  case (hang_Node a nd l r)
  from hang_Node.prems hang_Node.hyps(1) obtain l' r' where
    t': "t' = Node l' (m_value nd) r'" and l': "hang s M' (m_left nd) l'" and r': "hang s M' (m_right nd) r'"
    by (auto simp: hang_Some_iff)
  from hang_Node.IH(1) [OF l'] hang_Node.IH(2) [OF r'] t' show ?case by simp
qed

lemma hang_extend:
  "hang s M q t \<Longrightarrow> q \<noteq> Some a \<Longrightarrow>
   (\<forall>b nb. heap s b = Some nb \<longrightarrow> b \<notin> M \<longrightarrow> a \<notin># node_refs nb) \<Longrightarrow>
   hang s (insert a M) q t"
proof (induction rule: hang.induct)
  case hang_Leaf
  show ?case by simp
next
  case (hang_Node c nd l r)
  have na: "a \<notin># node_refs nd" using hang_Node.prems(2) hang_Node.hyps(1,2) by blast
  then have "m_left nd \<noteq> Some a" and "m_right nd \<noteq> Some a"
    by (auto simp: node_refs_def)
  with hang_Node show ?case by (intro hang.hang_Node) auto
qed

lemma hang_smaller:
  "hang s M q t \<Longrightarrow> repr s (Some a) ta \<Longrightarrow> size t < size ta \<Longrightarrow> hang s (insert a M) q t"
proof (induction rule: hang.induct)
  case hang_Leaf
  show ?case by simp
next
  case (hang_Node c nd l r)
  have "c \<noteq> a"
  proof
    assume "c = a"
    then have "hang s M (Some a) (Node l (m_value nd) r)"
      using hang_Node.hyps by (auto intro: hang.hang_Node)
    from hang_det [OF this hang_Node.prems(1) [unfolded repr_def]] hang_Node.prems(2)
    show False by simp
  qed
  moreover have "hang s (insert a M) (m_left nd) l" using hang_Node by simp
  moreover have "hang s (insert a M) (m_right nd) r" using hang_Node by simp
  ultimately show ?case using hang_Node.hyps(1,2) by (intro hang.hang_Node) auto
qed

lemma hang_children:
  assumes "hang s M (Some a) t" and "heap s a = Some nd"
  shows "\<exists>l r. t = Node l (m_value nd) r \<and> a \<notin> M \<and>
     hang s (insert a M) (m_left nd) l \<and> hang s (insert a M) (m_right nd) r"
proof -
  from assms obtain l r where t: "t = Node l (m_value nd) r" and a: "a \<notin> M"
    and l: "hang s M (m_left nd) l" and r: "hang s M (m_right nd) r"
    by (auto simp: hang_Some_iff)
  have rp: "repr s (Some a) t" by (rule hang_repr [OF assms(1)])
  have "hang s (insert a M) (m_left nd) l" by (rule hang_smaller [OF l rp]) (simp add: t)
  moreover have "hang s (insert a M) (m_right nd) r" by (rule hang_smaller [OF r rp]) (simp add: t)
  ultimately show ?thesis using t a by blast
qed

lemma frame_refl [simp]: "frame M s s"
  by (simp add: frame_def)

lemma frame_trans: "frame M s s' \<Longrightarrow> frame M s' s'' \<Longrightarrow> frame M s s''"
  unfolding frame_def by (metis)

lemma frame_mono: "frame M s s' \<Longrightarrow> M \<subseteq> M' \<Longrightarrow> frame M' s s'"
  unfolding frame_def by blast

lemma same_outside_frame: "same_outside F s s' \<Longrightarrow> F \<subseteq> M \<Longrightarrow> frame M s s'"
  by (auto simp: same_outside_def frame_def)

lemma same_outside_refl [simp]: "same_outside F s s"
  by (simp add: same_outside_def)

lemma same_outside_trans:
  "same_outside F s s' \<Longrightarrow> same_outside F' s' s'' \<Longrightarrow> same_outside (F \<union> F') s s''"
  by (auto simp: same_outside_def)

lemma entry_rel_same_outside:
  assumes "entry_rel s M e te" and "same_outside F s s'" and "F \<subseteq> M" and "snd e \<notin> F" and "M' \<subseteq> M"
  shows "entry_rel s' M' e te"
proof -
  from assms(1) obtain nd where h: "heap s (snd e) = Some nd" and rc: "m_rc nd = 1"
    and v: "m_value nd = t_value (snd te)" and d: "fst e = fst te"
    and hg: "hang s M (slot (\<not> fst e) nd) (if fst e then t_left (snd te) else t_right (snd te))"
    by (auto simp: entry_rel_def)
  have h': "heap s' (snd e) = Some nd" using assms(2,4) h by (simp add: same_outside_def)
  have "hang s' M (slot (\<not> fst e) nd) (if fst e then t_left (snd te) else t_right (snd te))"
    by (rule hang_frame [OF hg same_outside_frame [OF assms(2,3)]])
  then have "hang s' M' (slot (\<not> fst e) nd) (if fst e then t_left (snd te) else t_right (snd te))"
    by (rule hang_mono) (rule assms(5))
  with h' rc v d show ?thesis by (auto simp: entry_rel_def)
qed

lemma links_same_outside:
  "links s path \<Longrightarrow> same_outside F s s' \<Longrightarrow> \<forall>e\<in>set path. snd e \<notin> F \<Longrightarrow> links s' path"
proof (induction s path rule: links.induct)
  case (1 s pe ge path)
  then show ?case by (auto simp: same_outside_def)
qed simp_all

lemma live_refs_upd1:
  assumes a: "a < next_free s" and h: "heap s a = Some nd" and l: "m_rc nd > 0" and l': "m_rc nd' > 0"
  shows "live_refs (s\<lparr>heap := (heap s)(a \<mapsto> nd')\<rparr>) + node_refs nd = live_refs s + node_refs nd'"
  using live_refs_heap_upd [OF a, of "Some nd'"] h l l' by (simp add: cell_refs_def)

lemma live_refs_upd2:
  assumes a: "a < next_free s" "b < next_free s" and d: "a \<noteq> b"
    and h: "heap s a = Some na" "heap s b = Some nb"
    and l: "m_rc na > 0" "m_rc nb > 0" "m_rc na' > 0" "m_rc nb' > 0"
  shows "live_refs (s\<lparr>heap := (heap s)(a \<mapsto> na', b \<mapsto> nb')\<rparr>) + (node_refs na + node_refs nb)
     = live_refs s + (node_refs na' + node_refs nb')"
proof -
  let ?s1 = "s\<lparr>heap := (heap s)(a \<mapsto> na')\<rparr>"
  have 1: "live_refs ?s1 + node_refs na = live_refs s + node_refs na'"
    by (rule live_refs_upd1 [OF a(1) h(1) l(1,3)])
  have "live_refs (?s1\<lparr>heap := (heap ?s1)(b \<mapsto> nb')\<rparr>) + node_refs nb = live_refs ?s1 + node_refs nb'"
    by (rule live_refs_upd1) (use a d h l in simp_all)
  then have 2: "live_refs (s\<lparr>heap := (heap s)(a \<mapsto> na', b \<mapsto> nb')\<rparr>) + node_refs nb = live_refs ?s1 + node_refs nb'"
    by simp
  have "live_refs (s\<lparr>heap := (heap s)(a \<mapsto> na', b \<mapsto> nb')\<rparr>) + node_refs nb + node_refs na
     = live_refs s + node_refs na' + node_refs nb'"
    unfolding 2 using 1 by (simp add: ac_simps)
  then show ?thesis by (simp add: ac_simps)
qed

lemma live_refs_upd3:
  assumes a: "a < next_free s" "b < next_free s" "c < next_free s" and d: "a \<noteq> b" "a \<noteq> c" "b \<noteq> c"
    and h: "heap s a = Some na" "heap s b = Some nb" "heap s c = Some nc"
    and l: "m_rc na > 0" "m_rc nb > 0" "m_rc nc > 0" "m_rc na' > 0" "m_rc nb' > 0" "m_rc nc' > 0"
  shows "live_refs (s\<lparr>heap := (heap s)(a \<mapsto> na', b \<mapsto> nb', c \<mapsto> nc')\<rparr>)
       + (node_refs na + node_refs nb + node_refs nc)
     = live_refs s + (node_refs na' + node_refs nb' + node_refs nc')"
proof -
  let ?s2 = "s\<lparr>heap := (heap s)(a \<mapsto> na', b \<mapsto> nb')\<rparr>"
  have 1: "live_refs ?s2 + (node_refs na + node_refs nb) = live_refs s + (node_refs na' + node_refs nb')"
    by (rule live_refs_upd2 [OF a(1,2) d(1) h(1,2) l(1,2,4,5)])
  have "live_refs (?s2\<lparr>heap := (heap ?s2)(c \<mapsto> nc')\<rparr>) + node_refs nc = live_refs ?s2 + node_refs nc'"
    by (rule live_refs_upd1) (use a d h l in simp_all)
  then have 2: "live_refs (s\<lparr>heap := (heap s)(a \<mapsto> na', b \<mapsto> nb', c \<mapsto> nc')\<rparr>) + node_refs nc
     = live_refs ?s2 + node_refs nc'"
    by simp
  have "live_refs (s\<lparr>heap := (heap s)(a \<mapsto> na', b \<mapsto> nb', c \<mapsto> nc')\<rparr>) + node_refs nc
      + (node_refs na + node_refs nb)
     = live_refs s + (node_refs na' + node_refs nb') + node_refs nc'"
    unfolding 2 using 1 by (simp add: ac_simps)
  then show ?thesis by (simp add: ac_simps)
qed

lemma hang_NodeI:
  "heap s a = Some nd \<Longrightarrow> a \<notin> M \<Longrightarrow> hang s M (m_left nd) l \<Longrightarrow> hang s M (m_right nd) r \<Longrightarrow>
   x = m_value nd \<Longrightarrow> hang s M (Some a) (Node l x r)"
  by (simp add: hang_Node)

section \<open>Store model: the splay phase computes the splay of the value model\<close>

lemma splay_step2_correct:
  assumes nr: "node_rel s M n tn"
    and pr: "entry_rel s M (dp, p) tp"
    and gr: "entry_rel s M (dg, g) tg"
    and lk: "\<exists>gn. heap s g = Some gn \<and> slot dg gn = Some p"
    and d: "g \<noteq> p" "g \<noteq> n" "p \<noteq> n"
    and M': "M' \<subseteq> M" "g \<notin> M'" "p \<notin> M'"
    and F: "g \<in> M" "p \<in> M" "n \<in> M"
    and al: "\<forall>a. heap s a \<noteq> None \<longrightarrow> a < next_free s"
  shows "\<exists>s'. splay_step2 (dg, g) (dp, p) n s = Some s' \<and>
      node_rel s' M' n (splay_step2_t tg tp tn) \<and>
      same_outside {g, p, n} s s' \<and>
      (\<forall>a. rc_of s' a = rc_of s a) \<and>
      (\<forall>a. (heap s' a = None) = (heap s a = None)) \<and>
      (\<forall>pn. heap s p = Some pn \<longrightarrow> live_refs s' + opt_mset (slot dp pn) = live_refs s + {#g#})"
proof -
  obtain A nv B where tn: "tn = (A, nv, B)" by (cases tn)
  obtain dp' pl pv pr where tp: "tp = (dp', (pl, pv, pr))" by (cases tp)
  obtain dg' gl gv gr where tg: "tg = (dg', (gl, gv, gr))" by (cases tg)
  from nr tn obtain nn where hn: "heap s n = Some nn" and rn: "m_rc nn = 1" and vn: "m_value nn = nv"
    and hA: "hang s M (m_left nn) A" and hB: "hang s M (m_right nn) B"
    by (auto simp: node_rel_def)
  from pr tp obtain pn where hp: "heap s p = Some pn" and rp: "m_rc pn = 1" and vp: "m_value pn = pv"
    and dp: "dp' = dp" and sp: "hang s M (slot (\<not> dp) pn) (if dp then pl else pr)"
    by (auto simp: entry_rel_def)
  from gr tg obtain gn where hg: "heap s g = Some gn" and rg: "m_rc gn = 1" and vg: "m_value gn = gv"
    and dg: "dg' = dg" and sg: "hang s M (slot (\<not> dg) gn) (if dg then gl else gr)"
    by (auto simp: entry_rel_def)
  from lk hg have lk': "slot dg gn = Some p" by simp
  have bd: "g < next_free s" "p < next_free s" "n < next_free s" using al hg hp hn by auto
  note c2 = splay_step2_cases [OF hg hp hn d]
  note l3 = live_refs_upd3 [OF _ _ _ _ _ _ _ _ _, where s = s]
  have tr: "\<And>s' q t. same_outside {g, p, n} s s' \<Longrightarrow> hang s M q t \<Longrightarrow> hang s' M' q t"
  proof -
    fix s' :: "'a store" and q t
    assume so: "same_outside {g, p, n} s s'" and h: "hang s M q t"
    have "frame M s s'" by (rule same_outside_frame [OF so]) (use F in auto)
    from hang_frame [OF h this] show "hang s' M' q t" by (rule hang_mono) (rule M'(1))
  qed
  show ?thesis
  proof (cases dg; cases dp)
    assume a: "\<not> dg" "\<not> dp"
    let ?s' = "s\<lparr>heap := (heap s)
        (g \<mapsto> gn\<lparr>m_left := m_right pn, m_right := m_right gn\<rparr>,
         p \<mapsto> pn\<lparr>m_left := m_right nn, m_right := Some g\<rparr>,
         n \<mapsto> nn\<lparr>m_left := m_left nn, m_right := Some p\<rparr>)\<rparr>"
    have st: "splay_step2 (dg, g) (dp, p) n s = Some ?s'"
      using c2(1) a lk' rg rp rn by (simp add: slot_def)
    have so: "same_outside {g, p, n} s ?s'" by (simp add: same_outside_def)
    note t = tr [OF so]
    have hgd: "hang ?s' M' (Some g) (Node pr gv gr)"
      by (rule hang_NodeI [where nd = "gn\<lparr>m_left := m_right pn, m_right := m_right gn\<rparr>"])
         (use d M' a vg t [OF sp] t [OF sg] in \<open>simp_all add: slot_def\<close>)
    have hpd: "hang ?s' M' (Some p) (Node B pv (Node pr gv gr))"
      by (rule hang_NodeI [where nd = "pn\<lparr>m_left := m_right nn, m_right := Some g\<rparr>"])
         (use d M' a vp t [OF hB] hgd in \<open>simp_all add: slot_def\<close>)
    have nrel: "node_rel ?s' M' n (splay_step2_t tg tp tn)"
      unfolding node_rel_def
      by (rule exI [where x = "nn\<lparr>m_left := m_left nn, m_right := Some p\<rparr>"])
         (use a dp dg tn tp tg rn vn t [OF hA] hpd in \<open>simp add: Let_def\<close>)
    have "live_refs ?s' + (node_refs gn + node_refs pn + node_refs nn)
        = live_refs s + (node_refs (gn\<lparr>m_left := m_right pn, m_right := m_right gn\<rparr>)
            + node_refs (pn\<lparr>m_left := m_right nn, m_right := Some g\<rparr>)
            + node_refs (nn\<lparr>m_left := m_left nn, m_right := Some p\<rparr>))"
      by (rule live_refs_upd3 [OF bd(1) bd(2) bd(3) d(1) d(2) d(3) hg hp hn]) (use rg rp rn in simp_all)
    then have "(live_refs ?s' + opt_mset (slot dp pn))
           + (opt_mset (slot (\<not> dg) gn) + opt_mset (slot (\<not> dp) pn) + opt_mset (m_left nn) + opt_mset (m_right nn) + {#p#})
         = (live_refs s + {#g#})
           + (opt_mset (slot (\<not> dg) gn) + opt_mset (slot (\<not> dp) pn) + opt_mset (m_left nn) + opt_mset (m_right nn) + {#p#})"
      using a lk' by (simp add: node_refs_def slot_def ac_simps)
    then have lr: "live_refs ?s' + opt_mset (slot dp pn) = live_refs s + {#g#}"
      by (simp only: add_right_cancel)
    have lr': "\<forall>pn'. heap s p = Some pn' \<longrightarrow> live_refs ?s' + opt_mset (slot dp pn') = live_refs s + {#g#}"
      using lr hp by simp
    have rcs: "\<forall>a. rc_of ?s' a = rc_of s a" using hg hp hn by (simp add: rc_of_def)
    have dm: "\<forall>a. (heap ?s' a = None) = (heap s a = None)" using hg hp hn by simp
    from st nrel so lr' rcs dm show ?thesis by blast
  next
    assume a: "\<not> dg" "dp"
    let ?s' = "s\<lparr>heap := (heap s)
        (p \<mapsto> pn\<lparr>m_left := m_left pn, m_right := m_left nn\<rparr>,
         g \<mapsto> gn\<lparr>m_left := m_right nn, m_right := m_right gn\<rparr>,
         n \<mapsto> nn\<lparr>m_left := Some p, m_right := Some g\<rparr>)\<rparr>"
    have st: "splay_step2 (dg, g) (dp, p) n s = Some ?s'"
      using c2(2) a lk' rg rp rn by (simp add: slot_def)
    have so: "same_outside {g, p, n} s ?s'" by (simp add: same_outside_def)
    note t = tr [OF so]
    have hgd: "hang ?s' M' (Some g) (Node B gv gr)"
      by (rule hang_NodeI [where nd = "gn\<lparr>m_left := m_right nn, m_right := m_right gn\<rparr>"])
         (use d M' a vg t [OF hB] t [OF sg] in \<open>simp_all add: slot_def\<close>)
    have hpd: "hang ?s' M' (Some p) (Node pl pv A)"
      by (rule hang_NodeI [where nd = "pn\<lparr>m_left := m_left pn, m_right := m_left nn\<rparr>"])
         (use d M' a vp t [OF sp] t [OF hA] in \<open>simp_all add: slot_def\<close>)
    have nrel: "node_rel ?s' M' n (splay_step2_t tg tp tn)"
      unfolding node_rel_def
      by (rule exI [where x = "nn\<lparr>m_left := Some p, m_right := Some g\<rparr>"])
         (use a dp dg tn tp tg rn vn hgd hpd in \<open>simp add: Let_def\<close>)
    have "live_refs ?s' + (node_refs pn + node_refs gn + node_refs nn)
        = live_refs s + (node_refs (pn\<lparr>m_left := m_left pn, m_right := m_left nn\<rparr>)
            + node_refs (gn\<lparr>m_left := m_right nn, m_right := m_right gn\<rparr>)
            + node_refs (nn\<lparr>m_left := Some p, m_right := Some g\<rparr>))"
      by (rule live_refs_upd3 [OF bd(2) bd(1) bd(3) d(1) [symmetric] d(3) d(2) hp hg hn]) (use rg rp rn in simp_all)
    then have "(live_refs ?s' + opt_mset (slot dp pn))
           + (opt_mset (slot (\<not> dg) gn) + opt_mset (slot (\<not> dp) pn) + opt_mset (m_left nn) + opt_mset (m_right nn) + {#p#})
         = (live_refs s + {#g#})
           + (opt_mset (slot (\<not> dg) gn) + opt_mset (slot (\<not> dp) pn) + opt_mset (m_left nn) + opt_mset (m_right nn) + {#p#})"
      using a lk' by (simp add: node_refs_def slot_def ac_simps)
    then have lr: "live_refs ?s' + opt_mset (slot dp pn) = live_refs s + {#g#}"
      by (simp only: add_right_cancel)
    have lr': "\<forall>pn'. heap s p = Some pn' \<longrightarrow> live_refs ?s' + opt_mset (slot dp pn') = live_refs s + {#g#}"
      using lr hp by simp
    have rcs: "\<forall>a. rc_of ?s' a = rc_of s a" using hg hp hn by (simp add: rc_of_def)
    have dm: "\<forall>a. (heap ?s' a = None) = (heap s a = None)" using hg hp hn by simp
    from st nrel so lr' rcs dm show ?thesis by blast
  next
    assume a: "dg" "\<not> dp"
    let ?s' = "s\<lparr>heap := (heap s)
        (g \<mapsto> gn\<lparr>m_left := m_left gn, m_right := m_left nn\<rparr>,
         p \<mapsto> pn\<lparr>m_left := m_right nn, m_right := m_right pn\<rparr>,
         n \<mapsto> nn\<lparr>m_left := Some g, m_right := Some p\<rparr>)\<rparr>"
    have st: "splay_step2 (dg, g) (dp, p) n s = Some ?s'"
      using c2(3) a lk' rg rp rn by (simp add: slot_def)
    have so: "same_outside {g, p, n} s ?s'" by (simp add: same_outside_def)
    note t = tr [OF so]
    have hgd: "hang ?s' M' (Some g) (Node gl gv A)"
      by (rule hang_NodeI [where nd = "gn\<lparr>m_left := m_left gn, m_right := m_left nn\<rparr>"])
         (use d M' a vg t [OF sg] t [OF hA] in \<open>simp_all add: slot_def\<close>)
    have hpd: "hang ?s' M' (Some p) (Node B pv pr)"
      by (rule hang_NodeI [where nd = "pn\<lparr>m_left := m_right nn, m_right := m_right pn\<rparr>"])
         (use d M' a vp t [OF hB] t [OF sp] in \<open>simp_all add: slot_def\<close>)
    have nrel: "node_rel ?s' M' n (splay_step2_t tg tp tn)"
      unfolding node_rel_def
      by (rule exI [where x = "nn\<lparr>m_left := Some g, m_right := Some p\<rparr>"])
         (use a dp dg tn tp tg rn vn hgd hpd in \<open>simp add: Let_def\<close>)
    have "live_refs ?s' + (node_refs gn + node_refs pn + node_refs nn)
        = live_refs s + (node_refs (gn\<lparr>m_left := m_left gn, m_right := m_left nn\<rparr>)
            + node_refs (pn\<lparr>m_left := m_right nn, m_right := m_right pn\<rparr>)
            + node_refs (nn\<lparr>m_left := Some g, m_right := Some p\<rparr>))"
      by (rule live_refs_upd3 [OF bd(1) bd(2) bd(3) d(1) d(2) d(3) hg hp hn]) (use rg rp rn in simp_all)
    then have "(live_refs ?s' + opt_mset (slot dp pn))
           + (opt_mset (slot (\<not> dg) gn) + opt_mset (slot (\<not> dp) pn) + opt_mset (m_left nn) + opt_mset (m_right nn) + {#p#})
         = (live_refs s + {#g#})
           + (opt_mset (slot (\<not> dg) gn) + opt_mset (slot (\<not> dp) pn) + opt_mset (m_left nn) + opt_mset (m_right nn) + {#p#})"
      using a lk' by (simp add: node_refs_def slot_def ac_simps)
    then have lr: "live_refs ?s' + opt_mset (slot dp pn) = live_refs s + {#g#}"
      by (simp only: add_right_cancel)
    have lr': "\<forall>pn'. heap s p = Some pn' \<longrightarrow> live_refs ?s' + opt_mset (slot dp pn') = live_refs s + {#g#}"
      using lr hp by simp
    have rcs: "\<forall>a. rc_of ?s' a = rc_of s a" using hg hp hn by (simp add: rc_of_def)
    have dm: "\<forall>a. (heap ?s' a = None) = (heap s a = None)" using hg hp hn by simp
    from st nrel so lr' rcs dm show ?thesis by blast
  next
    assume a: "dg" "dp"
    let ?s' = "s\<lparr>heap := (heap s)
        (g \<mapsto> gn\<lparr>m_left := m_left gn, m_right := m_left pn\<rparr>,
         p \<mapsto> pn\<lparr>m_left := Some g, m_right := m_left nn\<rparr>,
         n \<mapsto> nn\<lparr>m_left := Some p, m_right := m_right nn\<rparr>)\<rparr>"
    have st: "splay_step2 (dg, g) (dp, p) n s = Some ?s'"
      using c2(4) a lk' rg rp rn by (simp add: slot_def)
    have so: "same_outside {g, p, n} s ?s'" by (simp add: same_outside_def)
    note t = tr [OF so]
    have hgd: "hang ?s' M' (Some g) (Node gl gv pl)"
      by (rule hang_NodeI [where nd = "gn\<lparr>m_left := m_left gn, m_right := m_left pn\<rparr>"])
         (use d M' a vg t [OF sg] t [OF sp] in \<open>simp_all add: slot_def\<close>)
    have hpd: "hang ?s' M' (Some p) (Node (Node gl gv pl) pv A)"
      by (rule hang_NodeI [where nd = "pn\<lparr>m_left := Some g, m_right := m_left nn\<rparr>"])
         (use d M' a vp hgd t [OF hA] in \<open>simp_all add: slot_def\<close>)
    have nrel: "node_rel ?s' M' n (splay_step2_t tg tp tn)"
      unfolding node_rel_def
      by (rule exI [where x = "nn\<lparr>m_left := Some p, m_right := m_right nn\<rparr>"])
         (use a dp dg tn tp tg rn vn hpd t [OF hB] in \<open>simp add: Let_def\<close>)
    have "live_refs ?s' + (node_refs gn + node_refs pn + node_refs nn)
        = live_refs s + (node_refs (gn\<lparr>m_left := m_left gn, m_right := m_left pn\<rparr>)
            + node_refs (pn\<lparr>m_left := Some g, m_right := m_left nn\<rparr>)
            + node_refs (nn\<lparr>m_left := Some p, m_right := m_right nn\<rparr>))"
      by (rule live_refs_upd3 [OF bd(1) bd(2) bd(3) d(1) d(2) d(3) hg hp hn]) (use rg rp rn in simp_all)
    then have "(live_refs ?s' + opt_mset (slot dp pn))
           + (opt_mset (slot (\<not> dg) gn) + opt_mset (slot (\<not> dp) pn) + opt_mset (m_left nn) + opt_mset (m_right nn) + {#p#})
         = (live_refs s + {#g#})
           + (opt_mset (slot (\<not> dg) gn) + opt_mset (slot (\<not> dp) pn) + opt_mset (m_left nn) + opt_mset (m_right nn) + {#p#})"
      using a lk' by (simp add: node_refs_def slot_def ac_simps)
    then have lr: "live_refs ?s' + opt_mset (slot dp pn) = live_refs s + {#g#}"
      by (simp only: add_right_cancel)
    have lr': "\<forall>pn'. heap s p = Some pn' \<longrightarrow> live_refs ?s' + opt_mset (slot dp pn') = live_refs s + {#g#}"
      using lr hp by simp
    have rcs: "\<forall>a. rc_of ?s' a = rc_of s a" using hg hp hn by (simp add: rc_of_def)
    have dm: "\<forall>a. (heap ?s' a = None) = (heap s a = None)" using hg hp hn by simp
    from st nrel so lr' rcs dm show ?thesis by blast
  qed
qed

lemma splay_step1_correct:
  assumes nr: "node_rel s M n tn"
    and pr: "entry_rel s M (dp, p) tp"
    and d: "p \<noteq> n"
    and M': "M' \<subseteq> M" "p \<notin> M'"
    and F: "p \<in> M" "n \<in> M"
    and al: "\<forall>a. heap s a \<noteq> None \<longrightarrow> a < next_free s"
  shows "\<exists>s'. splay_step1 (dp, p) n s = Some s' \<and>
      node_rel s' M' n (splay_step1_t tp tn) \<and>
      same_outside {p, n} s s' \<and>
      (\<forall>a. rc_of s' a = rc_of s a) \<and>
      (\<forall>a. (heap s' a = None) = (heap s a = None)) \<and>
      (\<forall>pn. heap s p = Some pn \<longrightarrow> live_refs s' + opt_mset (slot dp pn) = live_refs s + {#p#})"
proof -
  obtain A nv B where tn: "tn = (A, nv, B)" by (cases tn)
  obtain dp' pl pv pr where tp: "tp = (dp', (pl, pv, pr))" by (cases tp)
  from nr tn obtain nn where hn: "heap s n = Some nn" and rn: "m_rc nn = 1" and vn: "m_value nn = nv"
    and hA: "hang s M (m_left nn) A" and hB: "hang s M (m_right nn) B"
    by (auto simp: node_rel_def)
  from pr tp obtain pn where hp: "heap s p = Some pn" and rp: "m_rc pn = 1" and vp: "m_value pn = pv"
    and dp: "dp' = dp" and sp: "hang s M (slot (\<not> dp) pn) (if dp then pl else pr)"
    by (auto simp: entry_rel_def)
  have bd: "p < next_free s" "n < next_free s" using al hp hn by auto
  note c1 = splay_step1_cases [OF hp hn d]
  have tr: "\<And>s' q t. same_outside {p, n} s s' \<Longrightarrow> hang s M q t \<Longrightarrow> hang s' M' q t"
  proof -
    fix s' :: "'a store" and q t
    assume so: "same_outside {p, n} s s'" and h: "hang s M q t"
    have "frame M s s'" by (rule same_outside_frame [OF so]) (use F in auto)
    from hang_frame [OF h this] show "hang s' M' q t" by (rule hang_mono) (rule M'(1))
  qed
  show ?thesis
  proof (cases dp)
    case False
    then have a: "\<not> dp" by simp
    let ?s' = "s\<lparr>heap := (heap s)
        (p \<mapsto> pn\<lparr>m_left := m_right nn, m_right := m_right pn\<rparr>,
         n \<mapsto> nn\<lparr>m_left := m_left nn, m_right := Some p\<rparr>)\<rparr>"
    have st: "splay_step1 (dp, p) n s = Some ?s'"
      using c1(1) a rp rn by simp
    have so: "same_outside {p, n} s ?s'" by (simp add: same_outside_def)
    note t = tr [OF so]
    have hpd: "hang ?s' M' (Some p) (Node B pv pr)"
      by (rule hang_NodeI [where nd = "pn\<lparr>m_left := m_right nn, m_right := m_right pn\<rparr>"])
         (use d M' a vp t [OF hB] t [OF sp] in \<open>simp_all add: slot_def\<close>)
    have nrel: "node_rel ?s' M' n (splay_step1_t tp tn)"
      unfolding node_rel_def
      by (rule exI [where x = "nn\<lparr>m_left := m_left nn, m_right := Some p\<rparr>"])
         (use a dp tn tp rn vn t [OF hA] hpd in \<open>simp add: Let_def\<close>)
    have "live_refs ?s' + (node_refs pn + node_refs nn)
        = live_refs s + (node_refs (pn\<lparr>m_left := m_right nn, m_right := m_right pn\<rparr>)
            + node_refs (nn\<lparr>m_left := m_left nn, m_right := Some p\<rparr>))"
      by (rule live_refs_upd2 [OF bd d hp hn]) (use rp rn in simp_all)
    then have "(live_refs ?s' + opt_mset (slot dp pn))
           + (opt_mset (slot (\<not> dp) pn) + opt_mset (m_left nn) + opt_mset (m_right nn))
         = (live_refs s + {#p#})
           + (opt_mset (slot (\<not> dp) pn) + opt_mset (m_left nn) + opt_mset (m_right nn))"
      using a by (simp add: node_refs_def slot_def ac_simps)
    then have lr: "live_refs ?s' + opt_mset (slot dp pn) = live_refs s + {#p#}"
      by (simp only: add_right_cancel)
    have lr': "\<forall>pn'. heap s p = Some pn' \<longrightarrow> live_refs ?s' + opt_mset (slot dp pn') = live_refs s + {#p#}"
      using lr hp by simp
    have rcs: "\<forall>a. rc_of ?s' a = rc_of s a" using hp hn by (simp add: rc_of_def)
    have dm: "\<forall>a. (heap ?s' a = None) = (heap s a = None)" using hp hn by simp
    from st nrel so lr' rcs dm show ?thesis by blast
  next
    case True
    then have a: "dp" by simp
    let ?s' = "s\<lparr>heap := (heap s)
        (p \<mapsto> pn\<lparr>m_left := m_left pn, m_right := m_left nn\<rparr>,
         n \<mapsto> nn\<lparr>m_left := Some p, m_right := m_right nn\<rparr>)\<rparr>"
    have st: "splay_step1 (dp, p) n s = Some ?s'"
      using c1(2) a rp rn by simp
    have so: "same_outside {p, n} s ?s'" by (simp add: same_outside_def)
    note t = tr [OF so]
    have hpd: "hang ?s' M' (Some p) (Node pl pv A)"
      by (rule hang_NodeI [where nd = "pn\<lparr>m_left := m_left pn, m_right := m_left nn\<rparr>"])
         (use d M' a vp t [OF sp] t [OF hA] in \<open>simp_all add: slot_def\<close>)
    have nrel: "node_rel ?s' M' n (splay_step1_t tp tn)"
      unfolding node_rel_def
      by (rule exI [where x = "nn\<lparr>m_left := Some p, m_right := m_right nn\<rparr>"])
         (use a dp tn tp rn vn hpd t [OF hB] in \<open>simp add: Let_def\<close>)
    have "live_refs ?s' + (node_refs pn + node_refs nn)
        = live_refs s + (node_refs (pn\<lparr>m_left := m_left pn, m_right := m_left nn\<rparr>)
            + node_refs (nn\<lparr>m_left := Some p, m_right := m_right nn\<rparr>))"
      by (rule live_refs_upd2 [OF bd d hp hn]) (use rp rn in simp_all)
    then have "(live_refs ?s' + opt_mset (slot dp pn))
           + (opt_mset (slot (\<not> dp) pn) + opt_mset (m_left nn) + opt_mset (m_right nn))
         = (live_refs s + {#p#})
           + (opt_mset (slot (\<not> dp) pn) + opt_mset (m_left nn) + opt_mset (m_right nn))"
      using a by (simp add: node_refs_def slot_def ac_simps)
    then have lr: "live_refs ?s' + opt_mset (slot dp pn) = live_refs s + {#p#}"
      by (simp only: add_right_cancel)
    have lr': "\<forall>pn'. heap s p = Some pn' \<longrightarrow> live_refs ?s' + opt_mset (slot dp pn') = live_refs s + {#p#}"
      using lr hp by simp
    have rcs: "\<forall>a. rc_of ?s' a = rc_of s a" using hp hn by (simp add: rc_of_def)
    have dm: "\<forall>a. (heap ?s' a = None) = (heap s a = None)" using hp hn by simp
    from st nrel so lr' rcs dm show ?thesis by blast
  qed
qed

lemma links_tl: "links s (e # path) \<Longrightarrow> links s path"
  by (cases path) auto

lemma links_hd:
  "links s (pe # ge # path) \<Longrightarrow> \<exists>gn. heap s (snd ge) = Some gn \<and> slot (fst ge) gn = Some (snd pe)"
  by simp

lemma splay_loop_correct:
  "node_rel s (insert n (snd ` set path)) n tn \<Longrightarrow>
   list_all2 (entry_rel s (insert n (snd ` set path))) path tpath \<Longrightarrow>
   links s path \<Longrightarrow>
   distinct (n # map snd path) \<Longrightarrow>
   \<forall>a. heap s a \<noteq> None \<longrightarrow> a < next_free s \<Longrightarrow>
   (path \<noteq> [] \<longrightarrow> (\<exists>nd. heap s (snd (hd path)) = Some nd \<and> slot (fst (hd path)) nd = c)) \<Longrightarrow>
   \<exists>s'. splay_loop path n s = Some s' \<and>
      node_rel s' {n} n (splay_to_top_t tpath tn) \<and>
      same_outside (insert n (snd ` set path)) s s' \<and>
      (\<forall>a. rc_of s' a = rc_of s a) \<and>
      (\<forall>a. (heap s' a = None) = (heap s a = None)) \<and>
      (path \<noteq> [] \<longrightarrow> live_refs s' + opt_mset c = live_refs s + {#snd (last path)#})"
proof (induction tpath tn arbitrary: path s c rule: splay_to_top_t.induct)
  case (1 tp tg trest tn)
  from "1.prems"(2) obtain pe ge rest where path: "path = pe # ge # rest"
    and rp: "entry_rel s (insert n (snd ` set path)) pe tp"
    and rg: "entry_rel s (insert n (snd ` set path)) ge tg"
    and rr: "list_all2 (entry_rel s (insert n (snd ` set path))) rest trest"
    by (auto simp: list_all2_Cons2)
  obtain dp p where pe: "pe = (dp, p)" by (cases pe)
  obtain dg g where ge: "ge = (dg, g)" by (cases ge)
  let ?M = "insert n (snd ` set path)"
  let ?M' = "insert n (snd ` set rest)"
  have di: "g \<noteq> p" "g \<noteq> n" "p \<noteq> n" "g \<notin> ?M'" "p \<notin> ?M'" "distinct (n # map snd rest)"
    using "1.prems"(4) by (auto simp: path pe ge)
  have sub: "?M' \<subseteq> ?M" by (auto simp: path)
  have inM: "g \<in> ?M" "p \<in> ?M" "n \<in> ?M" by (auto simp: path pe ge)
  have lk: "\<exists>gn. heap s g = Some gn \<and> slot dg gn = Some p"
    using "1.prems"(3) by (simp add: path pe ge)
  from splay_step2_correct [OF "1.prems"(1) rp [unfolded pe] rg [unfolded ge] lk di(1,2,3) sub di(4,5) inM "1.prems"(5)]
  obtain s1 where st: "splay_step2 (dg, g) (dp, p) n s = Some s1"
    and nr1: "node_rel s1 ?M' n (splay_step2_t tg tp tn)"
    and so1: "same_outside {g, p, n} s s1"
    and rc1: "\<forall>a. rc_of s1 a = rc_of s a"
    and dm1: "\<forall>a. (heap s1 a = None) = (heap s a = None)"
    and lr1: "\<forall>pn. heap s p = Some pn \<longrightarrow> live_refs s1 + opt_mset (slot dp pn) = live_refs s + {#g#}"
    by blast
  have lrc: "live_refs s1 + opt_mset c = live_refs s + {#g#}"
    using lr1 "1.prems"(6) by (auto simp: path pe)
  have nf1: "next_free s1 = next_free s" using so1 by (simp add: same_outside_def)
  have rr1: "list_all2 (entry_rel s1 ?M') rest trest"
  proof (rule list.rel_mono_strong [OF rr])
    fix e te assume e: "e \<in> set rest" and r: "entry_rel s ?M e te"
    have ne: "snd e \<notin> {g, p, n}" using e "1.prems"(4) by (auto simp: path pe ge)
    show "entry_rel s1 ?M' e te"
      by (rule entry_rel_same_outside [OF r so1 _ ne sub]) (use inM in auto)
  qed
  have lk1: "links s1 rest"
  proof (rule links_same_outside [OF _ so1])
    show "links s rest" using "1.prems"(3) links_tl unfolding path by blast
    show "\<forall>e\<in>set rest. snd e \<notin> {g, p, n}" using "1.prems"(4) by (auto simp: path pe ge)
  qed
  have al1: "\<forall>a. heap s1 a \<noteq> None \<longrightarrow> a < next_free s1"
    using "1.prems"(5) dm1 nf1 by simp
  have top1: "rest \<noteq> [] \<longrightarrow> (\<exists>nd. heap s1 (snd (hd rest)) = Some nd \<and> slot (fst (hd rest)) nd = Some g)"
  proof
    assume "rest \<noteq> []"
    then obtain r1 rest' where rest: "rest = r1 # rest'" by (cases rest) auto
    have "links s (ge # r1 # rest')" using "1.prems"(3) links_tl unfolding path rest by blast
    then obtain nd where h: "heap s (snd r1) = Some nd" and sl: "slot (fst r1) nd = Some g"
      by (auto simp: ge)
    have "snd r1 \<notin> {g, p, n}" using "1.prems"(4) by (auto simp: path pe ge rest)
    then have "heap s1 (snd r1) = heap s (snd r1)" using so1 by (simp add: same_outside_def)
    with h sl show "\<exists>nd. heap s1 (snd (hd rest)) = Some nd \<and> slot (fst (hd rest)) nd = Some g"
      by (simp add: rest)
  qed
  from "1.IH" [OF nr1 rr1 lk1 di(6) al1 top1]
  obtain s' where sl: "splay_loop rest n s1 = Some s'"
    and nr': "node_rel s' {n} n (splay_to_top_t trest (splay_step2_t tg tp tn))"
    and so': "same_outside ?M' s1 s'"
    and rc': "\<forall>a. rc_of s' a = rc_of s1 a"
    and dm': "\<forall>a. (heap s' a = None) = (heap s1 a = None)"
    and lr': "rest \<noteq> [] \<longrightarrow> live_refs s' + opt_mset (Some g) = live_refs s1 + {#snd (last rest)#}"
    by blast
  have a: "splay_loop path n s = Some s'" using st sl by (simp add: path pe ge)
  have b: "node_rel s' {n} n (splay_to_top_t (tp # tg # trest) tn)" using nr' by simp
  have "{g, p, n} \<union> ?M' = ?M" by (auto simp: path pe ge)
  then have c: "same_outside ?M s s'" using same_outside_trans [OF so1 so'] by simp
  have d: "\<forall>a. rc_of s' a = rc_of s a" using rc1 rc' by simp
  have e: "\<forall>a. (heap s' a = None) = (heap s a = None)" using dm1 dm' by simp
  have f: "live_refs s' + opt_mset c = live_refs s + {#snd (last path)#}"
  proof (cases "rest = []")
    case True
    then have "s' = s1" using sl by simp
    then show ?thesis using lrc True by (simp add: path ge)
  next
    case False
    with lr' have "live_refs s' + {#g#} = live_refs s1 + {#snd (last rest)#}" by simp
    then have "(live_refs s' + opt_mset c) + {#g#} = (live_refs s1 + opt_mset c) + {#snd (last rest)#}"
      by (simp add: ac_simps)
    also have "\<dots> = (live_refs s + {#snd (last rest)#}) + {#g#}"
      unfolding lrc by (simp add: ac_simps)
    finally have "live_refs s' + opt_mset c = live_refs s + {#snd (last rest)#}"
      by (simp only: add_right_cancel)
    then show ?thesis using False by (simp add: path)
  qed
  from a b c d e f show ?case by blast
next
  case (2 tp tn)
  from "2.prems"(2) obtain pe where path: "path = [pe]"
    and rp: "entry_rel s (insert n (snd ` set path)) pe tp"
    by (auto simp: list_all2_Cons2)
  obtain dp p where pe: "pe = (dp, p)" by (cases pe)
  let ?M = "insert n (snd ` set path)"
  have di: "p \<noteq> n" using "2.prems"(4) by (auto simp: path pe)
  have sub: "{n} \<subseteq> ?M" "p \<notin> {n}" using di by auto
  have inM: "p \<in> ?M" "n \<in> ?M" by (auto simp: path pe)
  from splay_step1_correct [OF "2.prems"(1) rp [unfolded pe] di sub inM "2.prems"(5)]
  obtain s' where st: "splay_step1 (dp, p) n s = Some s'"
    and nr1: "node_rel s' {n} n (splay_step1_t tp tn)"
    and so1: "same_outside {p, n} s s'"
    and rc1: "\<forall>a. rc_of s' a = rc_of s a"
    and dm1: "\<forall>a. (heap s' a = None) = (heap s a = None)"
    and lr1: "\<forall>pn. heap s p = Some pn \<longrightarrow> live_refs s' + opt_mset (slot dp pn) = live_refs s + {#p#}"
    by blast
  have lrc: "live_refs s' + opt_mset c = live_refs s + {#p#}"
    using lr1 "2.prems"(6) by (auto simp: path pe)
  have "{p, n} = ?M" by (auto simp: path pe)
  then have c: "same_outside ?M s s'" using so1 by simp
  from st nr1 c rc1 dm1 lrc show ?case by (auto simp: path pe)
next
  case (3 tn)
  then show ?case by simp
qed

section \<open>Store model: a node with count 1 has one referrer\<close>

lemma roots_mset_simps [simp]:
  "roots_mset [] = {#}"
  "roots_mset (r # roots) = opt_mset r + roots_mset roots"
  by (simp_all add: roots_mset_def)

lemma roots_mset_member: "a \<in># roots_mset roots \<longleftrightarrow> Some a \<in> set roots"
proof (induction roots)
  case Nil
  show ?case by simp
next
  case (Cons r roots)
  then show ?case by (cases r) auto
qed

lemma live_cell_refs:
  assumes "rc_ok s R" and "dead s = {}" and "heap s b = Some nb"
  shows "cell_refs (heap s b) = node_refs nb" and "b < next_free s" and "m_rc nb > 0"
proof -
  show l: "m_rc nb > 0" using assms(2,3) by (auto simp: dead_def)
  then show "cell_refs (heap s b) = node_refs nb" using assms(3) by (simp add: cell_refs_def)
  show "b < next_free s" by (rule rc_okD(1) [OF assms(1,3)])
qed

lemma unique_referrer_root:
  assumes ok: "rc_ok s R" and nd: "dead s = {}" and rc: "rc_of s a = 1" and r: "a \<in># R"
  shows "count R a = 1" and "\<And>b nb. heap s b = Some nb \<Longrightarrow> a \<notin># node_refs nb"
proof -
  have e: "count (live_refs s) a + count R a = 1" using rc_okD(2) [OF ok, of a] rc by simp
  have c1: "0 < count R a" using r by (simp only: count_greater_zero_iff)
  from e c1 show "count R a = 1" by linarith
  from e c1 have l: "count (live_refs s) a = 0" by linarith
  fix b nb assume h: "heap s b = Some nb"
  have "node_refs nb \<subseteq># live_refs s"
    using cell_refs_subset [OF live_cell_refs(2) [OF ok nd h]] live_cell_refs(1) [OF ok nd h] by simp
  then have "count (node_refs nb) a \<le> count (live_refs s) a" by (rule mset_subset_eq_count)
  with l have "count (node_refs nb) a = 0" by linarith
  then show "a \<notin># node_refs nb" by (simp only: not_in_iff)
qed

lemma unique_referrer_cell:
  assumes ok: "rc_ok s R" and nd: "dead s = {}" and rc: "rc_of s a = 1"
    and h: "heap s b = Some nb" and r: "a \<in># node_refs nb"
  shows "count (node_refs nb) a = 1" and "a \<notin># R"
    and "\<And>c nc. heap s c = Some nc \<Longrightarrow> c \<noteq> b \<Longrightarrow> a \<notin># node_refs nc"
proof -
  have e: "count (live_refs s) a + count R a = 1" using rc_okD(2) [OF ok, of a] rc by simp
  have sb: "node_refs nb \<subseteq># live_refs s"
    using cell_refs_subset [OF live_cell_refs(2) [OF ok nd h]] live_cell_refs(1) [OF ok nd h] by simp
  have 1: "0 < count (node_refs nb) a" using r by (simp only: count_greater_zero_iff)
  have 2: "count (node_refs nb) a \<le> count (live_refs s) a" using sb by (rule mset_subset_eq_count)
  from e 1 2 show "count (node_refs nb) a = 1" by linarith
  from e 1 2 have "count R a = 0" by linarith
  then show "a \<notin># R" by (simp only: not_in_iff)
  fix c nc assume hc: "heap s c = Some nc" and cb: "c \<noteq> b"
  have "cell_refs (heap s c) + cell_refs (heap s b) \<subseteq># live_refs s"
    by (rule cell_refs_subset2 [OF live_cell_refs(2) [OF ok nd hc] live_cell_refs(2) [OF ok nd h] cb])
  then have "node_refs nc + node_refs nb \<subseteq># live_refs s"
    using live_cell_refs(1) [OF ok nd hc] live_cell_refs(1) [OF ok nd h] by simp
  then have "count (node_refs nc + node_refs nb) a \<le> count (live_refs s) a"
    by (rule mset_subset_eq_count)
  then have "count (node_refs nc) a + count (node_refs nb) a \<le> count (live_refs s) a"
    by (simp only: count_union)
  with e 1 have "count (node_refs nc) a = 0" by linarith
  then show "a \<notin># node_refs nc" by (simp only: not_in_iff)
qed

lemma node_refs_slot: "node_refs nd = opt_mset (slot d nd) + opt_mset (slot (\<not> d) nd)"
  by (cases d) (simp_all add: node_refs_def slot_def ac_simps)

lemma ref_live:
  assumes ok: "rc_ok s R" and nd: "dead s = {}" and h: "heap s b = Some nb" and r: "a \<in># node_refs nb"
  shows "\<exists>na. heap s a = Some na \<and> m_rc na > 0"
proof -
  have sb: "node_refs nb \<subseteq># live_refs s"
    using cell_refs_subset [OF live_cell_refs(2) [OF ok nd h]] live_cell_refs(1) [OF ok nd h] by simp
  have "count (node_refs nb) a \<le> count (live_refs s) a" using sb by (rule mset_subset_eq_count)
  moreover have "0 < count (node_refs nb) a" using r by (simp only: count_greater_zero_iff)
  ultimately have "rc_of s a \<ge> 1" using rc_okD(2) [OF ok, of a] by linarith
  then show ?thesis by (auto simp: rc_of_def split: option.splits)
qed

lemma root_live:
  assumes ok: "rc_ok s R" and r: "a \<in># R"
  shows "\<exists>na. heap s a = Some na \<and> m_rc na > 0"
proof -
  have "0 < count R a" using r by (simp only: count_greater_zero_iff)
  then have "rc_of s a \<ge> 1" using rc_okD(2) [OF ok, of a] by linarith
  then show ?thesis by (auto simp: rc_of_def split: option.splits)
qed

lemma dec_ref_drop: "shared_or_null s old \<Longrightarrow> dec_ref old s = Some (drop_ref old s)"
  by (subst dec_ref.simps)
     (auto simp: shared_or_null_def drop_ref_def split: option.splits)

lemma rc_ok_drop:
  assumes "rc_ok s (opt_mset old + R)" and "shared_or_null s old"
  shows "rc_ok (drop_ref old s) R"
proof (cases old)
  case None
  with assms show ?thesis by (simp add: drop_ref_def)
next
  case (Some a)
  with assms(2) obtain nd where h: "heap s a = Some nd" and l: "m_rc nd \<ge> 2"
    by (auto simp: shared_or_null_def split: option.splits)
  have "rc_ok s (add_mset a R)" using assms(1) Some by simp
  from dec_ref_shared(2) [OF this h l] show ?thesis using Some h by (simp add: drop_ref_def)
qed

lemma drop_ref_heap:
  "heap (drop_ref old s) b =
     (if old = Some b then map_option (\<lambda>nd. nd\<lparr>m_rc := m_rc nd - 1\<rparr>) (heap s b) else heap s b)"
  by (auto simp: drop_ref_def split: option.splits)

lemma drop_ref_next_free [simp]: "next_free (drop_ref old s) = next_free s"
  by (auto simp: drop_ref_def split: option.splits)

lemma drop_ref_set_node:
  "old \<noteq> Some b \<Longrightarrow> drop_ref old (set_node b nb s) = set_node b nb (drop_ref old s)"
  by (auto simp: drop_ref_def set_node_def fun_upd_twist split: option.splits)

lemma shared_or_null_set_node:
  "shared_or_null s old \<Longrightarrow> old \<noteq> Some b \<Longrightarrow> shared_or_null (set_node b nb s) old"
  by (auto simp: shared_or_null_def split: option.splits)

lemma chain_cong:
  "chain s m path n \<Longrightarrow> \<forall>e\<in>set path. heap s' (snd e) = heap s (snd e) \<Longrightarrow> chain s' m path n"
  by (induction path arbitrary: n) auto

lemma chain_top_None: "chain s m [] n \<Longrightarrow> m = n"
  by simp

lemma chain_rc1: "chain s m path n \<Longrightarrow> e \<in> set path \<Longrightarrow> \<exists>nd. heap s (snd e) = Some nd \<and> m_rc nd = 1"
  by (induction path arbitrary: n) auto

lemma inc_ref_dead:
  assumes ok: "rc_ok s (R + node_refs cn)" and hc: "heap s child = Some cn" and rc0: "m_rc cn = 0"
  shows "inc_ref (Some child) s = Some (set_node child (cn\<lparr>m_rc := 1\<rparr>) s)"
    and "rc_ok (set_node child (cn\<lparr>m_rc := 1\<rparr>) s) (add_mset child R)"
proof -
  show "inc_ref (Some child) s = Some (set_node child (cn\<lparr>m_rc := 1\<rparr>) s)"
    using hc rc0 by simp
  show "rc_ok (set_node child (cn\<lparr>m_rc := 1\<rparr>) s) (add_mset child R)"
    by (rule rc_ok_revive [OF ok hc rc0]) auto
qed

section \<open>Store model: linking a new node with \<^verbatim>\<open>update_parent\<close>\<close>

lemma update_parent_root:
  assumes ok: "rc_ok s (opt_mset m_ptr + Rs + node_refs cn)"
    and hc: "heap s child = Some cn" and rc0: "m_rc cn = 0"
    and dd: "dead s = {child}"
    and so: "shared_or_null s m_ptr"
  shows "\<exists>s'. update_parent [] child (s, m_ptr) = Some (s', Some child) \<and>
      rc_ok s' (opt_mset (Some child) + Rs) \<and>
      dead s' = {} \<and>
      heap s' child = Some (cn\<lparr>m_rc := 1\<rparr>) \<and>
      next_free s' = next_free s \<and>
      (\<forall>b. map_option shape (heap s' b) = map_option shape (heap s b))"
proof -
  let ?s1 = "set_node child (cn\<lparr>m_rc := 1\<rparr>) s"
  note i = inc_ref_dead [OF ok hc rc0]
  have nc: "m_ptr \<noteq> Some child" using so hc rc0 by (auto simp: shared_or_null_def)
  have so1: "shared_or_null ?s1 m_ptr" by (rule shared_or_null_set_node [OF so nc])
  have "rc_ok ?s1 (opt_mset m_ptr + add_mset child Rs)" using i(2) by (simp add: ac_simps)
  from rc_ok_drop [OF this so1] have ok': "rc_ok (drop_ref m_ptr ?s1) (opt_mset (Some child) + Rs)"
    by simp
  have up: "update_parent [] child (s, m_ptr) = Some (drop_ref m_ptr ?s1, Some child)"
    using i(1) dec_ref_drop [OF so1] by (simp add: update_parent_def)
  have hc': "heap (drop_ref m_ptr ?s1) child = Some (cn\<lparr>m_rc := 1\<rparr>)"
    using nc by (simp add: drop_ref_heap)
  have dd': "dead (drop_ref m_ptr ?s1) = {}"
  proof -
    have "\<And>a nd. heap (drop_ref m_ptr ?s1) a = Some nd \<Longrightarrow> m_rc nd > 0"
    proof -
      fix a nd assume h: "heap (drop_ref m_ptr ?s1) a = Some nd"
      show "m_rc nd > 0"
      proof (cases "m_ptr = Some a")
        case True
        with so obtain nd0 where "heap s a = Some nd0" and "m_rc nd0 \<ge> 2"
          by (auto simp: shared_or_null_def split: option.splits)
        with h True nc show ?thesis by (auto simp: drop_ref_heap)
      next
        case False
        with h have h1: "heap ?s1 a = Some nd" by (simp add: drop_ref_heap)
        show ?thesis
        proof (cases "a = child")
          case True
          with h1 show ?thesis by auto
        next
          case F: False
          with h1 have "heap s a = Some nd" by simp
          with dd F show ?thesis by (auto simp: dead_def)
        qed
      qed
    qed
    then show ?thesis by (auto simp: dead_def)
  qed
  have sh: "\<forall>b. map_option shape (heap (drop_ref m_ptr ?s1) b) = map_option shape (heap s b)"
    using hc by (auto simp: drop_ref_heap shape_def map_option_case split: option.splits)
  from up ok' dd' hc' sh show ?thesis by auto
qed

lemma update_parent_slot:
  assumes ok: "rc_ok s (R + node_refs cn)"
    and hc: "heap s child = Some cn" and rc0: "m_rc cn = 0"
    and dd: "dead s = {child}"
    and hb: "heap s b = Some nb" and rb: "m_rc nb = 1" and sl: "slot d nb = old"
    and so: "shared_or_null s old"
  shows "\<exists>s'. update_parent ((d, b) # rest) child (s, m_ptr) = Some (s', m_ptr) \<and>
      rc_ok s' R \<and> dead s' = {} \<and>
      heap s' child = Some (cn\<lparr>m_rc := 1\<rparr>) \<and>
      (\<exists>nb'. heap s' b = Some nb' \<and> m_rc nb' = 1 \<and> m_value nb' = m_value nb \<and>
          slot d nb' = Some child \<and> slot (\<not> d) nb' = slot (\<not> d) nb) \<and>
      next_free s' = next_free s \<and>
      (\<forall>a. a \<noteq> b \<longrightarrow> map_option shape (heap s' a) = map_option shape (heap s a)) \<and>
      (\<forall>a. a \<noteq> b \<longrightarrow> a \<noteq> child \<longrightarrow> old \<noteq> Some a \<longrightarrow> heap s' a = heap s a)"
proof -
  let ?s1 = "set_node child (cn\<lparr>m_rc := 1\<rparr>) s"
  let ?nb' = "if d then nb\<lparr>m_right := Some child\<rparr> else nb\<lparr>m_left := Some child\<rparr>"
  let ?s' = "set_node b ?nb' (drop_ref old ?s1)"
  note i = inc_ref_dead [OF ok hc rc0]
  have bc: "b \<noteq> child" using hb hc rb rc0 by auto
  have nc: "old \<noteq> Some child" using so hc rc0 by (auto simp: shared_or_null_def)
  have nb: "old \<noteq> Some b" using so hb rb by (auto simp: shared_or_null_def)
  have so1: "shared_or_null ?s1 old" by (rule shared_or_null_set_node [OF so nc])
  have hb1: "heap ?s1 b = Some nb" using hb bc by simp
  have hb2: "heap (drop_ref old ?s1) b = Some nb" using hb1 nb by (simp add: drop_ref_heap)
  have up: "update_parent ((d, b) # rest) child (s, m_ptr) = Some (?s', m_ptr)"
    using i(1) hb1 hb2 rb sl dec_ref_drop [OF so1]
    by (cases d) (simp_all add: update_parent_def is_shared_def slot_def write_right_def write_left_def)
  have com: "?s' = drop_ref old (set_node b ?nb' ?s1)"
    by (rule drop_ref_set_node [OF nb, symmetric])
  have "rc_ok (set_node b ?nb' ?s1) (opt_mset old + R)"
  proof (rule rc_ok_relink [OF i(2) hb1])
    show "0 < m_rc nb" using rb by simp
    show "m_rc ?nb' = m_rc nb" by simp
    have "node_refs nb = opt_mset old + opt_mset (slot (\<not> d) nb)"
      using node_refs_slot [of nb d] sl by simp
    moreover have "node_refs ?nb' = {#child#} + opt_mset (slot (\<not> d) nb)"
      by (simp add: node_refs_def slot_def)
    ultimately show "opt_mset old + R + node_refs ?nb' = add_mset child R + node_refs nb"
      by (simp add: ac_simps)
  qed
  moreover have "shared_or_null (set_node b ?nb' ?s1) old"
    by (rule shared_or_null_set_node [OF so1 nb])
  ultimately have ok': "rc_ok ?s' R" unfolding com by (rule rc_ok_drop)
  have hc': "heap ?s' child = Some (cn\<lparr>m_rc := 1\<rparr>)"
    using nc bc by (simp add: drop_ref_heap)
  have hb': "\<exists>nb'. heap ?s' b = Some nb' \<and> m_rc nb' = 1 \<and> m_value nb' = m_value nb \<and>
          slot d nb' = Some child \<and> slot (\<not> d) nb' = slot (\<not> d) nb"
    using rb by (simp add: slot_def)
  have dd': "dead ?s' = {}"
  proof -
    have "\<And>a nd. heap ?s' a = Some nd \<Longrightarrow> m_rc nd > 0"
    proof -
      fix a nd assume h: "heap ?s' a = Some nd"
      show "m_rc nd > 0"
      proof (cases "a = b")
        case True
        with h rb show ?thesis by (auto split: if_splits)
      next
        case ab: False
        show ?thesis
        proof (cases "old = Some a")
          case True
          with so obtain nd0 where "heap s a = Some nd0" and "m_rc nd0 \<ge> 2"
            by (auto simp: shared_or_null_def split: option.splits)
          with h True nc ab show ?thesis by (auto simp: drop_ref_heap)
        next
          case False
          with h ab have h1: "heap ?s1 a = Some nd" by (simp add: drop_ref_heap)
          show ?thesis
          proof (cases "a = child")
            case True
            with h1 show ?thesis by auto
          next
            case F: False
            with h1 have "heap s a = Some nd" by simp
            with dd F show ?thesis by (auto simp: dead_def)
          qed
        qed
      qed
    qed
    then show ?thesis by (auto simp: dead_def)
  qed
  have sh: "\<forall>a. a \<noteq> b \<longrightarrow> map_option shape (heap ?s' a) = map_option shape (heap s a)"
    using hc by (auto simp: drop_ref_heap shape_def map_option_case split: option.splits)
  have eq: "\<forall>a. a \<noteq> b \<longrightarrow> a \<noteq> child \<longrightarrow> old \<noteq> Some a \<longrightarrow> heap ?s' a = heap s a"
    by (simp add: drop_ref_heap)
  have nf: "next_free ?s' = next_free s" by simp
  from up ok' dd' hc' hb' nf sh eq show ?thesis by blast
qed

lemma inc_ref_opt:
  assumes ok: "rc_ok s R" and lp: "live_ptr s p"
  shows "\<exists>s'. inc_ref p s = Some s' \<and> rc_ok s' (R + opt_mset p) \<and>
      next_free s' = next_free s \<and> dead s' = dead s \<and>
      (\<forall>a. map_option shape (heap s' a) = map_option shape (heap s a)) \<and>
      (\<forall>a. p \<noteq> Some a \<longrightarrow> heap s' a = heap s a) \<and>
      (\<forall>q. live_ptr s q \<longrightarrow> live_ptr s' q) \<and>
      (\<forall>a. rc_of s' a = rc_of s a + count (opt_mset p) a)"
proof (cases p)
  case None
  with ok show ?thesis by simp
next
  case (Some c)
  with lp obtain nd where h: "heap s c = Some nd" and l: "m_rc nd > 0"
    by (auto simp: live_ptr_def split: option.splits)
  note i = inc_ref_live [OF ok h l]
  let ?s' = "set_node c (nd\<lparr>m_rc := Suc (m_rc nd)\<rparr>) s"
  have 1: "dead ?s' = dead s" using h l by (auto simp: dead_def)
  have 2: "\<forall>a. map_option shape (heap ?s' a) = map_option shape (heap s a)"
    using h by (simp add: shape_def)
  have 3: "\<forall>q. live_ptr s q \<longrightarrow> live_ptr ?s' q"
    by (auto simp: live_ptr_def split: option.splits)
  have 4: "\<forall>a. rc_of ?s' a = rc_of s a + count (opt_mset p) a"
    using h Some by (simp add: rc_of_def)
  from i 1 2 3 4 Some show ?thesis by simp
qed

lemma new_node_correct:
  assumes ok: "rc_ok s R" and dd: "dead s = {}" and ll: "live_ptr s left" and lr: "live_ptr s right"
  shows "\<exists>s'. new_node v left right s = Some (next_free s, s') \<and>
      heap s (next_free s) = None \<and>
      heap s' (next_free s) = Some \<lparr>m_left = left, m_right = right, m_value = v, m_rc = 0\<rparr> \<and>
      rc_ok s' (R + (opt_mset left + opt_mset right)) \<and>
      dead s' = {next_free s} \<and>
      next_free s' = Suc (next_free s) \<and>
      (\<forall>a. a \<noteq> next_free s \<longrightarrow> map_option shape (heap s' a) = map_option shape (heap s a)) \<and>
      (\<forall>a. a \<noteq> next_free s \<longrightarrow> left \<noteq> Some a \<longrightarrow> right \<noteq> Some a \<longrightarrow> heap s' a = heap s a) \<and>
      (\<forall>a. a \<noteq> next_free s \<longrightarrow> rc_of s' a = rc_of s a + count (opt_mset left + opt_mset right) a)"
proof -
  let ?a = "next_free s"
  let ?nd = "\<lparr>m_left = left, m_right = right, m_value = v, m_rc = 0\<rparr>"
  let ?s0 = "s\<lparr>heap := (heap s)(?a \<mapsto> ?nd), next_free := Suc ?a\<rparr>"
  have al: "rc_ok ?s0 R" and fr: "heap s ?a = None"
    using rc_ok_alloc [OF ok, of ?nd] by simp_all
  have lp0: "\<And>q. live_ptr s q \<Longrightarrow> live_ptr ?s0 q"
    using fr by (auto simp: live_ptr_def split: option.splits)
  have nl: "left \<noteq> Some ?a" "right \<noteq> Some ?a"
    using ll lr fr by (auto simp: live_ptr_def)
  from inc_ref_opt [OF al lp0 [OF ll]] obtain s1 where
    i1: "inc_ref left ?s0 = Some s1" and ok1: "rc_ok s1 (R + opt_mset left)"
    and nf1: "next_free s1 = next_free ?s0" and d1: "dead s1 = dead ?s0"
    and sh1: "\<forall>a. map_option shape (heap s1 a) = map_option shape (heap ?s0 a)"
    and eq1: "\<forall>a. left \<noteq> Some a \<longrightarrow> heap s1 a = heap ?s0 a"
    and lp1: "\<forall>q. live_ptr ?s0 q \<longrightarrow> live_ptr s1 q"
    and rc1: "\<forall>a. rc_of s1 a = rc_of ?s0 a + count (opt_mset left) a"
    by blast
  have "live_ptr s1 right" using lp1 lp0 [OF lr] by blast
  from inc_ref_opt [OF ok1 this] obtain s2 where
    i2: "inc_ref right s1 = Some s2" and ok2: "rc_ok s2 (R + opt_mset left + opt_mset right)"
    and nf2: "next_free s2 = next_free s1" and d2: "dead s2 = dead s1"
    and sh2: "\<forall>a. map_option shape (heap s2 a) = map_option shape (heap s1 a)"
    and eq2: "\<forall>a. right \<noteq> Some a \<longrightarrow> heap s2 a = heap s1 a"
    and rc2: "\<forall>a. rc_of s2 a = rc_of s1 a + count (opt_mset right) a"
    by blast
  have a: "new_node v left right s = Some (?a, s2)"
    using i1 i2 by (simp add: new_node_def Let_def)
  have b: "heap s2 ?a = Some ?nd" using eq1 eq2 nl by simp
  have nz: "\<And>x nd. heap s x = Some nd \<Longrightarrow> m_rc nd > 0" using dd by (auto simp: dead_def)
  have d0: "dead ?s0 = {?a}" by (auto simp: dead_def dest: nz)
  have c: "dead s2 = {?a}" using d1 d2 d0 by simp
  have d: "next_free s2 = Suc ?a" using nf1 nf2 by simp
  have e: "\<forall>a. a \<noteq> ?a \<longrightarrow> map_option shape (heap s2 a) = map_option shape (heap s a)"
    using sh1 sh2 by simp
  have f: "\<forall>a. a \<noteq> ?a \<longrightarrow> left \<noteq> Some a \<longrightarrow> right \<noteq> Some a \<longrightarrow> heap s2 a = heap s a"
    using eq1 eq2 by simp
  have g: "\<forall>a. a \<noteq> ?a \<longrightarrow> rc_of s2 a = rc_of s a + count (opt_mset left + opt_mset right) a"
    using rc1 rc2 by (simp add: rc_of_def)
  have h: "rc_ok s2 (R + (opt_mset left + opt_mset right))" using ok2 by (simp add: ac_simps)
  from a fr b h c d e f g show ?thesis by blast
qed

section \<open>Store model: the descent loops compute the descent of the value model\<close>

lemma entry_rel_extend:
  assumes "entry_rel s M e te"
    and "\<And>nd. heap s (snd e) = Some nd \<Longrightarrow> slot (\<not> fst e) nd \<noteq> Some a"
    and "\<forall>b nb. heap s b = Some nb \<longrightarrow> b \<notin> M \<longrightarrow> a \<notin># node_refs nb"
  shows "entry_rel s (insert a M) e te"
proof -
  from assms(1) obtain nd where h: "heap s (snd e) = Some nd" and rc: "m_rc nd = 1"
    and v: "m_value nd = t_value (snd te)" and d: "fst e = fst te"
    and hg: "hang s M (slot (\<not> fst e) nd) (if fst e then t_left (snd te) else t_right (snd te))"
    by (auto simp: entry_rel_def)
  have "hang s (insert a M) (slot (\<not> fst e) nd) (if fst e then t_left (snd te) else t_right (snd te))"
    by (rule hang_extend [OF hg assms(2) [OF h] assms(3)])
  with h rc v d show ?thesis by (auto simp: entry_rel_def)
qed

lemma chain_hd:
  "chain s m (e # rest) n \<Longrightarrow> \<exists>nd. heap s (snd e) = Some nd \<and> m_rc nd = 1 \<and> slot (fst e) nd = n"
  by simp

lemma distinct_snd_eq:
  "distinct (map snd xs) \<Longrightarrow> e \<in> set xs \<Longrightarrow> e' \<in> set xs \<Longrightarrow> snd e = snd e' \<Longrightarrow> e = e'"
  by (auto simp: distinct_map inj_on_def)

lemma slot_in_refs: "slot d nd = Some a \<Longrightarrow> a \<in># node_refs nd"
  by (cases d) (auto simp: slot_def node_refs_def)

lemma slot_both_count:
  "slot d nd = Some a \<Longrightarrow> slot (\<not> d) nd = Some a \<Longrightarrow> count (node_refs nd) a = 2"
  by (cases d) (auto simp: slot_def node_refs_def)

lemma dinv_push:
  assumes inv: "dinv s m_ptr Q path (Some a) tpath (Node l x r)"
    and h: "heap s a = Some nd" and rc: "m_rc nd = 1"
  shows "dinv s m_ptr Q ((d, a) # path) (slot d nd) ((d, (l, x, r)) # tpath) (if d then r else l)"
    and "m_value nd = x"
proof -
  let ?P = "snd ` set path"
  let ?R = "opt_mset m_ptr + roots_mset (map fst Q)"
  from inv have ok: "rc_ok s ?R" and dd: "dead s = {}" and ch: "chain s m_ptr path (Some a)"
    and di: "distinct (map snd path)"
    and er: "list_all2 (entry_rel s ?P) path tpath"
    and hg: "hang s ?P (Some a) (Node l x r)"
    and hq: "\<forall>q\<in>set Q. hang s ?P (fst q) (snd q)"
    by (auto simp: dinv_def)
  from hang_children [OF hg h] have x: "x = m_value nd" and aP: "a \<notin> ?P"
    and hl: "hang s (insert a ?P) (m_left nd) l" and hr: "hang s (insert a ?P) (m_right nd) r"
    by auto
  show "m_value nd = x" using x by simp
  have rca: "rc_of s a = 1" using h rc by (simp add: rc_of_def)
  \<comment> \<open>every cell that refers to \<open>a\<close> is on the path; no other slot and no other handle holds \<open>a\<close>\<close>
  have cl: "\<forall>b nb. heap s b = Some nb \<longrightarrow> b \<notin> ?P \<longrightarrow> a \<notin># node_refs nb"
    and sib: "\<And>e ne. e \<in> set path \<Longrightarrow> heap s (snd e) = Some ne \<Longrightarrow> slot (\<not> fst e) ne \<noteq> Some a"
    and nq: "\<And>q. q \<in> set Q \<Longrightarrow> fst q \<noteq> Some a"
  proof -
    show "\<forall>b nb. heap s b = Some nb \<longrightarrow> b \<notin> ?P \<longrightarrow> a \<notin># node_refs nb"
    proof (cases path)
      case Nil
      with ch have "a \<in># ?R" by simp
      from unique_referrer_root(2) [OF ok dd rca this] show ?thesis by blast
    next
      case (Cons e rest)
      from chain_hd [OF ch [unfolded Cons]]
      obtain nb where hb: "heap s (snd e) = Some nb" and sl: "slot (fst e) nb = Some a"
        by blast
      from unique_referrer_cell(3) [OF ok dd rca hb slot_in_refs [OF sl]] Cons
      show ?thesis by auto
    qed
    show "\<And>e ne. e \<in> set path \<Longrightarrow> heap s (snd e) = Some ne \<Longrightarrow> slot (\<not> fst e) ne \<noteq> Some a"
    proof -
      fix e ne assume e: "e \<in> set path" and he: "heap s (snd e) = Some ne"
      from e obtain e0 rest where path: "path = e0 # rest" by (cases path) auto
      from chain_hd [OF ch [unfolded path]]
      obtain nb where hb: "heap s (snd e0) = Some nb" and sl: "slot (fst e0) nb = Some a"
        by blast
      note u = unique_referrer_cell [OF ok dd rca hb slot_in_refs [OF sl]]
      show "slot (\<not> fst e) ne \<noteq> Some a"
      proof
        assume s2: "slot (\<not> fst e) ne = Some a"
        show False
        proof (cases "snd e = snd e0")
          case True
          have "e0 \<in> set path" unfolding path by simp
          from distinct_snd_eq [OF di e this True] have ee: "e = e0" .
          from he hb have "ne = nb" unfolding ee by simp
          with s2 have "slot (\<not> fst e0) nb = Some a" unfolding ee by simp
          from slot_both_count [OF sl this] u(1) show False by simp
        next
          case False
          from u(3) [OF he False] slot_in_refs [OF s2] show False by simp
        qed
      qed
    qed
    show "\<And>q. q \<in> set Q \<Longrightarrow> fst q \<noteq> Some a"
    proof
      fix q assume q: "q \<in> set Q" and qa: "fst q = Some a"
      then have inQ: "a \<in># roots_mset (map fst Q)" by (force simp: roots_mset_member)
      show False
      proof (cases path)
        case Nil
        with ch have "m_ptr = Some a" by simp
        then have "count ?R a \<ge> 2" using inQ
          by (simp add: Suc_le_eq)
        moreover have "a \<in># ?R" using inQ by simp
        ultimately show False using unique_referrer_root(1) [OF ok dd rca] by simp
      next
        case (Cons e rest)
        with ch obtain nb where hb: "heap s (snd e) = Some nb" and sl: "slot (fst e) nb = Some a"
          by auto
        from unique_referrer_cell(2) [OF ok dd rca hb slot_in_refs [OF sl]] inQ
        show False by simp
      qed
    qed
  qed
  have 1: "chain s m_ptr ((d, a) # path) (slot d nd)" using ch h rc by simp
  have 2: "distinct (map snd ((d, a) # path))" using di aP by simp
  have 3: "list_all2 (entry_rel s (snd ` set ((d, a) # path))) ((d, a) # path) ((d, (l, x, r)) # tpath)"
  proof -
    have "entry_rel s (insert a ?P) (d, a) (d, (l, x, r))"
      using h rc x hl hr by (cases d) (auto simp: entry_rel_def slot_def)
    moreover have "list_all2 (entry_rel s (insert a ?P)) path tpath"
    proof (rule list.rel_mono_strong [OF er])
      fix e te assume e: "e \<in> set path" and r: "entry_rel s ?P e te"
      show "entry_rel s (insert a ?P) e te"
        by (rule entry_rel_extend [OF r sib [OF e] cl])
    qed
    ultimately show ?thesis by simp
  qed
  have 4: "hang s (snd ` set ((d, a) # path)) (slot d nd) (if d then r else l)"
    using hl hr by (simp add: slot_def)
  have 5: "\<forall>q\<in>set Q. hang s (snd ` set ((d, a) # path)) (fst q) (snd q)"
  proof
    fix q assume q: "q \<in> set Q"
    have "hang s (insert a ?P) (fst q) (snd q)"
      by (rule hang_extend [OF hq [rule_format, OF q] nq [OF q] cl])
    then show "hang s (snd ` set ((d, a) # path)) (fst q) (snd q)" by simp
  qed
  from ok dd 1 2 3 4 5
  show "dinv s m_ptr Q ((d, a) # path) (slot d nd) ((d, (l, x, r)) # tpath) (if d then r else l)"
    unfolding dinv_def by blast
qed

lemma frame_shape:
  "(\<And>a. a \<notin> M \<Longrightarrow> heap s a \<noteq> None \<Longrightarrow> map_option shape (heap s' a) = map_option shape (heap s a))
   \<Longrightarrow> frame M s s'"
  unfolding frame_def
proof (intro allI impI)
  fix a nd assume a: "a \<notin> M" and h: "heap s a = Some nd"
    and r: "\<And>a. a \<notin> M \<Longrightarrow> heap s a \<noteq> None \<Longrightarrow> map_option shape (heap s' a) = map_option shape (heap s a)"
  from r [OF a] h have "map_option shape (heap s' a) = Some (shape nd)" by simp
  then show "\<exists>nd'. heap s' a = Some nd' \<and> shape nd' = shape nd" by auto
qed

lemma hang_not_in: "hang s M (Some a) t \<Longrightarrow> a \<notin> M"
  by (auto simp: hang_Some_iff)

lemma entry_rel_frame:
  assumes r: "entry_rel s M e te" and fr: "frame M s s'"
    and h: "\<And>nd. heap s (snd e) = Some nd \<Longrightarrow>
      \<exists>nd'. heap s' (snd e) = Some nd' \<and> m_rc nd' = 1 \<and> m_value nd' = m_value nd \<and>
        slot (\<not> fst e) nd' = slot (\<not> fst e) nd"
  shows "entry_rel s' M e te"
proof -
  from r obtain nd where h0: "heap s (snd e) = Some nd" and rc: "m_rc nd = 1"
    and v: "m_value nd = t_value (snd te)" and d: "fst e = fst te"
    and hg: "hang s M (slot (\<not> fst e) nd) (if fst e then t_left (snd te) else t_right (snd te))"
    by (auto simp: entry_rel_def)
  from h [OF h0] obtain nd' where h1: "heap s' (snd e) = Some nd'" and rc': "m_rc nd' = 1"
    and v': "m_value nd' = m_value nd" and sl: "slot (\<not> fst e) nd' = slot (\<not> fst e) nd"
    by blast
  from hang_frame [OF hg fr] have "hang s' M (slot (\<not> fst e) nd') (if fst e then t_left (snd te) else t_right (snd te))"
    unfolding sl .
  with h1 rc' v' v d show ?thesis unfolding entry_rel_def by auto
qed

lemma dinv_relink:
  assumes inv: "dinv s m_ptr Q path n tpath t"
    and so: "shared_or_null s n"
    and ll: "live_ptr s left" and lr: "live_ptr s right"
    and hl: "hang s (snd ` set path) left l" and hr: "hang s (snd ` set path) right r"
  shows "\<exists>s2 s' m_ptr'. new_node v left right s = Some (next_free s, s2) \<and>
      update_parent path (next_free s) (s2, m_ptr) = Some (s', m_ptr') \<and>
      dinv s' m_ptr' Q path (Some (next_free s)) tpath (Node l v r) \<and>
      heap s' (next_free s) = Some \<lparr>m_left = left, m_right = right, m_value = v, m_rc = 1\<rparr>"
proof -
  let ?P = "snd ` set path"
  let ?Rs = "roots_mset (map fst Q)"
  let ?c = "next_free s"
  let ?cn = "\<lparr>m_left = left, m_right = right, m_value = v, m_rc = 0\<rparr>"
  from inv have ok: "rc_ok s (opt_mset m_ptr + ?Rs)" and dd: "dead s = {}" and ch: "chain s m_ptr path n"
    and di: "distinct (map snd path)"
    and er: "list_all2 (entry_rel s ?P) path tpath"
    and hg: "hang s ?P n t"
    and hq: "\<forall>q\<in>set Q. hang s ?P (fst q) (snd q)"
    by (auto simp: dinv_def)
  from new_node_correct [OF ok dd ll lr, of v] obtain s2 where
    nn: "new_node v left right s = Some (?c, s2)" and fresh: "heap s ?c = None"
    and hc: "heap s2 ?c = Some ?cn"
    and ok2: "rc_ok s2 (opt_mset m_ptr + ?Rs + (opt_mset left + opt_mset right))"
    and dd2: "dead s2 = {?c}" and nf2: "next_free s2 = Suc ?c"
    and sh2: "\<forall>a. a \<noteq> ?c \<longrightarrow> map_option shape (heap s2 a) = map_option shape (heap s a)"
    and same2: "\<forall>a. a \<noteq> ?c \<longrightarrow> left \<noteq> Some a \<longrightarrow> right \<noteq> Some a \<longrightarrow> heap s2 a = heap s a"
    and rc2: "\<forall>a. a \<noteq> ?c \<longrightarrow> rc_of s2 a = rc_of s a + count (opt_mset left + opt_mset right) a"
    by blast
  have refs: "node_refs ?cn = opt_mset left + opt_mset right" by (simp add: node_refs_def)
  have rc0: "m_rc ?cn = 0" by simp
  have Pal: "\<And>b. b \<in> ?P \<Longrightarrow> heap s b \<noteq> None"
  proof -
    fix b assume "b \<in> ?P"
    then obtain e where e: "e \<in> set path" and b: "b = snd e" by auto
    from chain_rc1 [OF ch e] show "heap s b \<noteq> None" unfolding b by auto
  qed
  have cP: "?c \<notin> ?P" using Pal fresh by blast
  have P2: "\<And>b. b \<in> ?P \<Longrightarrow> heap s2 b = heap s b"
  proof -
    fix b assume b: "b \<in> ?P"
    have 1: "b \<noteq> ?c" using b cP by blast
    have 2: "left \<noteq> Some b" using hang_not_in hl b by blast
    have 3: "right \<noteq> Some b" using hang_not_in hr b by blast
    from same2 1 2 3 show "heap s2 b = heap s b" by blast
  qed
  have nP: "\<And>b. b \<in> ?P \<Longrightarrow> n \<noteq> Some b" using hang_not_in hg by blast
  have so2: "shared_or_null s2 n"
  proof (cases n)
    case None then show ?thesis by (simp add: shared_or_null_def)
  next
    case (Some a)
    with so obtain nd where h: "heap s a = Some nd" and r: "m_rc nd \<ge> 2"
      by (auto simp: shared_or_null_def split: option.splits)
    have ac: "a \<noteq> ?c" using h fresh by auto
    from sh2 ac h obtain nd2 where h2: "heap s2 a = Some nd2" by force
    from rc2 ac have "rc_of s2 a \<ge> rc_of s a" by simp
    with h h2 r have "m_rc nd2 \<ge> 2" by (simp add: rc_of_def)
    with h2 Some show ?thesis by (simp add: shared_or_null_def)
  qed
  have "\<exists>s' m'. update_parent path ?c (s2, m_ptr) = Some (s', m') \<and>
      rc_ok s' (opt_mset m' + ?Rs) \<and> dead s' = {} \<and>
      heap s' ?c = Some (?cn\<lparr>m_rc := 1\<rparr>) \<and>
      chain s' m' path (Some ?c) \<and>
      (\<forall>a. a \<noteq> ?c \<longrightarrow> a \<notin> ?P \<longrightarrow> map_option shape (heap s' a) = map_option shape (heap s a)) \<and>
      (\<forall>e nd. e \<in> set path \<longrightarrow> heap s (snd e) = Some nd \<longrightarrow>
         (\<exists>nd'. heap s' (snd e) = Some nd' \<and> m_rc nd' = 1 \<and> m_value nd' = m_value nd \<and>
           slot (\<not> fst e) nd' = slot (\<not> fst e) nd))"
  proof (cases path)
    case Nil
    with ch have mn: "m_ptr = n" by simp
    have ok2': "rc_ok s2 (opt_mset m_ptr + ?Rs + node_refs ?cn)" using ok2 unfolding refs .
    have so2': "shared_or_null s2 m_ptr" using so2 mn by simp
    from update_parent_root [OF ok2' hc rc0 dd2 so2'] obtain s' where
      up: "update_parent [] ?c (s2, m_ptr) = Some (s', Some ?c)" and
      ok': "rc_ok s' (opt_mset (Some ?c) + ?Rs)" and dd': "dead s' = {}" and
      hc': "heap s' ?c = Some (?cn\<lparr>m_rc := 1\<rparr>)" and
      sh': "\<forall>b. map_option shape (heap s' b) = map_option shape (heap s2 b)"
      by blast
    have "\<forall>a. a \<noteq> ?c \<longrightarrow> a \<notin> ?P \<longrightarrow> map_option shape (heap s' a) = map_option shape (heap s a)"
      using sh' sh2 by simp
    with up ok' dd' hc' Nil show ?thesis by simp
  next
    case (Cons e rest)
    obtain d b where e: "e = (d, b)" by (cases e)
    from chain_hd [OF ch [unfolded Cons]] e
    obtain nb where hb: "heap s b = Some nb" and rb: "m_rc nb = 1" and sl: "slot d nb = n"
      by auto
    have bP: "b \<in> ?P" unfolding Cons e by simp
    have hb2: "heap s2 b = Some nb" using P2 [OF bP] hb by simp
    have ok2': "rc_ok s2 (opt_mset m_ptr + ?Rs + node_refs ?cn)" using ok2 unfolding refs .
    from update_parent_slot [OF ok2' hc rc0 dd2 hb2 rb sl so2, of rest m_ptr] obtain s' nb' where
      up: "update_parent ((d, b) # rest) ?c (s2, m_ptr) = Some (s', m_ptr)" and
      ok': "rc_ok s' (opt_mset m_ptr + ?Rs)" and dd': "dead s' = {}" and
      hc': "heap s' ?c = Some (?cn\<lparr>m_rc := 1\<rparr>)" and
      hb': "heap s' b = Some nb'" and rb': "m_rc nb' = 1" and vb': "m_value nb' = m_value nb" and
      sl': "slot d nb' = Some ?c" and sib': "slot (\<not> d) nb' = slot (\<not> d) nb" and
      sh': "\<forall>a. a \<noteq> b \<longrightarrow> map_option shape (heap s' a) = map_option shape (heap s2 a)" and
      same': "\<forall>a. a \<noteq> b \<longrightarrow> a \<noteq> ?c \<longrightarrow> n \<noteq> Some a \<longrightarrow> heap s' a = heap s2 a"
      by blast
    have keep: "\<And>a. a \<in> ?P \<Longrightarrow> a \<noteq> b \<Longrightarrow> heap s' a = heap s a"
    proof -
      fix a assume a: "a \<in> ?P" and ab: "a \<noteq> b"
      have "a \<noteq> ?c" using a cP by blast
      with same' ab nP [OF a] have "heap s' a = heap s2 a" by blast
      with P2 [OF a] show "heap s' a = heap s a" by simp
    qed
    have "chain s' m_ptr rest (Some b)"
    proof (rule chain_cong)
      show "chain s m_ptr rest (Some b)" using ch unfolding Cons e by simp
      show "\<forall>x\<in>set rest. heap s' (snd x) = heap s (snd x)"
      proof
        fix x assume x: "x \<in> set rest"
        then have "snd x \<in> ?P" unfolding Cons by simp
        moreover have "snd x \<noteq> b" using di x unfolding Cons e by auto
        ultimately show "heap s' (snd x) = heap s (snd x)" by (rule keep)
      qed
    qed
    with hb' rb' sl' have ch': "chain s' m_ptr path (Some ?c)" unfolding Cons e by simp
    have sh: "\<forall>a. a \<noteq> ?c \<longrightarrow> a \<notin> ?P \<longrightarrow> map_option shape (heap s' a) = map_option shape (heap s a)"
    proof (intro allI impI)
      fix a assume ac: "a \<noteq> ?c" and aP: "a \<notin> ?P"
      with bP have "a \<noteq> b" by blast
      with sh' sh2 ac show "map_option shape (heap s' a) = map_option shape (heap s a)" by simp
    qed
    have en: "\<forall>x nd. x \<in> set path \<longrightarrow> heap s (snd x) = Some nd \<longrightarrow>
         (\<exists>nd'. heap s' (snd x) = Some nd' \<and> m_rc nd' = 1 \<and> m_value nd' = m_value nd \<and>
           slot (\<not> fst x) nd' = slot (\<not> fst x) nd)"
    proof (intro allI impI)
      fix x nd assume x: "x \<in> set path" and hx: "heap s (snd x) = Some nd"
      from chain_rc1 [OF ch x] hx have r1: "m_rc nd = 1" by simp
      show "\<exists>nd'. heap s' (snd x) = Some nd' \<and> m_rc nd' = 1 \<and> m_value nd' = m_value nd \<and>
           slot (\<not> fst x) nd' = slot (\<not> fst x) nd"
      proof (cases "snd x = b")
        case True
        have "e \<in> set path" unfolding Cons by simp
        from distinct_snd_eq [OF di x this] True e have xe: "x = (d, b)" by simp
        from hx hb have "nd = nb" unfolding xe by simp
        with hb' rb' vb' sib' show ?thesis unfolding xe by simp
      next
        case False
        from x have "snd x \<in> ?P" by simp
        from keep [OF this False] hx r1 show ?thesis by simp
      qed
    qed
    from up ok' dd' hc' ch' sh en show ?thesis unfolding Cons e by blast
  qed
  then obtain s' m' where up: "update_parent path ?c (s2, m_ptr) = Some (s', m')"
    and ok': "rc_ok s' (opt_mset m' + ?Rs)" and dd': "dead s' = {}"
    and hc': "heap s' ?c = Some (?cn\<lparr>m_rc := 1\<rparr>)"
    and ch': "chain s' m' path (Some ?c)"
    and sh: "\<forall>a. a \<noteq> ?c \<longrightarrow> a \<notin> ?P \<longrightarrow> map_option shape (heap s' a) = map_option shape (heap s a)"
    and en: "\<forall>e nd. e \<in> set path \<longrightarrow> heap s (snd e) = Some nd \<longrightarrow>
         (\<exists>nd'. heap s' (snd e) = Some nd' \<and> m_rc nd' = 1 \<and> m_value nd' = m_value nd \<and>
           slot (\<not> fst e) nd' = slot (\<not> fst e) nd)"
    by blast
  have fr: "frame ?P s s'"
  proof (rule frame_shape)
    fix a assume "a \<notin> ?P" and "heap s a \<noteq> None"
    moreover from this fresh have "a \<noteq> ?c" by auto
    ultimately show "map_option shape (heap s' a) = map_option shape (heap s a)" using sh by blast
  qed
  have er': "list_all2 (entry_rel s' ?P) path tpath"
  proof (rule list.rel_mono_strong [OF er])
    fix e te assume e: "e \<in> set path" and r: "entry_rel s ?P e te"
    show "entry_rel s' ?P e te"
      by (rule entry_rel_frame [OF r fr]) (use en e in blast)
  qed
  have hg': "hang s' ?P (Some ?c) (Node l v r)"
    by (rule hang_NodeI [OF hc' cP]) (simp_all add: hang_frame [OF hl fr] hang_frame [OF hr fr])
  have hq': "\<forall>q\<in>set Q. hang s' ?P (fst q) (snd q)"
    using hq hang_frame [OF _ fr] by blast
  have "dinv s' m' Q path (Some ?c) tpath (Node l v r)"
    unfolding dinv_def using ok' dd' ch' di er' hg' hq' by blast
  with nn up hc' show ?thesis by simp
qed

lemma hang_Leaf_None: "hang s M n Leaf \<Longrightarrow> n = None"
  by (cases n) (auto simp: hang_Some_iff)

lemma dinv_unshare:
  assumes inv: "dinv s m_ptr Q path (Some a) tpath t" and h: "heap s a = Some nd0"
  shows "\<exists>a' s' m' nd.
      (if is_shared nd0 then do {
         (a', s) \<leftarrow> copy_node a s;
         (s, m_ptr) \<leftarrow> update_parent path a' (s, m_ptr);
         Some (a', s, m_ptr)
       } else Some (a, s, m_ptr)) = Some (a', s', m') \<and>
      dinv s' m' Q path (Some a') tpath t \<and> heap s' a' = Some nd \<and> m_rc nd = 1"
proof (cases "is_shared nd0")
  case False
  from inv have dd: "dead s = {}" by (simp add: dinv_def)
  with h have "m_rc nd0 \<noteq> 0" by (auto simp: dead_def)
  with False have "m_rc nd0 = 1" by (simp add: is_shared_def)
  with False inv h show ?thesis by simp
next
  case True
  let ?P = "snd ` set path"
  from inv have ok: "rc_ok s (opt_mset m_ptr + roots_mset (map fst Q))" and dd: "dead s = {}"
    and hg: "hang s ?P (Some a) t"
    by (auto simp: dinv_def)
  from hg h obtain l r where t: "t = Node l (m_value nd0) r"
    and hl: "hang s ?P (m_left nd0) l" and hr: "hang s ?P (m_right nd0) r"
    by (auto simp: hang_Some_iff)
  have so: "shared_or_null s (Some a)" using True h by (simp add: shared_or_null_def is_shared_def)
  have lv: "\<And>p. p = m_left nd0 \<or> p = m_right nd0 \<Longrightarrow> live_ptr s p"
  proof -
    fix p assume p: "p = m_left nd0 \<or> p = m_right nd0"
    show "live_ptr s p"
    proof (cases p)
      case None then show ?thesis by (simp add: live_ptr_def)
    next
      case (Some c)
      with p have "m_left nd0 = Some c \<or> m_right nd0 = Some c" by auto
      then have "c \<in># node_refs nd0" by (auto simp: node_refs_def)
      from ref_live [OF ok dd h this] Some show ?thesis by (auto simp: live_ptr_def)
    qed
  qed
  from dinv_relink [OF inv so lv lv hl hr, of "m_value nd0"]
  obtain s2 s' m' where nn: "new_node (m_value nd0) (m_left nd0) (m_right nd0) s = Some (next_free s, s2)"
    and up: "update_parent path (next_free s) (s2, m_ptr) = Some (s', m')"
    and inv': "dinv s' m' Q path (Some (next_free s)) tpath (Node l (m_value nd0) r)"
    and hc: "heap s' (next_free s) = Some \<lparr>m_left = m_left nd0, m_right = m_right nd0, m_value = m_value nd0, m_rc = 1\<rparr>"
    by auto
  have "copy_node a s = Some (next_free s, s2)" using h nn by (simp add: copy_node_def)
  with True up inv' hc t show ?thesis by simp
qed

lemma dinv_binv:
  assumes inv: "dinv s m_ptr Q path (Some a) tpath (Node l x r)"
    and h: "heap s a = Some nd" and rc: "m_rc nd = 1"
  shows "binv s m_ptr Q path a tpath (l, x, r)"
proof -
  let ?P = "snd ` set path"
  note T = dinv_push(1) [OF inv h rc, of True]
  note F = dinv_push(1) [OF inv h rc, of False]
  note x = dinv_push(2) [OF inv h rc]
  from T have ok: "rc_ok s (opt_mset m_ptr + roots_mset (map fst Q))" and dd: "dead s = {}"
    and ch: "chain s m_ptr path (Some a)" and di: "distinct (a # map snd path)"
    and er: "list_all2 (entry_rel s (insert a ?P)) path tpath"
    and hr: "hang s (insert a ?P) (m_right nd) r"
    and hq: "\<forall>q\<in>set Q. hang s (insert a ?P) (fst q) (snd q)"
    by (auto simp: dinv_def slot_def)
  from F have hl: "hang s (insert a ?P) (m_left nd) l"
    by (auto simp: dinv_def slot_def)
  have "node_rel s (insert a ?P) a (l, x, r)"
    using h rc x hl hr by (simp add: node_rel_def)
  with ok dd ch di er hq show ?thesis unfolding binv_def by blast
qed

lemma binv_pop:
  assumes inv: "dinv s m_ptr Q ((d, a) # path) None ((d', tn) # tpath) Leaf"
    and sl: "slot_ok ((d', tn) # tpath) Leaf"
  shows "binv s m_ptr Q path a tpath tn"
proof -
  let ?P = "insert a (snd ` set path)"
  obtain l x r where tn: "tn = (l, x, r)" by (cases tn)
  from inv have ok: "rc_ok s (opt_mset m_ptr + roots_mset (map fst Q))" and dd: "dead s = {}"
    and ch: "chain s m_ptr ((d, a) # path) None" and di: "distinct (a # map snd path)"
    and e1: "entry_rel s ?P (d, a) (d', tn)"
    and er: "list_all2 (entry_rel s ?P) path tpath"
    and hq: "\<forall>q\<in>set Q. hang s ?P (fst q) (snd q)"
    by (auto simp: dinv_def)
  from ch obtain nd where h: "heap s a = Some nd" and rc: "m_rc nd = 1" and sn: "slot d nd = None"
    and ch': "chain s m_ptr path (Some a)"
    by auto
  from e1 h have dd': "d = d'" and v: "m_value nd = x"
    and sib: "hang s ?P (slot (\<not> d) nd) (if d then l else r)"
    by (auto simp: entry_rel_def tn)
  have "node_rel s ?P a tn"
  proof (cases d)
    case True
    with sl dd' tn have "r = Leaf" by simp
    with True sn sib h rc v show ?thesis by (simp add: node_rel_def tn slot_def)
  next
    case False
    with sl dd' tn have "l = Leaf" by simp
    with False sn sib h rc v show ?thesis by (simp add: node_rel_def tn slot_def)
  qed
  with ok dd ch' di er hq show ?thesis unfolding binv_def by blast
qed

lemma binv_write_value:
  assumes inv: "binv s m_ptr Q path a tpath (l, x, r)"
  shows "\<exists>s'. write_value a v s = Some s' \<and> binv s' m_ptr Q path a tpath (l, v, r)"
proof -
  let ?P = "insert a (snd ` set path)"
  from inv have ok: "rc_ok s (opt_mset m_ptr + roots_mset (map fst Q))" and dd: "dead s = {}"
    and ch: "chain s m_ptr path (Some a)" and di: "distinct (a # map snd path)"
    and er: "list_all2 (entry_rel s ?P) path tpath"
    and nr: "node_rel s ?P a (l, x, r)"
    and hq: "\<forall>q\<in>set Q. hang s ?P (fst q) (snd q)"
    by (auto simp: binv_def)
  from nr obtain nd where h: "heap s a = Some nd" and rc: "m_rc nd = 1"
    and hl: "hang s ?P (m_left nd) l" and hr: "hang s ?P (m_right nd) r"
    by (auto simp: node_rel_def)
  let ?s' = "set_node a (nd\<lparr>m_value := v\<rparr>) s"
  have w: "write_value a v s = Some ?s'" using h rc by (simp add: write_value_def is_shared_def)
  have so: "same_outside {a} s ?s'" by (simp add: same_outside_def)
  have fr: "frame ?P s ?s'" by (rule same_outside_frame [OF so]) simp
  have ok': "rc_ok ?s' (opt_mset m_ptr + roots_mset (map fst Q))"
    by (rule rc_ok_relink [OF ok h]) (simp_all add: rc node_refs_def)
  have dd': "dead ?s' = {}" using dd h rc by (auto simp: dead_def split: if_splits)
  have ch': "chain ?s' m_ptr path (Some a)"
    by (rule chain_cong [OF ch]) (use di in auto)
  have er': "list_all2 (entry_rel ?s' ?P) path tpath"
  proof (rule list.rel_mono_strong [OF er])
    fix e te assume e: "e \<in> set path" and r: "entry_rel s ?P e te"
    from e di have "snd e \<noteq> a" by auto
    then have "heap ?s' (snd e) = heap s (snd e)" by simp
    moreover from chain_rc1 [OF ch e] obtain ne where "heap s (snd e) = Some ne" "m_rc ne = 1" by blast
    ultimately show "entry_rel ?s' ?P e te"
      by (intro entry_rel_frame [OF r fr]) simp
  qed
  have nr': "node_rel ?s' ?P a (l, v, r)"
    using rc hang_frame [OF hl fr] hang_frame [OF hr fr] by (simp add: node_rel_def)
  have hq': "\<forall>q\<in>set Q. hang ?s' ?P (fst q) (snd q)"
    using hq hang_frame [OF _ fr] by blast
  from w ok' dd' ch' di er' nr' hq' show ?thesis unfolding binv_def by blast
qed

lemma entry_rel_update_parent_t:
  "list_all2 (entry_rel s M) path tpath \<Longrightarrow> list_all2 (entry_rel s M) path (update_parent_t tpath c)"
proof (cases tpath)
  case Nil
  then show "list_all2 (entry_rel s M) path tpath \<Longrightarrow> ?thesis" by simp
next
  case (Cons te rest)
  obtain d l x r where te: "te = (d, (l, x, r))" by (cases te) auto
  assume "list_all2 (entry_rel s M) path tpath"
  then obtain e prest where p: "path = e # prest" and e: "entry_rel s M e te"
    and r: "list_all2 (entry_rel s M) prest rest"
    unfolding Cons by (auto simp: list_all2_Cons2)
  from e have "entry_rel s M e (if d then (True, (l, x, c)) else (False, (c, x, r)))"
    unfolding te entry_rel_def by auto
  with r p show ?thesis unfolding Cons te by (cases d) simp_all
qed

lemma binv_update_parent_t:
  "binv s m Q path a tpath tn \<Longrightarrow> binv s m Q path a (update_parent_t tpath c) tn"
  unfolding binv_def using entry_rel_update_parent_t by blast

lemma insert_pull_loop_None:
  "insert_pull_loop cmp v is_insert s m_ptr path None =
     (if is_insert then do {
        (a, s) \<leftarrow> new_node v None None s;
        (s, m_ptr) \<leftarrow> update_parent path a (s, m_ptr);
        Some (Break False s m_ptr path a)
      } else (case path of
                [] \<Rightarrow> Some (Return_false s m_ptr)
              | e # path' \<Rightarrow> Some (Break False s m_ptr path' (snd e))))"
  by (subst insert_pull_loop.simps) simp

lemma insert_pull_loop_Some:
  assumes "heap s a = Some nd0"
    and "(if is_shared nd0 then do {
            (a', s) \<leftarrow> copy_node a s;
            (s, m_ptr) \<leftarrow> update_parent path a' (s, m_ptr);
            Some (a', s, m_ptr)
          } else Some (a, s, m_ptr)) = Some (a', s', m')"
    and "heap s' a' = Some nd" and "m_rc nd = 1"
  shows "insert_pull_loop cmp v is_insert s m_ptr path (Some a) =
     (let c = cmp v (m_value nd) in
      if c < 0 then insert_pull_loop cmp v is_insert s' m' ((False, a') # path) (m_left nd)
      else if c > 0 then insert_pull_loop cmp v is_insert s' m' ((True, a') # path) (m_right nd)
      else do {
        s \<leftarrow> (if is_insert then write_value a' v s' else Some s');
        Some (Break True s m' path a')
      })"
  using assms by (subst insert_pull_loop.simps) (simp add: is_shared_def)

lemma insert_pull_loop_correct:
  assumes "dinv s m_ptr Q path n tpath t" and "slot_ok tpath t"
  shows "\<exists>e. insert_pull_loop cmp v is_insert s m_ptr path n = Some e \<and>
     (case descend_t cmp v is_insert tpath t of
        None \<Rightarrow> e = Return_false s m_ptr \<and> n = None
      | Some (found, tpath', tn) \<Rightarrow>
          (\<exists>s' m' path' a. e = Break found s' m' path' a \<and> binv s' m' Q path' a tpath' tn))"
  using assms
proof (induction t arbitrary: s m_ptr path n tpath)
  case Leaf
  let ?P = "snd ` set path"
  from Leaf.prems(1) have hg: "hang s ?P n Leaf" and er: "list_all2 (entry_rel s ?P) path tpath"
    by (auto simp: dinv_def)
  from hang_Leaf_None [OF hg] have n: "n = None" .
  show ?case
  proof (cases is_insert)
    case True
    have 1: "shared_or_null s None" and 2: "live_ptr s None" and 3: "hang s ?P None Leaf"
      by (simp_all add: shared_or_null_def live_ptr_def)
    from dinv_relink [OF Leaf.prems(1) [unfolded n] 1 2 2 3 3, of v]
    obtain s2 s' m' where nn: "new_node v None None s = Some (next_free s, s2)"
      and up: "update_parent path (next_free s) (s2, m_ptr) = Some (s', m')"
      and inv': "dinv s' m' Q path (Some (next_free s)) tpath (Node Leaf v Leaf)"
      and hc: "heap s' (next_free s) = Some \<lparr>m_left = None, m_right = None, m_value = v, m_rc = 1\<rparr>"
      by auto
    have "binv s' m' Q path (next_free s) tpath (Leaf, v, Leaf)"
      by (rule dinv_binv [OF inv' hc]) simp
    then have "binv s' m' Q path (next_free s) (update_parent_t tpath (Node Leaf v Leaf)) (Leaf, v, Leaf)"
      by (rule binv_update_parent_t)
    with True nn up show ?thesis unfolding n insert_pull_loop_None by simp
  next
    case False
    show ?thesis
    proof (cases path)
      case Nil
      with er have "tpath = []" by simp
      with False Nil show ?thesis unfolding n insert_pull_loop_None by simp
    next
      case (Cons e path')
      obtain d a where e: "e = (d, a)" by (cases e)
      from er Cons obtain te tpath' where tp: "tpath = te # tpath'" by (auto simp: list_all2_Cons1)
      obtain d' tn where te: "te = (d', tn)" by (cases te)
      have "binv s m_ptr Q path' a tpath' tn"
        by (rule binv_pop [OF Leaf.prems(1) [unfolded n Cons e tp te] Leaf.prems(2) [unfolded tp te]])
      with False show ?thesis unfolding n insert_pull_loop_None Cons e tp te by simp
    qed
  qed
next
  case (Node l x r)
  let ?P = "snd ` set path"
  from Node.prems(1) have hg: "hang s ?P n (Node l x r)"
    by (auto simp: dinv_def)
  then obtain a nd0 where n: "n = Some a" and h0: "heap s a = Some nd0"
    by (cases n) (auto simp: hang_Some_iff)
  from dinv_unshare [OF Node.prems(1) [unfolded n] h0]
  obtain a' s' m' nd where
    U: "(if is_shared nd0 then do {
         (a', s) \<leftarrow> copy_node a s;
         (s, m_ptr) \<leftarrow> update_parent path a' (s, m_ptr);
         Some (a', s, m_ptr)
       } else Some (a, s, m_ptr)) = Some (a', s', m')"
    and inv': "dinv s' m' Q path (Some a') tpath (Node l x r)"
    and h: "heap s' a' = Some nd" and rc: "m_rc nd = 1"
    by blast
  note step = insert_pull_loop_Some [OF h0 U h rc, of cmp v is_insert]
  note push = dinv_push(1) [OF inv' h rc]
  have x: "m_value nd = x" by (rule dinv_push(2) [OF inv' h rc])
  consider (lt) "cmp v x < 0" | (gt) "\<not> cmp v x < 0" "cmp v x > 0" | (eq) "\<not> cmp v x < 0" "\<not> cmp v x > 0"
    by blast
  then show ?case
  proof cases
    case lt
    have so: "slot_ok ((False, (l, x, r)) # tpath) l" by simp
    have nn: "descend_t cmp v is_insert ((False, (l, x, r)) # tpath) l \<noteq> None"
    proof
      assume "descend_t cmp v is_insert ((False, (l, x, r)) # tpath) l = None"
      from descend_None [OF this] show False by simp
    qed
    then obtain found tpath' tn where
      de: "descend_t cmp v is_insert ((False, (l, x, r)) # tpath) l = Some (found, tpath', tn)"
      by (cases "descend_t cmp v is_insert ((False, (l, x, r)) # tpath) l") auto
    from Node.IH(1) [OF push [of False, simplified] so]
    obtain e where
      e1: "insert_pull_loop cmp v is_insert s' m' ((False, a') # path) (slot False nd) = Some e"
      and e2: "\<exists>s' m' path' a. e = Break found s' m' path' a \<and> binv s' m' Q path' a tpath' tn"
      unfolding de by auto
    have dt: "descend_t cmp v is_insert tpath (Node l x r) = Some (found, tpath', tn)"
      using lt de by simp
    have "insert_pull_loop cmp v is_insert s m_ptr path n = Some e"
      unfolding n step x using lt e1 by (simp add: slot_def)
    with e2 show ?thesis unfolding dt by simp
  next
    case gt
    have so: "slot_ok ((True, (l, x, r)) # tpath) r" by simp
    have nn: "descend_t cmp v is_insert ((True, (l, x, r)) # tpath) r \<noteq> None"
    proof
      assume "descend_t cmp v is_insert ((True, (l, x, r)) # tpath) r = None"
      from descend_None [OF this] show False by simp
    qed
    then obtain found tpath' tn where
      de: "descend_t cmp v is_insert ((True, (l, x, r)) # tpath) r = Some (found, tpath', tn)"
      by (cases "descend_t cmp v is_insert ((True, (l, x, r)) # tpath) r") auto
    from Node.IH(2) [OF push [of True, simplified] so]
    obtain e where
      e1: "insert_pull_loop cmp v is_insert s' m' ((True, a') # path) (slot True nd) = Some e"
      and e2: "\<exists>s' m' path' a. e = Break found s' m' path' a \<and> binv s' m' Q path' a tpath' tn"
      unfolding de by auto
    have dt: "descend_t cmp v is_insert tpath (Node l x r) = Some (found, tpath', tn)"
      using gt de by simp
    have "insert_pull_loop cmp v is_insert s m_ptr path n = Some e"
      unfolding n step x using gt e1 by (simp add: slot_def)
    with e2 show ?thesis unfolding dt by simp
  next
    case eq
    have b: "binv s' m' Q path a' tpath (l, x, r)" by (rule dinv_binv [OF inv' h rc])
    show ?thesis
    proof (cases is_insert)
      case True
      from binv_write_value [OF b, of v] obtain s'' where
        "write_value a' v s' = Some s''" "binv s'' m' Q path a' tpath (l, v, r)" by blast
      with eq True show ?thesis unfolding n step x by simp
    next
      case False
      with eq b show ?thesis unfolding n step x by simp
    qed
  qed
qed

lemma chain_links: "chain s m path n \<Longrightarrow> links s path"
proof (induction s path arbitrary: n rule: links.induct)
  case (1 s pe ge path)
  from "1.prems" have a: "chain s m (ge # path) (Some (snd pe))" by simp
  from chain_hd [OF a] "1.IH" [OF a] show ?case by auto
qed simp_all

lemma chain_last: "chain s m path n \<Longrightarrow> path \<noteq> [] \<Longrightarrow> m = Some (snd (last path))"
  by (induction path arbitrary: n) auto

lemma dead_eq:
  assumes "\<forall>a. rc_of s' a = rc_of s a" and "\<forall>a. (heap s' a = None) = (heap s a = None)"
  shows "dead s' = dead s"
proof -
  have "\<And>a. (\<exists>nd. heap s' a = Some nd \<and> m_rc nd = 0) = (\<exists>nd. heap s a = Some nd \<and> m_rc nd = 0)"
  proof -
    fix a
    from assms(1) have r: "rc_of s' a = rc_of s a" by simp
    from assms(2) have n: "(heap s' a = None) = (heap s a = None)" by simp
    show "(\<exists>nd. heap s' a = Some nd \<and> m_rc nd = 0) = (\<exists>nd. heap s a = Some nd \<and> m_rc nd = 0)"
      using r n by (cases "heap s a"; cases "heap s' a") (auto simp: rc_of_def)
  qed
  then show ?thesis by (simp add: dead_def)
qed

lemma bst_Node:
  "bst cmp (Node l x r) \<Longrightarrow>
   bst cmp l \<and> bst cmp r \<and> (\<forall>y\<in>set (to_buffer_t l). cmp y x < 0) \<and> (\<forall>y\<in>set (to_buffer_t r). cmp x y < 0)"
  by (auto simp: bst_def sorted_wrt_append)

lemma hang_root_value:
  "hang s M (Some a) t \<Longrightarrow> heap s a = Some nd \<Longrightarrow> m_value nd \<in> set (to_buffer_t t)"
  by (auto simp: hang_Some_iff)

lemma check_invariant_hang:
  "hang s M n t \<Longrightarrow> bst cmp t \<Longrightarrow> check_invariant cmp s n = Some True"
proof (induction rule: hang.induct)
  case hang_Leaf
  show ?case by (subst check_invariant.simps) simp
next
  case (hang_Node a nd l r)
  from bst_Node [OF hang_Node.prems] have bl: "bst cmp l" and br: "bst cmp r"
    and ll: "\<forall>y\<in>set (to_buffer_t l). cmp y (m_value nd) < 0"
    and rr: "\<forall>y\<in>set (to_buffer_t r). cmp (m_value nd) y < 0" by auto
  have L: "(case m_left nd of None \<Rightarrow> Some True
     | Some l \<Rightarrow> do {
         _ \<leftarrow> check_invariant cmp s (Some l);
         (case heap s l of None \<Rightarrow> None
          | Some ln \<Rightarrow> if cmp (m_value ln) (m_value nd) < 0 then Some True else None)
       }) = Some True"
  proof (cases "m_left nd")
    case None then show ?thesis by simp
  next
    case (Some c)
    from hang_Node.hyps(3) obtain cn where hc: "heap s c = Some cn"
      unfolding Some by (auto simp: hang_Some_iff)
    from hang_root_value [OF hang_Node.hyps(3) [unfolded Some] hc] ll
    have "cmp (m_value cn) (m_value nd) < 0" by blast
    with hang_Node.IH(1) [OF bl] hc show ?thesis unfolding Some by simp
  qed
  have R: "(case m_right nd of None \<Rightarrow> Some True
     | Some r \<Rightarrow> do {
         _ \<leftarrow> check_invariant cmp s (Some r);
         (case heap s r of None \<Rightarrow> None
          | Some rn \<Rightarrow> if cmp (m_value nd) (m_value rn) < 0 then Some True else None)
       }) = Some True"
  proof (cases "m_right nd")
    case None then show ?thesis by simp
  next
    case (Some c)
    from hang_Node.hyps(4) obtain cn where hc: "heap s c = Some cn"
      unfolding Some by (auto simp: hang_Some_iff)
    from hang_root_value [OF hang_Node.hyps(4) [unfolded Some] hc] rr
    have "cmp (m_value nd) (m_value cn) < 0" by blast
    with hang_Node.IH(2) [OF br] hc show ?thesis unfolding Some by simp
  qed
  show ?case
    by (subst check_invariant.simps) (simp only: option.case hang_Node.hyps(1) L R bind.bind_lunit)
qed

lemma binv_splay:
  assumes inv: "binv s m Q path a tpath tn"
  shows "\<exists>s'. splay_to_top path a s = Some s' \<and>
      rc_ok s' (opt_mset (Some a) + roots_mset (map fst Q)) \<and> dead s' = {} \<and>
      repr s' (Some a) (ptr (splay_to_top_t tpath tn)) \<and>
      (\<forall>q\<in>set Q. repr s' (fst q) (snd q)) \<and>
      next_free s' = next_free s \<and> rc_of s' a = 1"
proof -
  let ?P = "insert a (snd ` set path)"
  let ?Rs = "roots_mset (map fst Q)"
  from inv have ok: "rc_ok s (opt_mset m + ?Rs)" and dd: "dead s = {}"
    and ch: "chain s m path (Some a)" and di: "distinct (a # map snd path)"
    and er: "list_all2 (entry_rel s ?P) path tpath"
    and nr: "node_rel s ?P a tn"
    and hq: "\<forall>q\<in>set Q. hang s ?P (fst q) (snd q)"
    by (auto simp: binv_def)
  have al: "\<forall>x. heap s x \<noteq> None \<longrightarrow> x < next_free s" using ok by (simp add: rc_ok_def)
  have c: "path \<noteq> [] \<longrightarrow> (\<exists>nd. heap s (snd (hd path)) = Some nd \<and> slot (fst (hd path)) nd = Some a)"
  proof
    assume "path \<noteq> []"
    then obtain e rest where p: "path = e # rest" by (cases path) auto
    from chain_hd [OF ch [unfolded p]] show "\<exists>nd. heap s (snd (hd path)) = Some nd \<and> slot (fst (hd path)) nd = Some a"
      unfolding p by auto
  qed
  from splay_loop_correct [OF nr er chain_links [OF ch] di al c]
  obtain s' where sl: "splay_loop path a s = Some s'"
    and nr': "node_rel s' {a} a (splay_to_top_t tpath tn)"
    and so: "same_outside ?P s s'"
    and rcs: "\<forall>x. rc_of s' x = rc_of s x"
    and dm: "\<forall>x. (heap s' x = None) = (heap s x = None)"
    and lr: "path \<noteq> [] \<longrightarrow> live_refs s' + opt_mset (Some a) = live_refs s + {#snd (last path)#}"
    by blast
  from nr obtain nn where h: "heap s a = Some nn" and r1: "m_rc nn = 1" by (auto simp: node_rel_def)
  from nr' obtain nn' where h': "heap s' a = Some nn'" and r1': "m_rc nn' = 1"
    and v': "m_value nn' = t_value (splay_to_top_t tpath tn)"
    and hl': "hang s' {a} (m_left nn') (t_left (splay_to_top_t tpath tn))"
    and hr': "hang s' {a} (m_right nn') (t_right (splay_to_top_t tpath tn))"
    by (auto simp: node_rel_def)
  have st: "splay_to_top path a s = Some s'"
    using h r1 h' r1' sl by (simp add: splay_to_top_def unshared_def is_shared_def)
  have nf: "next_free s' = next_free s" using so by (simp add: same_outside_def)
  have lre: "live_refs s' + opt_mset (Some a) = live_refs s + opt_mset m"
  proof (cases "path = []")
    case True
    with sl have "s' = s" by simp
    moreover from ch True have "m = Some a" by simp
    ultimately show ?thesis by simp
  next
    case False
    from chain_last [OF ch False] lr False show ?thesis by simp
  qed
  have ok': "rc_ok s' (opt_mset (Some a) + ?Rs)"
    unfolding rc_ok_def
  proof (intro conjI allI impI)
    fix x assume "heap s' x \<noteq> None"
    with dm al nf show "x < next_free s'" by simp
  next
    fix x
    have "rc_of s' x = count (live_refs s + opt_mset m + ?Rs) x"
      using rcs ok by (simp add: rc_ok_def ac_simps)
    also have "live_refs s + opt_mset m = live_refs s' + opt_mset (Some a)" using lre by simp
    finally show "rc_of s' x = count (live_refs s' + (opt_mset (Some a) + ?Rs)) x"
      by (simp add: ac_simps)
  qed
  have dd': "dead s' = {}" using dead_eq [OF rcs dm] dd by simp
  have "hang s' {} (Some a) (Node (t_left (splay_to_top_t tpath tn)) (m_value nn') (t_right (splay_to_top_t tpath tn)))"
    by (rule hang_Node [OF h']) (simp_all add: hang_mono [OF hl'] hang_mono [OF hr'])
  then have rp: "repr s' (Some a) (ptr (splay_to_top_t tpath tn))"
    unfolding repr_def v' by (cases "splay_to_top_t tpath tn") simp
  have fr: "frame ?P s s'" by (rule same_outside_frame [OF so]) simp
  have rq: "\<forall>q\<in>set Q. repr s' (fst q) (snd q)"
    using hq hang_frame [OF _ fr] hang_repr by blast
  have r1a: "rc_of s' a = 1" using h' r1' by (simp add: rc_of_def)
  from st ok' dd' rp rq nf r1a show ?thesis by blast
qed

lemma insert_pull_correct:
  assumes inv: "hinv s p Q t"
    and b: "bst cmp (snd (insert_pull_t cmp v ins t))"
  shows "\<exists>s' p'. insert_pull cmp v ins (s, p) = Some (fst (insert_pull_t cmp v ins t), s', p') \<and>
      hinv s' p' Q (snd (insert_pull_t cmp v ins t))"
proof -
  from inv have d0: "dinv s p Q [] p [] t"
    by (simp add: hinv_def dinv_def repr_def)
  have s0: "slot_ok [] t" by simp
  from insert_pull_loop_correct [OF d0 s0, of cmp v ins]
  obtain e where lp: "insert_pull_loop cmp v ins s p [] p = Some e"
    and post: "(case descend_t cmp v ins [] t of
        None \<Rightarrow> e = Return_false s p \<and> p = None
      | Some (found, tpath', tn) \<Rightarrow>
          (\<exists>s' m' path' a. e = Break found s' m' path' a \<and> binv s' m' Q path' a tpath' tn))"
    by blast
  show ?thesis
  proof (cases "descend_t cmp v ins [] t")
    case None
    with post have e: "e = Return_false s p" by simp
    from None have ip: "insert_pull_t cmp v ins t = (False, t)" by (simp add: insert_pull_t_def)
    from lp e have "insert_pull cmp v ins (s, p) = Some (False, s, p)" by (simp add: insert_pull_def)
    with inv show ?thesis unfolding ip by simp
  next
    case (Some res)
    obtain found tpath' tn where res: "res = (found, tpath', tn)" by (cases res)
    from post obtain s1 m1 path1 a where e: "e = Break found s1 m1 path1 a"
      and bi: "binv s1 m1 Q path1 a tpath' tn"
      unfolding Some res by auto
    have ip: "insert_pull_t cmp v ins t = (found, ptr (splay_to_top_t tpath' tn))"
      by (simp add: insert_pull_t_def Some res)
    from binv_splay [OF bi] obtain s' where st: "splay_to_top path1 a s1 = Some s'"
      and ok': "rc_ok s' (opt_mset (Some a) + roots_mset (map fst Q))" and dd': "dead s' = {}"
      and rp: "repr s' (Some a) (ptr (splay_to_top_t tpath' tn))"
      and rq: "\<forall>q\<in>set Q. repr s' (fst q) (snd q)"
      by blast
    from b have "bst cmp (ptr (splay_to_top_t tpath' tn))" unfolding ip by simp
    from check_invariant_hang [OF rp [unfolded repr_def] this]
    have ci: "check_invariant cmp s' (Some a) = Some True" .
    have "insert_pull cmp v ins (s, p) = Some (found, s', Some a)"
      using lp e st ci by (simp add: insert_pull_def)
    with ok' dd' rp rq show ?thesis unfolding ip hinv_def by simp
  qed
qed

section \<open>Store model: \<^verbatim>\<open>dec_ref\<close> returns and frees only what no handle reaches\<close>

lemma sum_fun_upd_nat:
  fixes f :: "nat \<Rightarrow> nat"
  assumes "a < n"
  shows "(\<Sum>b<n. (f(a := x)) b) + f a = (\<Sum>b<n. f b) + x"
proof -
  have fin: "finite {..<n}" and ain: "a \<in> {..<n}" using assms by simp_all
  have "(\<Sum>b<n. (f(a := x)) b) = x + (\<Sum>b\<in>{..<n} - {a}. (f(a := x)) b)"
    using sum.remove [OF fin ain, of "f(a := x)"] by simp
  moreover have "(\<Sum>b\<in>{..<n} - {a}. (f(a := x)) b) = (\<Sum>b\<in>{..<n} - {a}. f b)"
    by (rule sum.cong) auto
  moreover have "(\<Sum>b<n. f b) = f a + (\<Sum>b\<in>{..<n} - {a}. f b)"
    using sum.remove [OF fin ain, of f] by simp
  ultimately show ?thesis by (simp add: ac_simps)
qed

lemma total_rc_heap_upd:
  assumes "a < next_free s"
  shows "total_rc (s\<lparr>heap := (heap s)(a := c)\<rparr>) + rc_of s a
     = total_rc s + (case c of None \<Rightarrow> 0 | Some nd \<Rightarrow> m_rc nd)"
proof -
  let ?f = "\<lambda>b. rc_of s b"
  let ?x = "case c of None \<Rightarrow> 0 | Some nd \<Rightarrow> m_rc nd"
  have e: "(\<Sum>b<next_free s. rc_of (s\<lparr>heap := (heap s)(a := c)\<rparr>) b) = (\<Sum>b<next_free s. (?f(a := ?x)) b)"
    by (rule sum.cong) (auto simp: rc_of_def)
  have nf: "next_free (s\<lparr>heap := (heap s)(a := c)\<rparr>) = next_free s" by simp
  note u = sum_fun_upd_nat [OF assms, of ?f ?x]
  show ?thesis unfolding total_rc_def nf e by (rule u)
qed

lemma live_ref_live:
  assumes ok: "rc_ok s R" and h: "heap s b = Some nb" and l: "m_rc nb > 0" and r: "a \<in># node_refs nb"
  shows "\<exists>na. heap s a = Some na \<and> m_rc na > 0"
proof -
  have b: "b < next_free s" by (rule rc_okD(1) [OF ok h])
  have "cell_refs (heap s b) = node_refs nb" using h l by (simp add: cell_refs_def)
  with cell_refs_subset [OF b] have sb: "node_refs nb \<subseteq># live_refs s" by simp
  have "count (node_refs nb) a \<le> count (live_refs s) a" using sb by (rule mset_subset_eq_count)
  moreover have "0 < count (node_refs nb) a" using r by (simp only: count_greater_zero_iff)
  ultimately have "rc_of s a \<ge> 1" using rc_okD(2) [OF ok, of a] by linarith
  then show ?thesis by (auto simp: rc_of_def split: option.splits)
qed

lemma hang_survive:
  assumes "hang s M q t" and ok: "rc_ok s' R'"
    and sv: "\<forall>x nd'. heap s' x = Some nd' \<longrightarrow> (\<exists>nd. heap s x = Some nd \<and> shape nd' = shape nd)"
    and "live_ptr s' q"
  shows "hang s' M q t"
  using assms(1,4)
proof (induction rule: hang.induct)
  case hang_Leaf
  show ?case by simp
next
  case (hang_Node a nd l r)
  from hang_Node.prems obtain nd' where h': "heap s' a = Some nd'" and l': "m_rc nd' > 0"
    by (auto simp: live_ptr_def split: option.splits)
  from sv h' hang_Node.hyps(1) have sh: "shape nd' = shape nd" by fastforce
  then have ml: "m_left nd' = m_left nd" and mr: "m_right nd' = m_right nd" and mv: "m_value nd' = m_value nd"
    by (simp_all add: shape_def)
  have lv: "\<And>p. p = m_left nd' \<or> p = m_right nd' \<Longrightarrow> live_ptr s' p"
  proof -
    fix p assume p: "p = m_left nd' \<or> p = m_right nd'"
    show "live_ptr s' p"
    proof (cases p)
      case None then show ?thesis by (simp add: live_ptr_def)
    next
      case (Some c)
      with p have "m_left nd' = Some c \<or> m_right nd' = Some c" by auto
      then have "c \<in># node_refs nd'" by (auto simp: node_refs_def)
      from live_ref_live [OF ok h' l' this] Some show ?thesis by (auto simp: live_ptr_def)
    qed
  qed
  have 1: "hang s' M (m_left nd') l" using hang_Node.IH(1) lv ml by simp
  have 2: "hang s' M (m_right nd') r" using hang_Node.IH(2) lv mr by simp
  from hang_NodeI [OF h' hang_Node.hyps(2) 1 2 refl] show ?case unfolding mv .
qed

lemma dec_ref_correct:
  assumes "rc_ok s (opt_mset p + R)"
  shows "\<exists>s'. dec_ref p s = Some s' \<and> rc_ok s' R \<and> dead s' = dead s \<and>
      next_free s' = next_free s \<and> total_rc s' \<le> total_rc s \<and>
      (\<forall>x\<in>dead s. heap s' x = heap s x) \<and>
      (\<forall>x nd'. heap s' x = Some nd' \<longrightarrow> (\<exists>nd. heap s x = Some nd \<and> shape nd' = shape nd))"
  using assms
proof (induction "total_rc s" arbitrary: s p R rule: less_induct)
  case less
  note ok = less.prems
  show ?case
  proof (cases p)
    case None
    with ok show ?thesis by (subst dec_ref.simps) simp
  next
    case (Some a)
    have aR: "a \<in># opt_mset p + R" using Some by simp
    from root_live [OF ok aR] obtain nd where h: "heap s a = Some nd" and l: "m_rc nd > 0" by blast
    have alt: "a < next_free s" by (rule rc_okD(1) [OF ok h])
    have rca: "rc_of s a = m_rc nd" using h by (simp add: rc_of_def)
    show ?thesis
    proof (cases "m_rc nd = 1")
      case False
      with l have l2: "m_rc nd \<ge> 2" by simp
      let ?s' = "set_node a (nd\<lparr>m_rc := m_rc nd - 1\<rparr>) s"
      from ok have ok1: "rc_ok s (add_mset a R)" unfolding Some by simp
      note d = dec_ref_shared [OF ok1 h l2]
      have dd: "dead ?s' = dead s" using h l2 by (auto simp: dead_def split: if_splits)
      have tr: "total_rc ?s' \<le> total_rc s"
        using total_rc_heap_upd [OF alt, of "Some (nd\<lparr>m_rc := m_rc nd - 1\<rparr>)"] rca
        by (simp add: set_node_def)
      have dk: "\<forall>x\<in>dead s. heap ?s' x = heap s x" using h l by (auto simp: dead_def)
      have sv: "\<forall>x nd'. heap ?s' x = Some nd' \<longrightarrow> (\<exists>nd. heap s x = Some nd \<and> shape nd' = shape nd)"
        using h by (auto simp: shape_def split: if_splits)
      from d dd tr dk sv show ?thesis unfolding Some by simp
    next
      case True
      let ?s1 = "set_node a (nd\<lparr>m_rc := 0\<rparr>) s"
      have lrs: "live_refs ?s1 + node_refs nd = live_refs s"
        using live_refs_set_node [OF alt, of "nd\<lparr>m_rc := 0\<rparr>"] h True
        by (simp add: cell_refs_def)
      have ca: "count (live_refs s + R) a = 0"
        using rc_okD(2) [OF ok, of a] rca True Some by simp
      have ok1: "rc_ok ?s1 (opt_mset (m_left nd) + (opt_mset (m_right nd) + R))"
        unfolding rc_ok_def
      proof (intro conjI allI impI)
        fix x assume "heap ?s1 x \<noteq> None"
        then show "x < next_free ?s1" using alt ok by (auto simp: rc_ok_def split: if_splits)
      next
        fix x
        have e: "live_refs ?s1 + (opt_mset (m_left nd) + (opt_mset (m_right nd) + R)) = live_refs s + R"
          using lrs by (simp add: node_refs_def ac_simps)
        show "rc_of ?s1 x = count (live_refs ?s1 + (opt_mset (m_left nd) + (opt_mset (m_right nd) + R))) x"
        proof (cases "x = a")
          case True
          then show ?thesis unfolding e using ca by (simp add: rc_of_def)
        next
          case False
          have "rc_of ?s1 x = rc_of s x" using False by (simp add: rc_of_def)
          also have "\<dots> = count (live_refs s + R) x"
            using rc_okD(2) [OF ok, of x] False Some by simp
          finally show ?thesis unfolding e .
        qed
      qed
      have t1: "total_rc ?s1 < total_rc s"
        using total_rc_heap_upd [OF alt, of "Some (nd\<lparr>m_rc := 0\<rparr>)"] rca True
        by (simp add: set_node_def)
      have d1: "dead ?s1 = insert a (dead s)" using h by (auto simp: dead_def split: if_splits)
      have h1: "heap ?s1 a = Some (nd\<lparr>m_rc := 0\<rparr>)" by simp
      from less.hyps [OF t1 ok1] obtain s2 where
        r2: "dec_ref (m_left nd) ?s1 = Some s2" and ok2: "rc_ok s2 (opt_mset (m_right nd) + R)"
        and d2: "dead s2 = dead ?s1" and nf2: "next_free s2 = next_free ?s1"
        and t2: "total_rc s2 \<le> total_rc ?s1"
        and k2: "\<forall>x\<in>dead ?s1. heap s2 x = heap ?s1 x"
        and sv2: "\<forall>x nd'. heap s2 x = Some nd' \<longrightarrow> (\<exists>nd. heap ?s1 x = Some nd \<and> shape nd' = shape nd)"
        by blast
      from t2 t1 have t2': "total_rc s2 < total_rc s" by simp
      from less.hyps [OF t2' ok2] obtain s3 where
        r3: "dec_ref (m_right nd) s2 = Some s3" and ok3: "rc_ok s3 R"
        and d3: "dead s3 = dead s2" and nf3: "next_free s3 = next_free s2"
        and t3: "total_rc s3 \<le> total_rc s2"
        and k3: "\<forall>x\<in>dead s2. heap s3 x = heap s2 x"
        and sv3: "\<forall>x nd'. heap s3 x = Some nd' \<longrightarrow> (\<exists>nd. heap s2 x = Some nd \<and> shape nd' = shape nd)"
        by blast
      let ?s' = "free_node a s3"
      have h3: "heap s3 a = Some (nd\<lparr>m_rc := 0\<rparr>)"
        using k3 k2 d2 d1 h1 by simp
      have a3: "a < next_free s3" using nf3 nf2 alt by simp
      have run: "dec_ref p s = Some ?s'"
        unfolding Some using h True r2 r3 by (subst dec_ref.simps) simp
      have lr': "live_refs ?s' = live_refs s3"
        unfolding free_node_def
        by (rule live_refs_same_refs [OF a3]) (simp add: h3 cell_refs_def)
      have ok': "rc_ok ?s' R"
        unfolding rc_ok_def
      proof (intro conjI allI impI)
        fix x assume "heap ?s' x \<noteq> None"
        then have "heap s3 x \<noteq> None" by (auto simp: free_node_def split: if_splits)
        with ok3 show "x < next_free ?s'" by (auto simp: rc_ok_def free_node_def)
      next
        fix x
        have "rc_of ?s' x = rc_of s3 x" using h3 by (auto simp: rc_of_def free_node_def)
        then show "rc_of ?s' x = count (live_refs ?s' + R) x"
          unfolding lr' using rc_okD(2) [OF ok3, of x] by simp
      qed
      have an: "a \<notin> dead s" using h True by (auto simp: dead_def)
      have "dead ?s' = dead s3 - {a}" by (auto simp: dead_def free_node_def)
      with d3 d2 d1 an have dd': "dead ?s' = dead s" by auto
      have nf': "next_free ?s' = next_free s" using nf3 nf2 by (simp add: free_node_def)
      have "total_rc ?s' + rc_of s3 a = total_rc s3"
        using total_rc_heap_upd [OF a3, of None] by (simp add: free_node_def)
      with t3 t2' have tr': "total_rc ?s' \<le> total_rc s" by simp
      have dk': "\<forall>x\<in>dead s. heap ?s' x = heap s x"
      proof
        fix x assume x: "x \<in> dead s"
        with an have xa: "x \<noteq> a" by auto
        from x d1 have x1: "x \<in> dead ?s1" by simp
        with d2 have x2: "x \<in> dead s2" by simp
        from k3 x2 k2 x1 xa show "heap ?s' x = heap s x" by (simp add: free_node_def)
      qed
      have sv': "\<forall>x nd'. heap ?s' x = Some nd' \<longrightarrow> (\<exists>nd. heap s x = Some nd \<and> shape nd' = shape nd)"
      proof (intro allI impI)
        fix x nd' assume "heap ?s' x = Some nd'"
        then have xa: "x \<noteq> a" and x3: "heap s3 x = Some nd'"
          by (auto simp: free_node_def split: if_splits)
        from sv3 x3 obtain n2 where x2: "heap s2 x = Some n2" and e2: "shape nd' = shape n2" by blast
        from sv2 x2 obtain n1 where x1: "heap ?s1 x = Some n1" and e1: "shape n2 = shape n1" by blast
        from x1 xa have "heap s x = Some n1" by simp
        with e1 e2 show "\<exists>nd. heap s x = Some nd \<and> shape nd' = shape nd" by simp
      qed
      from run ok' dd' nf' tr' dk' sv' show ?thesis by blast
    qed
  qed
qed

lemma pull_max_loop_step:
  assumes "heap s a = Some nd0"
    and "(if is_shared nd0 then do {
            (a', s) \<leftarrow> copy_node a s;
            (s, m_ptr) \<leftarrow> update_parent path a' (s, m_ptr);
            Some (a', s, m_ptr)
          } else Some (a, s, m_ptr)) = Some (a', s', m')"
    and "heap s' a' = Some nd"
  shows "pull_max_loop s m_ptr path a =
     (case m_right nd of
        Some r \<Rightarrow> pull_max_loop s' m' ((True, a') # path) r
      | None \<Rightarrow> Some (s', m', path, a'))"
  using assms by (subst pull_max_loop.simps) simp

lemma pull_max_loop_correct:
  assumes "dinv s m_ptr Q path (Some a) tpath (Node l x r)"
  shows "\<exists>s' m' path' a'. pull_max_loop s m_ptr path a = Some (s', m', path', a') \<and>
     binv s' m' Q path' a' (fst (descend_max_t tpath l x r)) (snd (descend_max_t tpath l x r))"
  using assms
proof (induction tpath l x r arbitrary: s m_ptr path a rule: descend_max_t.induct)
  case (1 tpath l x)
  let ?P = "snd ` set path"
  from "1.prems" have hg: "hang s ?P (Some a) (Node l x Leaf)" by (auto simp: dinv_def)
  then obtain nd0 where h0: "heap s a = Some nd0" by (auto simp: hang_Some_iff)
  from dinv_unshare [OF "1.prems" h0]
  obtain a' s' m' nd where
    U: "(if is_shared nd0 then do {
         (a', s) \<leftarrow> copy_node a s;
         (s, m_ptr) \<leftarrow> update_parent path a' (s, m_ptr);
         Some (a', s, m_ptr)
       } else Some (a, s, m_ptr)) = Some (a', s', m')"
    and inv': "dinv s' m' Q path (Some a') tpath (Node l x Leaf)"
    and h: "heap s' a' = Some nd" and rc: "m_rc nd = 1"
    by blast
  from inv' have "hang s' ?P (Some a') (Node l x Leaf)" by (auto simp: dinv_def)
  with h have "hang s' ?P (m_right nd) Leaf" by (auto simp: hang_Some_iff)
  then have mr: "m_right nd = None" by (rule hang_Leaf_None)
  have "binv s' m' Q path a' tpath (l, x, Leaf)" by (rule dinv_binv [OF inv' h rc])
  with pull_max_loop_step [OF h0 U h] mr show ?case by simp
next
  case (2 tpath l x rl rx rr)
  let ?P = "snd ` set path"
  let ?r = "Node rl rx rr"
  from "2.prems" have hg: "hang s ?P (Some a) (Node l x ?r)" by (auto simp: dinv_def)
  then obtain nd0 where h0: "heap s a = Some nd0" by (auto simp: hang_Some_iff)
  from dinv_unshare [OF "2.prems" h0]
  obtain a' s' m' nd where
    U: "(if is_shared nd0 then do {
         (a', s) \<leftarrow> copy_node a s;
         (s, m_ptr) \<leftarrow> update_parent path a' (s, m_ptr);
         Some (a', s, m_ptr)
       } else Some (a, s, m_ptr)) = Some (a', s', m')"
    and inv': "dinv s' m' Q path (Some a') tpath (Node l x ?r)"
    and h: "heap s' a' = Some nd" and rc: "m_rc nd = 1"
    by blast
  from inv' have "hang s' ?P (Some a') (Node l x ?r)" by (auto simp: dinv_def)
  with h have "hang s' ?P (m_right nd) ?r" by (auto simp: hang_Some_iff)
  then obtain c where mr: "m_right nd = Some c" by (cases "m_right nd") auto
  from dinv_push(1) [OF inv' h rc, of True]
  have "dinv s' m' Q ((True, a') # path) (Some c) ((True, (l, x, ?r)) # tpath) ?r"
    by (simp add: slot_def mr)
  from "2.IH" [OF this] pull_max_loop_step [OF h0 U h] mr
  show ?case by simp
qed

lemma pull_max_correct:
  assumes inv: "hinv s p Q t" and b: "bst cmp (pull_max_t t)"
  shows "\<exists>s' p'. pull_max cmp (s, p) = Some (s', p') \<and> hinv s' p' Q (pull_max_t t) \<and>
      (\<forall>a. p' = Some a \<longrightarrow> rc_of s' a = 1)"
proof (cases p)
  case None
  with inv have "t = Leaf" by (simp add: hinv_def repr_def)
  with None inv show ?thesis by (simp add: pull_max_def pull_max_t_def)
next
  case (Some root)
  with inv obtain l x r where t: "t = Node l x r"
    by (auto simp: hinv_def repr_def hang_Some_iff)
  from inv have d0: "dinv s (Some root) Q [] (Some root) [] (Node l x r)"
    by (simp add: hinv_def dinv_def repr_def Some t)
  obtain tpath tn where dm: "descend_max_t [] l x r = (tpath, tn)" by (cases "descend_max_t [] l x r")
  from pull_max_loop_correct [OF d0] obtain s1 m1 path1 a where
    lp: "pull_max_loop s (Some root) [] root = Some (s1, m1, path1, a)"
    and bi: "binv s1 m1 Q path1 a tpath tn"
    unfolding dm by auto
  have pm: "pull_max_t t = ptr (splay_to_top_t tpath tn)" by (simp add: pull_max_t_def t dm)
  from binv_splay [OF bi] obtain s' where st: "splay_to_top path1 a s1 = Some s'"
    and ok': "rc_ok s' (opt_mset (Some a) + roots_mset (map fst Q))" and dd': "dead s' = {}"
    and rp: "repr s' (Some a) (ptr (splay_to_top_t tpath tn))"
    and rq: "\<forall>q\<in>set Q. repr s' (fst q) (snd q)"
    and r1: "rc_of s' a = 1"
    by blast
  from b have "bst cmp (ptr (splay_to_top_t tpath tn))" unfolding pm by simp
  from check_invariant_hang [OF rp [unfolded repr_def] this]
  have ci: "check_invariant cmp s' (Some a) = Some True" .
  have "pull_max cmp (s, p) = Some (s', Some a)"
    using lp st ci by (simp add: pull_max_def Some)
  with ok' dd' rp rq r1 show ?thesis unfolding pm hinv_def by simp
qed

lemma to_buffer_hang:
  "hang s M n t \<Longrightarrow> to_buffer s n r = Some (r @ to_buffer_t t)"
proof (induction arbitrary: r rule: hang.induct)
  case hang_Leaf
  show ?case by (subst to_buffer.simps) simp
next
  case (hang_Node a nd l rt)
  show ?case
    by (subst to_buffer.simps) (simp add: hang_Node.hyps(1) hang_Node.IH)
qed

lemma find_loop_hang:
  "hang s M n t \<Longrightarrow>
   \<exists>r. find_loop cmp v s n = Some r \<and>
     (case r of None \<Rightarrow> find_t cmp v t = None
      | Some a \<Rightarrow> (\<exists>nd. heap s a = Some nd \<and> find_t cmp v t = Some (m_value nd)))"
proof (induction rule: hang.induct)
  case hang_Leaf
  show ?case by (subst find_loop.simps) simp
next
  case (hang_Node a nd l rt)
  show ?case
    using hang_Node.IH hang_Node.hyps(1)
    by (subst find_loop.simps) (auto simp: Let_def split: option.splits)
qed

section \<open>Store model: each operation on a handle computes its value-model counterpart\<close>

lemma hinv_root_live: "hinv s p Q t \<Longrightarrow> live_ptr s p"
proof (cases p)
  case None then show ?thesis by (simp add: live_ptr_def)
next
  case (Some a)
  assume "hinv s p Q t"
  then have "rc_ok s (opt_mset p + roots_mset (map fst Q))" by (simp add: hinv_def)
  from root_live [OF this, of a] Some show ?thesis by (auto simp: live_ptr_def)
qed

lemma hinv_child_live:
  assumes "hinv s (Some a) Q t" and "heap s a = Some nd" and "q = m_left nd \<or> q = m_right nd"
  shows "live_ptr s q"
proof (cases q)
  case None then show ?thesis by (simp add: live_ptr_def)
next
  case (Some c)
  with assms(3) have "m_left nd = Some c \<or> m_right nd = Some c" by auto
  then have c: "c \<in># node_refs nd" by (auto simp: node_refs_def)
  from assms(1) have ok: "rc_ok s (opt_mset (Some a) + roots_mset (map fst Q))" and dd: "dead s = {}"
    by (simp_all add: hinv_def)
  from ref_live [OF ok dd assms(2) c] Some show ?thesis by (auto simp: live_ptr_def)
qed

lemma hinv_inc:
  assumes inv: "hinv s p Q t" and lq: "live_ptr s q" and rq: "repr s q tq"
  shows "\<exists>s'. inc_ref q s = Some s' \<and> hinv s' p ((q, tq) # Q) t \<and>
      (\<forall>a. rc_of s' a = rc_of s a + count (opt_mset q) a) \<and>
      (\<forall>a. map_option shape (heap s' a) = map_option shape (heap s a))"
proof -
  from inv have ok: "rc_ok s (opt_mset p + roots_mset (map fst Q))" and dd: "dead s = {}"
    and rp: "repr s p t" and rQ: "\<forall>x\<in>set Q. repr s (fst x) (snd x)"
    by (simp_all add: hinv_def)
  from inc_ref_opt [OF ok lq] obtain s' where
    i: "inc_ref q s = Some s'" and ok': "rc_ok s' (opt_mset p + roots_mset (map fst Q) + opt_mset q)"
    and dd': "dead s' = dead s"
    and sh: "\<forall>a. map_option shape (heap s' a) = map_option shape (heap s a)"
    and rc: "\<forall>a. rc_of s' a = rc_of s a + count (opt_mset q) a"
    by blast
  have fr: "frame {} s s'" by (rule frame_shape) (use sh in simp)
  have 1: "repr s' p t" using hang_frame [OF rp [unfolded repr_def] fr] by (simp add: repr_def)
  have 2: "repr s' q tq" using hang_frame [OF rq [unfolded repr_def] fr] by (simp add: repr_def)
  have 3: "\<forall>x\<in>set Q. repr s' (fst x) (snd x)"
    using rQ hang_frame [OF _ fr] unfolding repr_def by blast
  have "hinv s' p ((q, tq) # Q) t"
    unfolding hinv_def using ok' dd' dd 1 2 3 by (simp add: ac_simps)
  with i rc sh show ?thesis by blast
qed

lemma hinv_dec:
  assumes inv: "hinv s p Q t"
  shows "\<exists>s'. dec_ref p s = Some s' \<and> hinv s' None Q Leaf"
proof -
  from inv have ok: "rc_ok s (opt_mset p + roots_mset (map fst Q))" and dd: "dead s = {}"
    and rQ: "\<forall>x\<in>set Q. repr s (fst x) (snd x)"
    by (simp_all add: hinv_def)
  from dec_ref_correct [OF ok] obtain s' where
    d: "dec_ref p s = Some s'" and ok': "rc_ok s' (roots_mset (map fst Q))" and dd': "dead s' = dead s"
    and sv: "\<forall>x nd'. heap s' x = Some nd' \<longrightarrow> (\<exists>nd. heap s x = Some nd \<and> shape nd' = shape nd)"
    by blast
  have "\<forall>x\<in>set Q. repr s' (fst x) (snd x)"
  proof
    fix x assume x: "x \<in> set Q"
    have "live_ptr s' (fst x)"
    proof (cases "fst x")
      case None then show ?thesis by (simp add: live_ptr_def)
    next
      case (Some a)
      with x have "Some a \<in> set (map fst Q)" by force
      then have "a \<in># roots_mset (map fst Q)" by (simp add: roots_mset_member)
      from root_live [OF ok' this] Some show ?thesis by (auto simp: live_ptr_def)
    qed
    from hang_survive [OF _ ok' sv this] rQ x show "repr s' (fst x) (snd x)"
      unfolding repr_def by blast
  qed
  with ok' dd' dd have "hinv s' None Q Leaf" by (simp add: hinv_def repr_def)
  with d show ?thesis by blast
qed

lemma hinv_swap: "hinv s p ((q, tq) # Q) t \<Longrightarrow> hinv s q ((p, t) # Q) tq"
  by (auto simp: hinv_def ac_simps)

lemma hinv_drop_null: "hinv s p ((None, tq) # Q) t \<Longrightarrow> hinv s p Q t"
  by (auto simp: hinv_def)

lemma hinv_join:
  assumes inv: "hinv s (Some lroot) ((Some rroot, R) # (Some rroot, R) # Q) (Node l m Leaf)"
    and r1: "rc_of s lroot = 1"
  shows "\<exists>s' ln. heap s lroot = Some ln \<and> m_right ln = None \<and>
      write_right lroot (Some rroot) s = Some s' \<and>
      hinv s' (Some lroot) ((Some rroot, R) # Q) (Node l m R)"
proof -
  let ?Rs = "roots_mset (map fst Q)"
  let ?R = "opt_mset (Some lroot) + roots_mset (map fst ((Some rroot, R) # (Some rroot, R) # Q))"
  from inv have ok: "rc_ok s ?R" and dd: "dead s = {}"
    and rp: "repr s (Some lroot) (Node l m Leaf)" and rr: "repr s (Some rroot) R"
    and rQ: "\<forall>x\<in>set Q. repr s (fst x) (snd x)"
    by (simp_all add: hinv_def)
  from rp obtain ln where h: "heap s lroot = Some ln" and v: "m_value ln = m"
    and hl0: "hang s {} (m_left ln) l" and mr: "m_right ln = None"
    by (auto simp: repr_def hang_Some_iff dest: hang_Leaf_None)
  from r1 h have rc: "m_rc ln = 1" by (simp add: rc_of_def)
  have inR: "lroot \<in># ?R" by simp
  note u = unique_referrer_root [OF ok dd r1 inR]
  have ne: "rroot \<noteq> lroot"
  proof
    assume "rroot = lroot"
    then have "count ?R lroot \<ge> 2" by simp
    with u(1) show False by simp
  qed
  have nQ: "\<And>x. x \<in> set Q \<Longrightarrow> fst x \<noteq> Some lroot"
  proof
    fix x assume x: "x \<in> set Q" and e: "fst x = Some lroot"
    then have "Some lroot \<in> set (map fst Q)" by force
    then have "lroot \<in># ?Rs" by (simp add: roots_mset_member)
    then have "0 < count ?Rs lroot" by (simp only: count_greater_zero_iff)
    then have "count ?R lroot \<ge> 2" by simp
    with u(1) show False by simp
  qed
  have cl: "\<forall>b nb. heap s b = Some nb \<longrightarrow> b \<notin> {} \<longrightarrow> lroot \<notin># node_refs nb"
    using u(2) by blast
  let ?ln' = "ln\<lparr>m_right := Some rroot\<rparr>"
  let ?s' = "set_node lroot ?ln' s"
  have w: "write_right lroot (Some rroot) s = Some ?s'"
    using h rc by (simp add: write_right_def is_shared_def)
  have so: "same_outside {lroot} s ?s'" by (simp add: same_outside_def)
  have fr: "frame {lroot} s ?s'" by (rule same_outside_frame [OF so]) simp
  have ok': "rc_ok ?s' (opt_mset (Some lroot) + roots_mset (map fst ((Some rroot, R) # Q)))"
    by (rule rc_ok_relink [OF ok h]) (simp_all add: rc node_refs_def mr)
  have dd': "dead ?s' = {}" using dd h rc by (auto simp: dead_def split: if_splits)
  from hang_children [OF rp [unfolded repr_def] h]
  have hl: "hang s {lroot} (m_left ln) l" by auto
  have hR: "hang s {lroot} (Some rroot) R"
    using hang_extend [OF rr [unfolded repr_def] _ cl] ne by simp
  have hl': "hang ?s' {} (m_left ?ln') l"
    using hang_mono [OF hang_frame [OF hl fr]] by simp
  have hR': "hang ?s' {} (Some rroot) R"
    using hang_mono [OF hang_frame [OF hR fr]] by simp
  have "hang ?s' {} (Some lroot) (Node l (m_value ?ln') R)"
    by (rule hang.hang_Node [OF _ _ hl']) (use hR' in simp_all)
  then have rp': "repr ?s' (Some lroot) (Node l m R)" using v by (simp add: repr_def)
  have rQ': "\<forall>x\<in>set Q. repr ?s' (fst x) (snd x)"
  proof
    fix x assume x: "x \<in> set Q"
    from rQ x have "hang s {} (fst x) (snd x)" by (simp add: repr_def)
    from hang_extend [OF this nQ [OF x] cl] have "hang s {lroot} (fst x) (snd x)" by simp
    from hang_mono [OF hang_frame [OF this fr]] show "repr ?s' (fst x) (snd x)"
      by (simp add: repr_def)
  qed
  have "hinv ?s' (Some lroot) ((Some rroot, R) # Q) (Node l m R)"
    unfolding hinv_def using ok' dd' rp' rQ' hR' by (simp add: repr_def)
  with h mr w show ?thesis by blast
qed

lemma bst_pull: "bst cmp t \<Longrightarrow> bst cmp (snd (pull_t cmp v t))"
  by (simp add: bst_def pull_inorder)

lemma pull_correct:
  assumes inv: "hinv s p Q t" and b: "bst cmp t"
  shows "\<exists>s' p'. pull cmp v (s, p) = Some (fst (pull_t cmp v t), s', p') \<and>
      hinv s' p' Q (snd (pull_t cmp v t))"
  using insert_pull_correct [OF inv, of cmp v False] bst_pull [OF b, of v]
  by (simp add: pull_def pull_t_def)

lemma insert_h_correct:
  assumes inv: "hinv s p Q t" and ok: "cmp_ok cmp" and b: "bst cmp t"
  shows "\<exists>s' p'. insert_h cmp v (s, p) = Some (s', p') \<and> hinv s' p' Q (insert_t cmp v t)"
proof -
  from insert_sorted_set [OF ok b, of v] have "bst cmp (snd (insert_pull_t cmp v True t))"
    by (simp add: insert_t_def)
  from insert_pull_correct [OF inv this] show ?thesis
    by (auto simp: insert_h_def insert_t_def)
qed

lemma clear_correct:
  assumes inv: "hinv s p Q t"
  shows "\<exists>s'. clear (s, p) = Some (s', None) \<and> hinv s' None Q (clear_t t)"
  using hinv_dec [OF inv] by (auto simp: clear_def clear_t_def)

lemma copy_handle_correct:
  assumes inv: "hinv s p Q t"
  shows "\<exists>s'. copy_handle (s, p) = Some (s', p) \<and> hinv s' p ((p, t) # Q) t"
proof -
  from inv have rp: "repr s p t" by (simp add: hinv_def)
  from hinv_inc [OF inv hinv_root_live [OF inv] rp] show ?thesis
    by (auto simp: copy_handle_def)
qed

lemma destroy_handle_correct:
  assumes inv: "hinv s p Q t"
  shows "\<exists>s'. destroy_handle (s, p) = Some s' \<and> hinv s' None Q Leaf"
  using hinv_dec [OF inv] by (simp add: destroy_handle_def)

lemma find_memoize_correct:
  assumes inv: "hinv s p Q t" and ok: "cmp_ok cmp" and b: "bst cmp t"
  shows "\<exists>r s' p'. find_memoize cmp v (s, p) = Some (r, s', p') \<and>
      hinv s' p' Q (snd (find_memoize_t cmp v t)) \<and>
      (case r of None \<Rightarrow> fst (find_memoize_t cmp v t) = None
       | Some a \<Rightarrow> p' = Some a \<and> (\<exists>nd. heap s' a = Some nd \<and> fst (find_memoize_t cmp v t) = Some (m_value nd)))"
proof -
  from pull_correct [OF inv b, of v] obtain s' p' where
    pl: "pull cmp v (s, p) = Some (fst (pull_t cmp v t), s', p')"
    and inv': "hinv s' p' Q (snd (pull_t cmp v t))" by blast
  show ?thesis
  proof (cases "fst (pull_t cmp v t)")
    case True
    from find_memoize_found [OF True] obtain l x r where
      fm: "find_memoize_t cmp v t = (Some x, Node l x r)" and e: "cmp v x = 0" by blast
    have sn: "snd (pull_t cmp v t) = Node l x r" using find_memoize_snd [of cmp v t] fm by simp
    from inv' obtain a nd where p': "p' = Some a" and h: "heap s' a = Some nd" and v: "m_value nd = x"
      unfolding sn by (cases p') (auto simp: hinv_def repr_def hang_Some_iff)
    have xv: "cmp x v = 0" using e cmp_sym [OF ok] by blast
    have "find_memoize cmp v (s, p) = Some (Some a, s', p')"
      using pl True p' h v xv by (simp add: find_memoize_def)
    with inv' p' h v show ?thesis unfolding find_memoize_snd fm sn by simp
  next
    case False
    have "find_memoize cmp v (s, p) = Some (None, s', p')"
      using pl False by (simp add: find_memoize_def)
    with inv' find_memoize_not_found [OF False] show ?thesis unfolding find_memoize_snd by simp
  qed
qed

lemma hinv_rotate: "hinv s None ((q, tq) # (p, t) # Q) Leaf \<Longrightarrow> hinv s p ((q, tq) # Q) t"
  by (auto simp: hinv_def ac_simps)

lemma hinv_focus: "hinv s None ((p, t) # Q) Leaf \<Longrightarrow> hinv s p Q t"
  by (auto simp: hinv_def ac_simps)

lemma hinv_root:
  assumes "hinv s p Q (Node l x r)"
  shows "\<exists>a nd. p = Some a \<and> heap s a = Some nd \<and> m_value nd = x \<and>
     repr s (m_left nd) l \<and> repr s (m_right nd) r \<and>
     (m_left nd = None) = (l = Leaf) \<and> (m_right nd = None) = (r = Leaf)"
proof -
  from assms have "hang s {} p (Node l x r)" by (simp add: hinv_def repr_def)
  then obtain a nd where p: "p = Some a" and h: "heap s a = Some nd" and v: "m_value nd = x"
    and hl: "hang s {} (m_left nd) l" and hr: "hang s {} (m_right nd) r"
    by (cases p) (auto simp: hang_Some_iff)
  have 1: "(m_left nd = None) = (l = Leaf)"
    using hl by (cases "m_left nd") (auto simp: hang_Some_iff)
  have 2: "(m_right nd = None) = (r = Leaf)"
    using hr by (cases "m_right nd") (auto simp: hang_Some_iff)
  from p h v hl hr 1 2 show ?thesis by (simp add: repr_def)
qed

lemma erase_correct:
  assumes inv: "hinv s p Q t" and ok: "cmp_ok cmp" and b: "bst cmp t"
  shows "\<exists>s' p'. erase cmp v (s, p) = Some (s', p') \<and> hinv s' p' Q (erase_t cmp v t)"
proof -
  from pull_correct [OF inv b, of v] obtain s1 p1 where
    pl: "pull cmp v (s, p) = Some (fst (pull_t cmp v t), s1, p1)"
    and inv1: "hinv s1 p1 Q (snd (pull_t cmp v t))" by blast
  show ?thesis
  proof (cases "fst (pull_t cmp v t)")
    case False
    have "erase cmp v (s, p) = Some (s1, p1)" using pl False by (simp add: erase_def)
    with inv1 erase_not_found [OF False] show ?thesis by simp
  next
    case True
    from pull_found_root [OF True] obtain L x R where
      sn: "snd (pull_t cmp v t) = Node L x R" and e: "cmp v x = 0" by blast
    have pt: "pull_t cmp v t = (True, Node L x R)" using True sn by (cases "pull_t cmp v t") auto
    have xv: "cmp x v = 0" using e cmp_sym [OF ok] by blast
    have b1: "bst cmp (Node L x R)" using bst_pull [OF b, of v] sn by simp
    note inv1' = inv1 [unfolded sn]
    from hinv_root [OF inv1'] obtain root nd where p1: "p1 = Some root"
      and h1: "heap s1 root = Some nd" and v1: "m_value nd = x"
      and rL: "repr s1 (m_left nd) L" and rR: "repr s1 (m_right nd) R"
      and nL: "(m_left nd = None) = (L = Leaf)" and nR: "(m_right nd = None) = (R = Leaf)"
      by (elim exE conjE) (rule that)
    let ?ml = "m_left nd" and ?mr = "m_right nd"
    have lL: "live_ptr s1 ?ml" by (rule hinv_child_live [OF inv1' [unfolded p1] h1]) simp
    from hinv_inc [OF inv1' lL rL] obtain s2 where
      i2: "inc_ref ?ml s1 = Some s2" and inv2: "hinv s2 p1 ((?ml, L) # Q) (Node L x R)"
      and sh2: "\<forall>a. map_option shape (heap s2 a) = map_option shape (heap s1 a)"
      by blast
    from hinv_root [OF inv2] p1 obtain nd2 where
      h2: "heap s2 root = Some nd2" and rR2: "repr s2 (m_right nd2) R" by auto
    from sh2 h1 h2 have "shape nd2 = shape nd" by (metis option.simps(9) option.inject)
    then have mr2: "m_right nd2 = ?mr" by (simp add: shape_def)
    have lR: "live_ptr s2 ?mr"
      using hinv_child_live [OF inv2 [unfolded p1] h2, of "m_right nd2"] mr2 by simp
    from hinv_inc [OF inv2 lR rR2 [unfolded mr2]] obtain s3 where
      i3: "inc_ref ?mr s2 = Some s3"
      and inv3: "hinv s3 p1 ((?mr, R) # (?ml, L) # Q) (Node L x R)"
      by blast
    have c2: "copy_handle (s1, ?ml) = Some (s2, ?ml)" using i2 by (simp add: copy_handle_def)
    have c3: "copy_handle (s2, ?mr) = Some (s3, ?mr)" using i3 by (simp add: copy_handle_def)
    from hinv_dec [OF inv3] obtain s4 where
      d4: "dec_ref p1 s3 = Some s4" and inv4: "hinv s4 None ((?mr, R) # (?ml, L) # Q) Leaf"
      by blast
    have dn: "\<And>z. dec_ref None z = Some z" by (subst dec_ref.simps) simp
    have start: "erase cmp v (s, p) =
        (if empty_h ?ml then do {
           (m_ptr, right) \<leftarrow> Some (swap_h p1 ?mr);
           s \<leftarrow> destroy_handle (s3, right);
           s \<leftarrow> destroy_handle (s, ?ml);
           Some (s, m_ptr)
         } else if empty_h ?mr then do {
           (m_ptr, left) \<leftarrow> Some (swap_h p1 ?ml);
           s \<leftarrow> destroy_handle (s3, ?mr);
           s \<leftarrow> destroy_handle (s, left);
           Some (s, m_ptr)
         } else do {
           (s, m_ptr) \<leftarrow> clear (s3, p1);
           (s, left) \<leftarrow> pull_max cmp (s, ?ml);
           (case (left, ?mr) of
              (Some lroot, Some rroot) \<Rightarrow>
                (case heap s lroot of
                   None \<Rightarrow> None
                 | Some ln \<Rightarrow>
                     if m_right ln \<noteq> None then None
                     else do {
                       s \<leftarrow> inc_ref (Some rroot) s;
                       s \<leftarrow> write_right lroot (Some rroot) s;
                       (m_ptr, left) \<leftarrow> Some (swap_h m_ptr left);
                       s \<leftarrow> destroy_handle (s, ?mr);
                       s \<leftarrow> destroy_handle (s, left);
                       Some (s, m_ptr)
                     })
            | _ \<Rightarrow> None)
         })"
      unfolding erase_def using pl True p1 h1 v1 xv c2 c3 by simp
    show ?thesis
    proof (cases "L = Leaf")
      case L: True
      then have ml: "?ml = None" using nL by simp
      have et: "erase_t cmp v t = R" using pt L by (simp add: erase_t_def)
      have "erase cmp v (s, p) = Some (s4, ?mr)"
        unfolding start using ml d4 dn by (simp add: empty_h_def swap_h_def destroy_handle_def)
      moreover have "hinv s4 ?mr Q R"
        using inv4 unfolding ml by (auto simp: hinv_def ac_simps)
      ultimately show ?thesis unfolding et by blast
    next
      case L: False
      then have ml: "?ml \<noteq> None" using nL by simp
      show ?thesis
      proof (cases "R = Leaf")
        case R: True
        then have mr: "?mr = None" using nR by simp
        have et: "erase_t cmp v t = L" using pt L R by (simp add: erase_t_def)
        from ml obtain lp where mll: "?ml = Some lp" by auto
        have "erase cmp v (s, p) = Some (s4, ?ml)"
          unfolding start using d4 dn by (simp add: mll mr empty_h_def swap_h_def destroy_handle_def)
        moreover have "hinv s4 ?ml Q L"
          using inv4 unfolding mr by (auto simp: hinv_def ac_simps)
        ultimately show ?thesis unfolding et by blast
      next
        case R: False
        then have mr: "?mr \<noteq> None" using nR by simp
        then obtain rroot where mrr: "?mr = Some rroot" by auto
        from pull_max_props [OF L] obtain l' m where
          pm: "pull_max_t L = Node l' m Leaf" and tb: "to_buffer_t L = to_buffer_t l' @ [m]" by blast
        have et: "erase_t cmp v t = Node l' m R" using pt L R pm by (simp add: erase_t_def)
        have bL: "bst cmp L" using bst_Node [OF b1] by simp
        have bpm: "bst cmp (pull_max_t L)" using bL unfolding pm bst_def tb by simp
        have c4: "clear (s3, p1) = Some (s4, None)" using d4 by (simp add: clear_def)
        note inv4' = hinv_rotate [OF inv4]
        from pull_max_correct [OF inv4' bpm] obtain s5 p5 where
          pm5: "pull_max cmp (s4, ?ml) = Some (s5, p5)"
          and inv5: "hinv s5 p5 ((?mr, R) # Q) (Node l' m Leaf)"
          and r5: "\<forall>a. p5 = Some a \<longrightarrow> rc_of s5 a = 1"
          unfolding pm by blast
        from hinv_root [OF inv5] obtain lroot ln where p5: "p5 = Some lroot"
          and h5: "heap s5 lroot = Some ln" and mrl: "m_right ln = None"
          by auto
        from r5 p5 have r5': "rc_of s5 lroot = 1" by simp
        from inv5 have ok5: "rc_ok s5 (opt_mset p5 + roots_mset (map fst ((?mr, R) # Q)))"
          and dd5: "dead s5 = {}" and rR5: "repr s5 ?mr R"
          by (simp_all add: hinv_def)
        have "lroot \<in># opt_mset p5 + roots_mset (map fst ((?mr, R) # Q))" using p5 by simp
        from unique_referrer_root(1) [OF ok5 dd5 r5' this]
        have ne: "rroot \<noteq> lroot" using p5 mrr by (auto split: if_splits)
        have lr5: "live_ptr s5 ?mr" by (rule hinv_root_live [OF hinv_swap [OF inv5]])
        from hinv_inc [OF inv5 lr5 rR5] obtain s6 where
          i6: "inc_ref ?mr s5 = Some s6"
          and inv6: "hinv s6 p5 ((?mr, R) # (?mr, R) # Q) (Node l' m Leaf)"
          and rc6: "\<forall>a. rc_of s6 a = rc_of s5 a + count (opt_mset ?mr) a"
          by blast
        have r6: "rc_of s6 lroot = 1" using rc6 r5' ne mrr by simp
        from hinv_join [OF inv6 [unfolded p5 mrr] r6] obtain s7 where
          w7: "write_right lroot (Some rroot) s6 = Some s7"
          and inv7: "hinv s7 (Some lroot) ((Some rroot, R) # Q) (Node l' m R)"
          by blast
        from hinv_dec [OF hinv_swap [OF inv7]] obtain s8 where
          d8: "dec_ref (Some rroot) s7 = Some s8"
          and inv8: "hinv s8 None ((Some lroot, Node l' m R) # Q) Leaf"
          by blast
        from ml obtain lp where mll: "?ml = Some lp" by auto
        have "erase cmp v (s, p) = Some (s8, Some lroot)"
          unfolding start using c4 pm5 [unfolded p5 mll] i6 [unfolded mrr] h5 mrl w7 d8 dn
          by (simp add: mll mrr empty_h_def swap_h_def destroy_handle_def)
        moreover have "hinv s8 (Some lroot) Q (Node l' m R)" by (rule hinv_focus [OF inv8])
        ultimately show ?thesis unfolding et by blast
      qed
    qed
  qed
qed

lemma count_opt_mset: "count (opt_mset h) a = (if h = Some a then 1 else 0)"
  by (cases h) auto

lemma count_roots_mset: "count (roots_mset hs) a = length (filter (\<lambda>h. h = Some a) hs)"
  by (induction hs) (auto simp: count_opt_mset)

lemma count_live_refs:
  assumes "dead s = {}"
  shows "count (live_refs s) a =
     (\<Sum>b<next_free s. case heap s b of
         None \<Rightarrow> 0
       | Some nb \<Rightarrow> (if m_left nb = Some a then 1 else 0) + (if m_right nb = Some a then 1 else 0))"
proof -
  have "\<And>b. count (cell_refs (heap s b)) a =
      (case heap s b of None \<Rightarrow> 0
       | Some nb \<Rightarrow> (if m_left nb = Some a then 1 else 0) + (if m_right nb = Some a then 1 else 0))"
  proof -
    fix b
    show "count (cell_refs (heap s b)) a =
      (case heap s b of None \<Rightarrow> 0
       | Some nb \<Rightarrow> (if m_left nb = Some a then 1 else 0) + (if m_right nb = Some a then 1 else 0))"
    proof (cases "heap s b")
      case None then show ?thesis by (simp add: cell_refs_def)
    next
      case (Some nb)
      with assms have "m_rc nb \<noteq> 0" by (auto simp: dead_def)
      with Some show ?thesis by (simp add: cell_refs_def node_refs_def count_opt_mset)
    qed
  qed
  then show ?thesis by (simp add: live_refs_def count_sum)
qed

lemma hinv_counted:
  assumes "hinv s p Q t"
  shows "counted s (p # map fst Q)"
  unfolding counted_def
proof (intro allI impI)
  fix a nd assume h: "heap s a = Some nd"
  from assms have ok: "rc_ok s (opt_mset p + roots_mset (map fst Q))" and dd: "dead s = {}"
    by (simp_all add: hinv_def)
  from h dd have 1: "1 \<le> m_rc nd" by (auto simp: dead_def Suc_le_eq)
  have "m_rc nd = rc_of s a" using h by (simp add: rc_of_def)
  also have "\<dots> = count (live_refs s) a + count (roots_mset (p # map fst Q)) a"
    using rc_okD(2) [OF ok, of a] by simp
  also have "\<dots> = incoming s (p # map fst Q) a"
    unfolding incoming_def count_live_refs [OF dd] count_roots_mset by simp
  finally show "1 \<le> m_rc nd \<and> m_rc nd = incoming s (p # map fst Q) a" using 1 by simp
qed

lemma hinv_to_buffer: "hinv s p Q t \<Longrightarrow> to_buffer s p [] = Some (to_buffer_t t)"
  using to_buffer_hang [of s "{}" p t "[]"] by (simp add: hinv_def repr_def)

lemma hinv_to_buffer_other:
  "hinv s p Q t \<Longrightarrow> q \<in> set Q \<Longrightarrow> to_buffer s (fst q) [] = Some (to_buffer_t (snd q))"
  using to_buffer_hang [of s "{}" "fst q" "snd q" "[]"] by (simp add: hinv_def repr_def)

lemma insert_copy_correct:
  assumes inv: "hinv s p Q t" and ok: "cmp_ok cmp" and b: "bst cmp t"
  shows "\<exists>s' r. insert_copy cmp v (s, p) = Some (s', r) \<and> hinv s' r ((p, t) # Q) (insert_t cmp v t)"
proof -
  from copy_handle_correct [OF inv] obtain s1 where
    c: "copy_handle (s, p) = Some (s1, p)" and i1: "hinv s1 p ((p, t) # Q) t" by blast
  from insert_h_correct [OF i1 ok b, of v] c show ?thesis by (simp add: insert_copy_def)
qed

lemma erase_copy_correct:
  assumes inv: "hinv s p Q t" and ok: "cmp_ok cmp" and b: "bst cmp t"
  shows "\<exists>s' r. erase_copy cmp v (s, p) = Some (s', r) \<and> hinv s' r ((p, t) # Q) (erase_t cmp v t)"
proof -
  from copy_handle_correct [OF inv] obtain s1 where
    c: "copy_handle (s, p) = Some (s1, p)" and i1: "hinv s1 p ((p, t) # Q) t" by blast
  from erase_correct [OF i1 ok b, of v] c show ?thesis by (simp add: erase_copy_def)
qed

lemma hinv_shared_pair:
  "hinv shared_pair (Some 0) [(Some 0, Node Leaf 1 Leaf)] (Node Leaf 1 Leaf)"
  by (auto simp: hinv_def rc_ok_def dead_def repr_def hang_Some_iff shared_pair_def live_refs_def
      cell_refs_def node_refs_def rc_of_def)

lemma hinv_empty: "hinv empty_store None [] Leaf"
  by (auto simp: hinv_def rc_ok_def dead_def repr_def empty_store_def live_refs_def rc_of_def)

lemma find_h_correct:
  assumes "hinv s p Q t"
  shows "\<exists>r. find_h cmp v (s, p) = Some r \<and>
     (case r of None \<Rightarrow> find_t cmp v t = None
      | Some a \<Rightarrow> (\<exists>nd. heap s a = Some nd \<and> find_t cmp v t = Some (m_value nd)))"
  using find_loop_hang [of s "{}" p t cmp v] assms by (simp add: hinv_def repr_def find_h_def)

lemma contains_correct:
  assumes "hinv s p Q t"
  shows "contains cmp v (s, p) = Some (contains_t cmp v t)"
proof -
  from find_h_correct [OF assms, of cmp v] obtain r where
    f: "find_h cmp v (s, p) = Some r"
    and c: "case r of None \<Rightarrow> find_t cmp v t = None
      | Some a \<Rightarrow> (\<exists>nd. heap s a = Some nd \<and> find_t cmp v t = Some (m_value nd))" by blast
  show ?thesis using f c by (cases r) (auto simp: contains_def contains_t_def)
qed

lemma find_visits_hang:
  "hang s M n t \<Longrightarrow> find_visits cmp v s n k = Some (k + find_visits_t cmp v t)"
proof (induction arbitrary: k rule: hang.induct)
  case hang_Leaf
  show ?case by (subst find_visits.simps) simp
next
  case (hang_Node a nd l r)
  show ?case
    by (subst find_visits.simps) (simp add: hang_Node.hyps(1) hang_Node.IH Let_def)
qed

lemma check_invariant_correct:
  "hinv s p Q t \<Longrightarrow> bst cmp t \<Longrightarrow> check_invariant cmp s p = Some True"
  using check_invariant_hang [of s "{}" p t cmp] by (simp add: hinv_def repr_def)

lemma bst_one: "bst int_cmp (Node Leaf 1 Leaf)"
  by (simp add: bst_def)

lemma bst_pull_max: "bst cmp t \<Longrightarrow> bst cmp (pull_max_t t)"
proof (cases "t = Leaf")
  case True
  then show ?thesis by (simp add: pull_max_t_def bst_Leaf)
next
  case False
  assume b: "bst cmp t"
  from pull_max_props [OF False] obtain l m where
    pm: "pull_max_t t = Node l m Leaf" and tb: "to_buffer_t t = to_buffer_t l @ [m]" by blast
  show ?thesis using b unfolding pm bst_def tb by simp
qed

lemma find_memoize_root:
  assumes inv: "hinv s p Q t" and ok: "cmp_ok cmp" and b: "bst cmp t"
  shows "\<exists>r s' p'. find_memoize cmp v (s, p) = Some (r, s', p') \<and>
      hinv s' p' Q (snd (find_memoize_t cmp v t)) \<and>
      (case r of None \<Rightarrow> fst (find_memoize_t cmp v t) = None
       | Some a \<Rightarrow> p' = Some a \<and>
           (\<exists>nd. heap s' a = Some nd \<and> fst (find_memoize_t cmp v t) = Some (m_value nd)) \<and>
           find_h cmp v (s', p') = Some (Some a) \<and> find_visits cmp v s' p' 0 = Some 1)"
proof -
  from find_memoize_correct [OF inv ok b, of v] obtain r s' p' where
    f: "find_memoize cmp v (s, p) = Some (r, s', p')"
    and i': "hinv s' p' Q (snd (find_memoize_t cmp v t))"
    and c: "case r of None \<Rightarrow> fst (find_memoize_t cmp v t) = None
       | Some a \<Rightarrow> p' = Some a \<and>
           (\<exists>nd. heap s' a = Some nd \<and> fst (find_memoize_t cmp v t) = Some (m_value nd))"
    by blast
  have "case r of None \<Rightarrow> fst (find_memoize_t cmp v t) = None
       | Some a \<Rightarrow> p' = Some a \<and>
           (\<exists>nd. heap s' a = Some nd \<and> fst (find_memoize_t cmp v t) = Some (m_value nd)) \<and>
           find_h cmp v (s', p') = Some (Some a) \<and> find_visits cmp v s' p' 0 = Some 1"
  proof (cases r)
    case None
    with c show ?thesis by simp
  next
    case (Some a)
    with c obtain nd where p': "p' = Some a" and h: "heap s' a = Some nd"
      and fm: "fst (find_memoize_t cmp v t) = Some (m_value nd)" by auto
    have pt: "fst (pull_t cmp v t)"
    proof (rule ccontr)
      assume "\<not> fst (pull_t cmp v t)"
      from find_memoize_not_found [OF this] fm show False by simp
    qed
    from find_memoize_found [OF pt] fm have e: "cmp v (m_value nd) = 0" by auto
    have 1: "find_loop cmp v s' (Some a) = Some (Some a)"
      using h e by (subst find_loop.simps) simp
    have 2: "find_visits cmp v s' (Some a) 0 = Some 1"
      using h e by (subst find_visits.simps) simp
    from 1 2 p' h fm Some show ?thesis by (simp add: find_h_def)
  qed
  with f i' show ?thesis by blast
qed

lemma insert_h_elements:
  assumes inv: "hinv s p Q t" and ok: "cmp_ok cmp" and b: "bst cmp t"
  shows "\<exists>s' p' xs. insert_h cmp v (s, p) = Some (s', p') \<and>
      hinv s' p' Q (insert_t cmp v t) \<and> bst cmp (insert_t cmp v t) \<and>
      to_buffer s' p' [] = Some xs \<and> xs = to_buffer_t (insert_t cmp v t) \<and>
      set xs = {y \<in> set (to_buffer_t t). cmp y v \<noteq> 0} \<union> {v} \<and>
      check_invariant cmp s' p' = Some True"
proof -
  from insert_h_correct [OF inv ok b, of v] obtain s' p' where
    e: "insert_h cmp v (s, p) = Some (s', p')" and i': "hinv s' p' Q (insert_t cmp v t)" by blast
  note ss = insert_sorted_set [OF ok b, of v]
  from e i' hinv_to_buffer [OF i'] ss check_invariant_correct [OF i' conjunct1 [OF ss]]
  show ?thesis by blast
qed

lemma erase_elements:
  assumes inv: "hinv s p Q t" and ok: "cmp_ok cmp" and b: "bst cmp t"
  shows "\<exists>s' p' xs. erase cmp v (s, p) = Some (s', p') \<and>
      hinv s' p' Q (erase_t cmp v t) \<and> bst cmp (erase_t cmp v t) \<and>
      to_buffer s' p' [] = Some xs \<and> xs = to_buffer_t (erase_t cmp v t) \<and>
      set xs = {y \<in> set (to_buffer_t t). cmp y v \<noteq> 0} \<and>
      check_invariant cmp s' p' = Some True"
proof -
  from erase_correct [OF inv ok b, of v] obtain s' p' where
    e: "erase cmp v (s, p) = Some (s', p')" and i': "hinv s' p' Q (erase_t cmp v t)" by blast
  note ss = erase_sorted_set [OF ok b, of v]
  from e i' hinv_to_buffer [OF i'] ss check_invariant_correct [OF i' conjunct1 [OF ss]]
  show ?thesis by blast
qed

lemma splay_to_top_correct:
  assumes nr: "node_rel s (insert n (snd ` set path)) n tn"
    and er: "list_all2 (entry_rel s (insert n (snd ` set path))) path tpath"
    and lk: "links s path" and di: "distinct (n # map snd path)"
    and al: "\<forall>a. heap s a \<noteq> None \<longrightarrow> a < next_free s"
  shows "\<exists>s'. splay_to_top path n s = Some s' \<and>
      node_rel s' {n} n (splay_to_top_t tpath tn) \<and>
      repr s' (Some n) (ptr (splay_to_top_t tpath tn)) \<and>
      same_outside (insert n (snd ` set path)) s s' \<and>
      (\<forall>a. rc_of s' a = rc_of s a) \<and>
      (path \<noteq> [] \<longrightarrow>
         (\<forall>nd. heap s (snd (hd path)) = Some nd \<longrightarrow>
            live_refs s' + opt_mset (slot (fst (hd path)) nd) = live_refs s + {#snd (last path)#}))"
proof -
  let ?M = "insert n (snd ` set path)"
  obtain c where c: "path \<noteq> [] \<longrightarrow> (\<exists>nd. heap s (snd (hd path)) = Some nd \<and> slot (fst (hd path)) nd = c)"
  proof (cases path)
    case Nil
    then show ?thesis using that [of None] by simp
  next
    case (Cons e rest)
    with er obtain te where "entry_rel s ?M e te" by (auto simp: list_all2_Cons1)
    then obtain nd where h: "heap s (snd e) = Some nd" by (auto simp: entry_rel_def)
    show ?thesis using that [of "slot (fst e) nd"] h Cons by simp
  qed
  from splay_loop_correct [OF nr er lk di al c]
  obtain s' where sl: "splay_loop path n s = Some s'"
    and nr': "node_rel s' {n} n (splay_to_top_t tpath tn)"
    and so: "same_outside ?M s s'"
    and rcs: "\<forall>x. rc_of s' x = rc_of s x"
    and lr: "path \<noteq> [] \<longrightarrow> live_refs s' + opt_mset c = live_refs s + {#snd (last path)#}"
    by blast
  from nr obtain nn where h: "heap s n = Some nn" and r1: "m_rc nn = 1" by (auto simp: node_rel_def)
  from nr' obtain nn' where h': "heap s' n = Some nn'" and r1': "m_rc nn' = 1"
    and v': "m_value nn' = t_value (splay_to_top_t tpath tn)"
    and hl': "hang s' {n} (m_left nn') (t_left (splay_to_top_t tpath tn))"
    and hr': "hang s' {n} (m_right nn') (t_right (splay_to_top_t tpath tn))"
    by (auto simp: node_rel_def)
  have st: "splay_to_top path n s = Some s'"
    using h r1 h' r1' sl by (simp add: splay_to_top_def unshared_def is_shared_def)
  have "hang s' {} (Some n) (Node (t_left (splay_to_top_t tpath tn)) (m_value nn') (t_right (splay_to_top_t tpath tn)))"
    by (rule hang.hang_Node [OF h']) (simp_all add: hang_mono [OF hl'] hang_mono [OF hr'])
  then have rp: "repr s' (Some n) (ptr (splay_to_top_t tpath tn))"
    unfolding repr_def v' by (cases "splay_to_top_t tpath tn") simp
  have lr': "path \<noteq> [] \<longrightarrow>
         (\<forall>nd. heap s (snd (hd path)) = Some nd \<longrightarrow>
            live_refs s' + opt_mset (slot (fst (hd path)) nd) = live_refs s + {#snd (last path)#})"
    using c lr by auto
  from st nr' rp so rcs lr' show ?thesis by blast
qed

lemma bst_agree: "\<forall>a b. (c' a b < 0) = (c a b < 0) \<Longrightarrow> bst c' t = bst c t"
  by (simp add: bst_def)

lemma rev_cmp_ok: "cmp_ok rev_cmp"
  by (auto simp: cmp_ok_def rev_cmp_def int_cmp_def split: if_splits)

lemma hinv_two_nodes:
  "hinv two_nodes (Some 1) [(None, Leaf)] (Node (Node Leaf 1 Leaf) 2 Leaf)"
  by (auto simp: hinv_def rc_ok_def dead_def repr_def hang_Some_iff two_nodes_def live_refs_def
      cell_refs_def node_refs_def rc_of_def eval_nat_numeral)

section \<open>The claims\<close>

text \<open>
  C2.  \<open>erase\<close> on a handle in search-tree order, under a comparator that meets its
  contract: the tree after \<open>erase v\<close> does not contain \<open>v\<close>; its elements are the old
  elements that do not compare equal to \<open>v\<close>; when no element compares equal to \<open>v\<close>
  the sequence of elements is unchanged.  Erasing 1 from the tree holding 1 and 2 leaves
  2 alone, erasing 1 from the tree holding 1 and from the empty tree leaves the empty tree.
  In the store model, from a store in which the handle represents \<open>t\<close>, \<^verbatim>\<open>erase\<close>
  returns, the handle then represents the tree of the value model, \<^verbatim>\<open>to_buffer\<close> lists
  its elements and \<^verbatim>\<open>contains(v)\<close> is false.
\<close>

theorem erase_removes_element:
  assumes "cmp_ok cmp" and "bst cmp t"
  shows "\<not> contains_t cmp v (erase_t cmp v t) \<and>
    set (to_buffer_t (erase_t cmp v t)) = {y \<in> set (to_buffer_t t). cmp y v \<noteq> 0} \<and>
    (\<not> contains_t cmp v t \<longrightarrow> to_buffer_t (erase_t cmp v t) = to_buffer_t t) \<and>
    to_buffer_t (erase_t int_cmp 1 (insert_t int_cmp 2 (insert_t int_cmp 1 Leaf))) = [2] \<and>
    erase_t int_cmp 1 (insert_t int_cmp 1 Leaf) = Leaf \<and>
    erase_t int_cmp 1 Leaf = Leaf \<and>
    (\<forall>s p Q. hinv s p Q t \<longrightarrow>
       (\<exists>s' p'. erase cmp v (s, p) = Some (s', p') \<and> hinv s' p' Q (erase_t cmp v t) \<and>
          to_buffer s' p' [] = Some (to_buffer_t (erase_t cmp v t)) \<and>
          contains cmp v (s', p') = Some False))"
proof -
  note es = erase_sorted_set [OF assms, of v]
  have "\<forall>x\<in>set (to_buffer_t (erase_t cmp v t)). cmp v x \<noteq> 0"
    using es cmp_sym [OF assms(1)] by auto
  then have 1: "\<not> contains_t cmp v (erase_t cmp v t)"
    using contains_iff [OF assms(1) conjunct1 [OF es], of v] by simp
  have 2: "set (to_buffer_t (erase_t cmp v t)) = {y \<in> set (to_buffer_t t). cmp y v \<noteq> 0}"
    using es by simp
  have 3: "\<not> contains_t cmp v t \<longrightarrow> to_buffer_t (erase_t cmp v t) = to_buffer_t t"
  proof
    assume "\<not> contains_t cmp v t"
    then have "\<not> fst (pull_t cmp v t)"
      using contains_iff [OF assms, of v] pull_found_iff [OF assms, of v] by simp
    then show "to_buffer_t (erase_t cmp v t) = to_buffer_t t"
      by (simp add: erase_not_found pull_inorder)
  qed
  have 4: "to_buffer_t (erase_t int_cmp 1 (insert_t int_cmp 2 (insert_t int_cmp 1 Leaf))) = [2]"
    by (simp add: erase_t_def pull_t_def insert_t_def insert_pull_t_def int_cmp_def pull_max_t_def)
  have 5: "erase_t int_cmp 1 (insert_t int_cmp 1 Leaf) = Leaf"
    by (simp add: erase_t_def pull_t_def insert_t_def insert_pull_t_def int_cmp_def pull_max_t_def)
  have 6: "erase_t int_cmp 1 Leaf = (Leaf :: int tree)"
    by (simp add: erase_t_def pull_t_def insert_pull_t_def)
  have 7: "\<forall>s p Q. hinv s p Q t \<longrightarrow>
       (\<exists>s' p'. erase cmp v (s, p) = Some (s', p') \<and> hinv s' p' Q (erase_t cmp v t) \<and>
          to_buffer s' p' [] = Some (to_buffer_t (erase_t cmp v t)) \<and>
          contains cmp v (s', p') = Some False)"
  proof (intro allI impI)
    fix s p Q assume i: "hinv s p Q t"
    from erase_correct [OF i assms, of v] obtain s' p' where
      e: "erase cmp v (s, p) = Some (s', p')" and i': "hinv s' p' Q (erase_t cmp v t)" by blast
    from contains_correct [OF i', of cmp v] 1 have "contains cmp v (s', p') = Some False" by simp
    with e i' hinv_to_buffer [OF i']
    show "\<exists>s' p'. erase cmp v (s, p) = Some (s', p') \<and> hinv s' p' Q (erase_t cmp v t) \<and>
          to_buffer s' p' [] = Some (to_buffer_t (erase_t cmp v t)) \<and>
          contains cmp v (s', p') = Some False" by blast
  qed
  from 1 2 3 4 5 6 7 show ?thesis by (intro conjI)
qed

theorem erase_removes_element_witness:
  "cmp_ok int_cmp \<and> bst int_cmp s1 \<and> \<not> contains_t int_cmp 4 (erase_t int_cmp 4 s1) \<and>
   set (to_buffer_t (erase_t int_cmp 4 s1)) = {1, 2, 3, 5, 6, 9} \<and>
   to_buffer_t (erase_t int_cmp 42 s1) = to_buffer_t s1 \<and>
   bst int_cmp (Node Leaf 1 Leaf) \<and>
   hinv shared_pair (Some 0) [(Some 0, Node Leaf 1 Leaf)] (Node Leaf 1 Leaf) \<and>
   (\<exists>s' p'. erase int_cmp 1 (shared_pair, Some 0) = Some (s', p') \<and>
      to_buffer s' p' [] = Some [] \<and> contains int_cmp 1 (s', p') = Some False)"
proof -
  note e = erase_removes_element [OF int_cmp_ok bst_s1]
  have c: "\<not> contains_t int_cmp 42 s1"
    by (simp add: s1_eq contains_t_def int_cmp_def)
  have s: "{y \<in> set (to_buffer_t s1). int_cmp y 4 \<noteq> 0} = {1, 2, 3, 5, 6, 9}"
    by (auto simp: s1_eq int_cmp_def)
  from e [of 4] e [of 42] c s have v: "\<not> contains_t int_cmp 4 (erase_t int_cmp 4 s1) \<and>
   set (to_buffer_t (erase_t int_cmp 4 s1)) = {1, 2, 3, 5, 6, 9} \<and>
   to_buffer_t (erase_t int_cmp 42 s1) = to_buffer_t s1" by simp
  have t: "to_buffer_t (erase_t int_cmp 1 (Node Leaf 1 Leaf)) = []"
    by (simp add: erase_t_def pull_t_def insert_pull_t_def int_cmp_def)
  from erase_removes_element [OF int_cmp_ok bst_one, of 1] hinv_shared_pair
  have h: "\<exists>s' p'. erase int_cmp 1 (shared_pair, Some 0) = Some (s', p') \<and>
      to_buffer s' p' [] = Some [] \<and> contains int_cmp 1 (s', p') = Some False"
    unfolding t by blast
  from int_cmp_ok bst_s1 v bst_one hinv_shared_pair h show ?thesis by (intro conjI) simp_all
qed

text \<open>
  C4.  \<open>insert\<close> on a handle in search-tree order, under a comparator that meets its
  contract: the tree after \<open>insert v\<close> contains \<open>v\<close>, its elements are the old elements
  that do not compare equal to \<open>v\<close>, and \<open>v\<close>; \<open>find\<close> with any value that compares
  equal to \<open>v\<close> then returns \<open>v\<close> itself (so with a comparator on a key field the stored
  payload is the new one).  The splay target is the fresh leaf holding \<open>v\<close> when no
  node compared equal, and otherwise the node that compared equal, holding \<open>v\<close>
  now.
  In the store model, from a store in which the handle represents \<open>t\<close>, \<^verbatim>\<open>insert\<close>
  returns, the handle then represents the tree of the value model with \<open>v\<close> in the root
  node, and \<^verbatim>\<open>find\<close> with any value that compares equal to \<open>v\<close> returns that node.
\<close>

theorem insert_overwrites:
  assumes "cmp_ok cmp" and "bst cmp t"
  shows "contains_t cmp v (insert_t cmp v t) \<and>
    set (to_buffer_t (insert_t cmp v t)) = {y \<in> set (to_buffer_t t). cmp y v \<noteq> 0} \<union> {v} \<and>
    (\<forall>u. cmp u v = 0 \<longrightarrow> find_t cmp u (insert_t cmp v t) = Some v) \<and>
    (\<exists>found path n. descend_t cmp v True [] t = Some (found, path, n) \<and>
       insert_t cmp v t = ptr (splay_to_top_t path n) \<and>
       ((\<not> found \<and> n = (Leaf, v, Leaf)) \<or>
        (found \<and> (\<exists>l x r. Node l x r \<in> subtrees t \<and> cmp v x = 0 \<and> n = (l, v, r))))) \<and>
    (\<forall>s p Q. hinv s p Q t \<longrightarrow>
       (\<exists>s' a nd. insert_h cmp v (s, p) = Some (s', Some a) \<and>
          hinv s' (Some a) Q (insert_t cmp v t) \<and>
          to_buffer s' (Some a) [] = Some (to_buffer_t (insert_t cmp v t)) \<and>
          heap s' a = Some nd \<and> m_value nd = v \<and>
          (\<forall>u. cmp u v = 0 \<longrightarrow> find_h cmp u (s', Some a) = Some (Some a))))"
proof -
  obtain l r where root: "insert_t cmp v t = Node l v r" using insert_root [of cmp v t] by blast
  have f: "\<forall>u. cmp u v = 0 \<longrightarrow> find_t cmp u (insert_t cmp v t) = Some v"
    by (simp add: root)
  have vv: "cmp v v = 0" by (rule cmp_refl [OF assms(1)])
  have c: "contains_t cmp v (insert_t cmp v t)"
    using f vv by (simp add: contains_t_def)
  have s: "set (to_buffer_t (insert_t cmp v t)) = {y \<in> set (to_buffer_t t). cmp y v \<noteq> 0} \<union> {v}"
    using insert_sorted_set [OF assms, of v] by simp
  have d: "\<exists>found path n. descend_t cmp v True [] t = Some (found, path, n) \<and>
       insert_t cmp v t = ptr (splay_to_top_t path n) \<and>
       ((\<not> found \<and> n = (Leaf, v, Leaf)) \<or>
        (found \<and> (\<exists>l x r. Node l x r \<in> subtrees t \<and> cmp v x = 0 \<and> n = (l, v, r))))"
  proof (cases "descend_t cmp v True [] t")
    case None
    with descend_None [OF None] show ?thesis by simp
  next
    case (Some res)
    obtain found path n where res: "res = (found, path, n)" by (cases res)
    from descend_insert_target [OF Some [unfolded res]] Some res
    show ?thesis by (simp add: insert_t_def insert_pull_t_def)
  qed
  have h: "\<forall>s p Q. hinv s p Q t \<longrightarrow>
       (\<exists>s' a nd. insert_h cmp v (s, p) = Some (s', Some a) \<and>
          hinv s' (Some a) Q (insert_t cmp v t) \<and>
          to_buffer s' (Some a) [] = Some (to_buffer_t (insert_t cmp v t)) \<and>
          heap s' a = Some nd \<and> m_value nd = v \<and>
          (\<forall>u. cmp u v = 0 \<longrightarrow> find_h cmp u (s', Some a) = Some (Some a)))"
  proof (intro allI impI)
    fix s p Q assume i: "hinv s p Q t"
    from insert_h_correct [OF i assms, of v] obtain s' p' where
      e: "insert_h cmp v (s, p) = Some (s', p')" and i': "hinv s' p' Q (insert_t cmp v t)" by blast
    from hinv_root [OF i' [unfolded root]] obtain a nd where
      p': "p' = Some a" and ha: "heap s' a = Some nd" and va: "m_value nd = v" by blast
    have fh: "\<forall>u. cmp u v = 0 \<longrightarrow> find_h cmp u (s', Some a) = Some (Some a)"
    proof (intro allI impI)
      fix u assume u: "cmp u v = 0"
      have "find_loop cmp u s' (Some a) = Some (Some a)"
        using ha va u by (subst find_loop.simps) simp
      then show "find_h cmp u (s', Some a) = Some (Some a)" by (simp add: find_h_def)
    qed
    from e i' hinv_to_buffer [OF i'] ha va fh
    show "\<exists>s' a nd. insert_h cmp v (s, p) = Some (s', Some a) \<and>
          hinv s' (Some a) Q (insert_t cmp v t) \<and>
          to_buffer s' (Some a) [] = Some (to_buffer_t (insert_t cmp v t)) \<and>
          heap s' a = Some nd \<and> m_value nd = v \<and>
          (\<forall>u. cmp u v = 0 \<longrightarrow> find_h cmp u (s', Some a) = Some (Some a))"
      unfolding p' by blast
  qed
  from c s f d h show ?thesis by (intro conjI)
qed

theorem insert_overwrites_witness:
  "(cmp_ok (key_cmp :: int \<times> string \<Rightarrow> int \<times> string \<Rightarrow> int) \<and>
   bst key_cmp (insert_t key_cmp (1, ''a'') (insert_t key_cmp (2, ''c'') Leaf)) \<and>
   find_t key_cmp (1, ''x'')
     (insert_t key_cmp (1, ''b'') (insert_t key_cmp (1, ''a'') (insert_t key_cmp (2, ''c'') Leaf)))
     = Some (1, ''b'') \<and>
   set (to_buffer_t
     (insert_t key_cmp (1, ''b'') (insert_t key_cmp (1, ''a'') (insert_t key_cmp (2, ''c'') Leaf))))
     = {(1, ''b''), (2, ''c'')}) \<and>
    bst key_cmp (Leaf :: (int \<times> string) tree) \<and>
    hinv (empty_store :: (int \<times> string) store) None [] Leaf \<and>
    (\<exists>s' a nd. insert_h key_cmp (1 :: int, ''b'') (empty_store, None) = Some (s', Some a) \<and>
       heap s' a = Some nd \<and> m_value nd = (1, ''b'') \<and>
       find_h key_cmp (1, ''x'') (s', Some a) = Some (Some a))"
proof -
  have V: "cmp_ok (key_cmp :: int \<times> string \<Rightarrow> int \<times> string \<Rightarrow> int) \<and>
   bst key_cmp (insert_t key_cmp (1, ''a'') (insert_t key_cmp (2, ''c'') Leaf)) \<and>
   find_t key_cmp (1, ''x'')
     (insert_t key_cmp (1, ''b'') (insert_t key_cmp (1, ''a'') (insert_t key_cmp (2, ''c'') Leaf)))
     = Some (1, ''b'') \<and>
   set (to_buffer_t
     (insert_t key_cmp (1, ''b'') (insert_t key_cmp (1, ''a'') (insert_t key_cmp (2, ''c'') Leaf))))
     = {(1, ''b''), (2, ''c'')}"
  proof -
    let ?t = "insert_t key_cmp (1, ''a'') (insert_t key_cmp (2, ''c'') Leaf) :: (int \<times> string) tree"
    have t: "?t = Node Leaf (1, ''a'') (Node Leaf (2, ''c'') Leaf)"
      by (simp add: insert_t_def insert_pull_t_def key_cmp_def int_cmp_def)
    have b: "bst key_cmp ?t"
      by (simp add: t bst_def key_cmp_def int_cmp_def)
    have k: "key_cmp (1 :: int, ''x'') (1, ''b'') = 0"
      by (simp add: key_cmp_def int_cmp_def)
    have s: "{y \<in> set (to_buffer_t ?t). key_cmp y (1, ''b'') \<noteq> 0} \<union> {(1, ''b'')} = {(1, ''b''), (2, ''c'')}"
      by (auto simp: t key_cmp_def int_cmp_def)
    show ?thesis
      using insert_overwrites [OF key_cmp_ok b, of "(1, ''b'')"] k s b key_cmp_ok by simp
  qed
  have H: "bst key_cmp (Leaf :: (int \<times> string) tree) \<and>
    hinv (empty_store :: (int \<times> string) store) None [] Leaf \<and>
    (\<exists>s' a nd. insert_h key_cmp (1 :: int, ''b'') (empty_store, None) = Some (s', Some a) \<and>
       heap s' a = Some nd \<and> m_value nd = (1, ''b'') \<and>
       find_h key_cmp (1, ''x'') (s', Some a) = Some (Some a))"
  proof -
    have k: "key_cmp (1 :: int, ''x'') (1, ''b'') = 0"
      by (simp add: key_cmp_def int_cmp_def)
    from insert_overwrites [OF key_cmp_ok bst_Leaf, of "(1 :: int, ''b'')"] hinv_empty
    obtain s' a nd where
      "insert_h key_cmp (1 :: int, ''b'') (empty_store, None) = Some (s', Some a)"
      "heap s' a = Some nd" "m_value nd = (1, ''b'')"
      "\<forall>u. key_cmp u (1, ''b'') = 0 \<longrightarrow> find_h key_cmp u (s', Some a) = Some (Some a)"
      by blast
    with k bst_Leaf [of key_cmp] hinv_empty show ?thesis by blast
  qed
  from V H show ?thesis by (rule conjI)
qed

text \<open>
  C5.  \<open>find_memoize v\<close> leaves the tree that \<open>insert_pull v false\<close> builds; with a
  comparator that meets its contract it returns the value at the new root when that
  value compares equal to \<open>v\<close> and nothing otherwise (nothing also on the empty tree).
  When it returns a value, a following \<open>find v\<close> compares \<open>v\<close> with one node only, the
  root, and returns the same value.
  In the store model, from a store in which the handle represents an ordered \<open>t\<close>,
  \<^verbatim>\<open>find_memoize\<close> returns and the handle then represents the tree of the value model;
  a pointer that it returns is the new root, and a following \<^verbatim>\<open>find(v)\<close> returns the same
  node after one comparison.
\<close>

theorem find_memoize_returns_root:
  assumes "cmp_ok cmp"
  shows "(snd (find_memoize_t cmp v t) = snd (insert_pull_t cmp v False t) \<and>
    (case snd (find_memoize_t cmp v t) of
       Leaf \<Rightarrow> fst (find_memoize_t cmp v t) = None
     | Node l x r \<Rightarrow> fst (find_memoize_t cmp v t) = (if cmp x v = 0 then Some x else None)) \<and>
    (fst (find_memoize_t cmp v t) \<noteq> None \<longrightarrow>
       find_visits_t cmp v (snd (find_memoize_t cmp v t)) = 1 \<and>
       find_t cmp v (snd (find_memoize_t cmp v t)) = fst (find_memoize_t cmp v t))) \<and>
    (\<forall>s p Q. hinv s p Q t \<longrightarrow> bst cmp t \<longrightarrow>
       (\<exists>r s' p'. find_memoize cmp v (s, p) = Some (r, s', p') \<and>
          hinv s' p' Q (snd (find_memoize_t cmp v t)) \<and>
          (case r of None \<Rightarrow> fst (find_memoize_t cmp v t) = None
           | Some a \<Rightarrow> p' = Some a \<and>
               (\<exists>nd. heap s' a = Some nd \<and> fst (find_memoize_t cmp v t) = Some (m_value nd)) \<and>
               find_h cmp v (s', p') = Some (Some a) \<and> find_visits cmp v s' p' 0 = Some 1)))"
proof -
  have V: "snd (find_memoize_t cmp v t) = snd (insert_pull_t cmp v False t) \<and>
    (case snd (find_memoize_t cmp v t) of
       Leaf \<Rightarrow> fst (find_memoize_t cmp v t) = None
     | Node l x r \<Rightarrow> fst (find_memoize_t cmp v t) = (if cmp x v = 0 then Some x else None)) \<and>
    (fst (find_memoize_t cmp v t) \<noteq> None \<longrightarrow>
       find_visits_t cmp v (snd (find_memoize_t cmp v t)) = 1 \<and>
       find_t cmp v (snd (find_memoize_t cmp v t)) = fst (find_memoize_t cmp v t))"
  proof (cases "fst (pull_t cmp v t)")
    case True
    from find_memoize_found [OF True] obtain l x r where
      fm: "find_memoize_t cmp v t = (Some x, Node l x r)" and e: "cmp v x = 0" by blast
    have xv: "cmp x v = 0" using e cmp_sym [OF assms] by blast
    have fs: "fst (find_memoize_t cmp v t) = Some x"
      and sn: "snd (find_memoize_t cmp v t) = Node l x r" using fm by simp_all
    have ip: "snd (insert_pull_t cmp v False t) = Node l x r"
      using find_memoize_snd [of cmp v t] sn by (simp add: pull_t_def)
    show ?thesis unfolding fs sn ip using e xv by simp
  next
    case False
    note fm = find_memoize_not_found [OF False]
    show ?thesis
    proof (cases "t = Leaf")
      case True
      have "find_memoize_t cmp v t = (None, Leaf)" using fm True by (simp add: pull_Leaf)
      moreover have "snd (insert_pull_t cmp v False t) = Leaf"
        using True pull_Leaf [of cmp v] by (simp add: pull_t_def)
      ultimately show ?thesis by simp
    next
      case F2: False
      from pull_not_found_root [OF False F2] obtain l x r where
        s: "snd (pull_t cmp v t) = Node l x r" and ne: "cmp v x \<noteq> 0" by blast
      have xv: "cmp x v \<noteq> 0" using ne cmp_sym [OF assms] by blast
      have fs: "fst (find_memoize_t cmp v t) = None"
        and sn: "snd (find_memoize_t cmp v t) = Node l x r" using fm s by simp_all
      have ip: "snd (insert_pull_t cmp v False t) = Node l x r"
        using s by (simp add: pull_t_def)
      show ?thesis unfolding fs sn ip using xv by simp
    qed
  qed
  have H: "(\<forall>s p Q. hinv s p Q t \<longrightarrow> bst cmp t \<longrightarrow>
       (\<exists>r s' p'. find_memoize cmp v (s, p) = Some (r, s', p') \<and>
          hinv s' p' Q (snd (find_memoize_t cmp v t)) \<and>
          (case r of None \<Rightarrow> fst (find_memoize_t cmp v t) = None
           | Some a \<Rightarrow> p' = Some a \<and>
               (\<exists>nd. heap s' a = Some nd \<and> fst (find_memoize_t cmp v t) = Some (m_value nd)) \<and>
               find_h cmp v (s', p') = Some (Some a) \<and> find_visits cmp v s' p' 0 = Some 1)))"
  proof (intro allI impI)
    fix s p Q assume i: "hinv s p Q t" and b: "bst cmp t"
    show "\<exists>r s' p'. find_memoize cmp v (s, p) = Some (r, s', p') \<and>
        hinv s' p' Q (snd (find_memoize_t cmp v t)) \<and>
        (case r of None \<Rightarrow> fst (find_memoize_t cmp v t) = None
         | Some a \<Rightarrow> p' = Some a \<and>
             (\<exists>nd. heap s' a = Some nd \<and> fst (find_memoize_t cmp v t) = Some (m_value nd)) \<and>
             find_h cmp v (s', p') = Some (Some a) \<and> find_visits cmp v s' p' 0 = Some 1)"
      by (rule find_memoize_root [OF i assms b])
  qed
  from V H show ?thesis by (rule conjI)
qed

theorem find_memoize_returns_root_witness:
  "(cmp_ok int_cmp \<and> find_memoize_t int_cmp 9 s1 =
     (Some 9, Node (Node (Node (Node Leaf 1 Leaf) 2 (Node (Node Leaf 3 (Node Leaf 4 Leaf)) 5 Leaf)) 6 Leaf) 9 Leaf) \<and>
   find_visits_t int_cmp 9 (snd (find_memoize_t int_cmp 9 s1)) = 1 \<and>
   find_t int_cmp 9 (snd (find_memoize_t int_cmp 9 s1)) = Some 9) \<and>
    bst int_cmp (Node Leaf 1 Leaf) \<and>
    hinv shared_pair (Some 0) [(Some 0, Node Leaf 1 Leaf)] (Node Leaf 1 Leaf) \<and>
    (\<exists>a s'. find_memoize int_cmp 1 (shared_pair, Some 0) = Some (Some a, s', Some a) \<and>
       find_h int_cmp 1 (s', Some a) = Some (Some a) \<and>
       find_visits int_cmp 1 s' (Some a) 0 = Some 1)"
proof -
  have V: "cmp_ok int_cmp \<and> find_memoize_t int_cmp 9 s1 =
     (Some 9, Node (Node (Node (Node Leaf 1 Leaf) 2 (Node (Node Leaf 3 (Node Leaf 4 Leaf)) 5 Leaf)) 6 Leaf) 9 Leaf) \<and>
   find_visits_t int_cmp 9 (snd (find_memoize_t int_cmp 9 s1)) = 1 \<and>
   find_t int_cmp 9 (snd (find_memoize_t int_cmp 9 s1)) = Some 9"
  proof -
    have fm: "find_memoize_t int_cmp 9 s1 =
       (Some 9, Node (Node (Node (Node Leaf 1 Leaf) 2 (Node (Node Leaf 3 (Node Leaf 4 Leaf)) 5 Leaf)) 6 Leaf) 9 Leaf)"
      by (simp add: s1_eq find_memoize_t_def pull_t_def insert_pull_t_def int_cmp_def)
    then have fs: "fst (find_memoize_t int_cmp 9 s1) \<noteq> None" by simp
    from find_memoize_returns_root [OF int_cmp_ok, of 9 s1] fs
    have "find_visits_t int_cmp 9 (snd (find_memoize_t int_cmp 9 s1)) = 1 \<and>
         find_t int_cmp 9 (snd (find_memoize_t int_cmp 9 s1)) = fst (find_memoize_t int_cmp 9 s1)"
      by blast
    moreover have "fst (find_memoize_t int_cmp 9 s1) = Some 9" by (simp add: fm)
    ultimately show ?thesis using fm int_cmp_ok by simp
  qed
  have H: "bst int_cmp (Node Leaf 1 Leaf) \<and>
    hinv shared_pair (Some 0) [(Some 0, Node Leaf 1 Leaf)] (Node Leaf 1 Leaf) \<and>
    (\<exists>a s'. find_memoize int_cmp 1 (shared_pair, Some 0) = Some (Some a, s', Some a) \<and>
       find_h int_cmp 1 (s', Some a) = Some (Some a) \<and>
       find_visits int_cmp 1 s' (Some a) 0 = Some 1)"
  proof -
    have f: "fst (find_memoize_t int_cmp 1 (Node Leaf 1 Leaf)) = Some 1"
      by (simp add: find_memoize_t_def pull_t_def insert_pull_t_def int_cmp_def)
    from find_memoize_returns_root [OF int_cmp_ok, of 1 "Node Leaf 1 Leaf", THEN conjunct2]
      hinv_shared_pair bst_one
    obtain r s' p' where
      m: "find_memoize int_cmp 1 (shared_pair, Some 0) = Some (r, s', p')"
      and c: "case r of None \<Rightarrow> fst (find_memoize_t int_cmp 1 (Node Leaf 1 Leaf)) = None
         | Some a \<Rightarrow> p' = Some a \<and>
             (\<exists>nd. heap s' a = Some nd \<and>
                fst (find_memoize_t int_cmp 1 (Node Leaf 1 Leaf)) = Some (m_value nd)) \<and>
             find_h int_cmp 1 (s', p') = Some (Some a) \<and> find_visits int_cmp 1 s' p' 0 = Some 1"
      by blast
    from c f obtain a where r: "r = Some a" by (cases r) auto
    from c m have "find_memoize int_cmp 1 (shared_pair, Some 0) = Some (Some a, s', Some a) \<and>
       find_h int_cmp 1 (s', Some a) = Some (Some a) \<and>
       find_visits int_cmp 1 s' (Some a) 0 = Some 1"
      unfolding r by auto
    with bst_one hinv_shared_pair show ?thesis by blast
  qed
  from V H show ?thesis by (rule conjI)
qed

text \<open>
  C9.  \<open>find_memoize v\<close> keeps the sequence of elements of the tree, for every \<open>v\<close> and
  every tree.  On the empty tree it returns nothing and the tree stays empty.  On a
  handle in search-tree order: when an element compares equal to \<open>v\<close>, that element is
  returned and is at the root afterwards; when none does and the tree is not empty,
  nothing is returned and the root afterwards holds the value of the last node that the
  descent visited.
  In the store model \<^verbatim>\<open>find_memoize\<close> returns, and \<^verbatim>\<open>to_buffer\<close> gives the same elements
  before and after it.
\<close>

theorem find_memoize_keeps_elements:
  assumes "cmp_ok cmp" and "bst cmp t"
  shows "(to_buffer_t (snd (find_memoize_t cmp v t)) = to_buffer_t t \<and>
    find_memoize_t cmp v Leaf = (None, Leaf) \<and>
    (contains_t cmp v t \<longrightarrow>
       (\<exists>l x r. find_memoize_t cmp v t = (Some x, Node l x r) \<and> find_t cmp v t = Some x)) \<and>
    (\<not> contains_t cmp v t \<and> t \<noteq> Leaf \<longrightarrow>
       (\<exists>l r. find_memoize_t cmp v t = (None, Node l (last_visited cmp v prev t) r)))) \<and>
    (\<forall>s p Q. hinv s p Q t \<longrightarrow>
       (\<exists>r s' p'. find_memoize cmp v (s, p) = Some (r, s', p') \<and>
          hinv s' p' Q (snd (find_memoize_t cmp v t)) \<and>
          to_buffer s p [] = Some (to_buffer_t t) \<and>
          to_buffer s' p' [] = Some (to_buffer_t t)))"
proof -
  have V: "to_buffer_t (snd (find_memoize_t cmp v t)) = to_buffer_t t \<and>
    find_memoize_t cmp v Leaf = (None, Leaf) \<and>
    (contains_t cmp v t \<longrightarrow>
       (\<exists>l x r. find_memoize_t cmp v t = (Some x, Node l x r) \<and> find_t cmp v t = Some x)) \<and>
    (\<not> contains_t cmp v t \<and> t \<noteq> Leaf \<longrightarrow>
       (\<exists>l r. find_memoize_t cmp v t = (None, Node l (last_visited cmp v prev t) r)))"
  proof -
    have 1: "to_buffer_t (snd (find_memoize_t cmp v t)) = to_buffer_t t"
      by (simp add: find_memoize_snd pull_inorder)
    have 2: "find_memoize_t cmp v Leaf = (None, Leaf)"
      by (simp add: find_memoize_t_def pull_Leaf)
    have c: "contains_t cmp v t = fst (pull_t cmp v t)"
      using contains_iff [OF assms, of v] pull_found_iff [OF assms, of v] by simp
    have 3: "contains_t cmp v t \<longrightarrow>
         (\<exists>l x r. find_memoize_t cmp v t = (Some x, Node l x r) \<and> find_t cmp v t = Some x)"
    proof
      assume ct: "contains_t cmp v t"
      then have f: "fst (pull_t cmp v t)" using c by simp
      from find_memoize_found [OF f] obtain l x r where
        fm: "find_memoize_t cmp v t = (Some x, Node l x r)" and e: "cmp v x = 0" by blast
      have "to_buffer_t (Node l x r) = to_buffer_t t" using 1 fm by simp
      then have xin: "x \<in> set (to_buffer_t t)" by (metis in_set_conv_decomp to_buffer_t.simps(2))
      from ct obtain y where fy: "find_t cmp v t = Some y" by (auto simp: contains_t_def)
      from find_Some [OF fy] have yin: "y \<in> set (to_buffer_t t)" and ey: "cmp v y = 0" by simp_all
      have "x = y"
        by (rule sorted_equiv_unique [OF assms(1) assms(2) [unfolded bst_def] xin yin e ey])
      with fm fy show "\<exists>l x r. find_memoize_t cmp v t = (Some x, Node l x r) \<and> find_t cmp v t = Some x"
        by simp
    qed
    have 4: "\<not> contains_t cmp v t \<and> t \<noteq> Leaf \<longrightarrow>
         (\<exists>l r. find_memoize_t cmp v t = (None, Node l (last_visited cmp v prev t) r))"
    proof
      assume a: "\<not> contains_t cmp v t \<and> t \<noteq> Leaf"
      then have nf: "\<not> fst (pull_t cmp v t)" using c by simp
      from pull_not_found_last_visited [OF nf, of prev] a
      show "\<exists>l r. find_memoize_t cmp v t = (None, Node l (last_visited cmp v prev t) r)"
        by (simp add: find_memoize_not_found [OF nf])
    qed
    from 1 2 3 4 show ?thesis by blast
  qed
  have H: "(\<forall>s p Q. hinv s p Q t \<longrightarrow>
       (\<exists>r s' p'. find_memoize cmp v (s, p) = Some (r, s', p') \<and>
          hinv s' p' Q (snd (find_memoize_t cmp v t)) \<and>
          to_buffer s p [] = Some (to_buffer_t t) \<and>
          to_buffer s' p' [] = Some (to_buffer_t t)))"
  proof (intro allI impI)
    fix s p Q assume i: "hinv s p Q t"
    from find_memoize_correct [OF i assms, of v] obtain r s' p' where
      f: "find_memoize cmp v (s, p) = Some (r, s', p')"
      and i': "hinv s' p' Q (snd (find_memoize_t cmp v t))" by blast
    have "to_buffer_t (snd (find_memoize_t cmp v t)) = to_buffer_t t"
      by (simp add: find_memoize_snd pull_inorder)
    with f i' hinv_to_buffer [OF i] hinv_to_buffer [OF i']
    show "\<exists>r s' p'. find_memoize cmp v (s, p) = Some (r, s', p') \<and>
        hinv s' p' Q (snd (find_memoize_t cmp v t)) \<and>
        to_buffer s p [] = Some (to_buffer_t t) \<and>
        to_buffer s' p' [] = Some (to_buffer_t t)" by auto
  qed
  from V H show ?thesis by (rule conjI)
qed

theorem find_memoize_keeps_elements_witness:
  "(cmp_ok int_cmp \<and> bst int_cmp s1 \<and>
   to_buffer_t (snd (find_memoize_t int_cmp 7 s1)) = [1, 2, 3, 4, 5, 6, 9] \<and>
   \<not> contains_t int_cmp 7 s1 \<and> s1 \<noteq> Leaf \<and>
   (\<exists>l r. find_memoize_t int_cmp 7 s1 = (None, Node l 9 r))) \<and>
    bst int_cmp (Node Leaf 1 Leaf) \<and>
    hinv shared_pair (Some 0) [(Some 0, Node Leaf 1 Leaf)] (Node Leaf 1 Leaf) \<and>
    to_buffer shared_pair (Some 0) [] = Some [1] \<and>
    (\<exists>r s' p'. find_memoize int_cmp 7 (shared_pair, Some 0) = Some (r, s', p') \<and>
       to_buffer s' p' [] = Some [1])"
proof -
  have V: "cmp_ok int_cmp \<and> bst int_cmp s1 \<and>
   to_buffer_t (snd (find_memoize_t int_cmp 7 s1)) = [1, 2, 3, 4, 5, 6, 9] \<and>
   \<not> contains_t int_cmp 7 s1 \<and> s1 \<noteq> Leaf \<and>
   (\<exists>l r. find_memoize_t int_cmp 7 s1 = (None, Node l 9 r))"
  proof -
    have c: "\<not> contains_t int_cmp 7 s1"
      by (simp add: s1_eq contains_t_def int_cmp_def)
    have l: "last_visited int_cmp 7 0 s1 = 9"
      by (simp add: s1_eq int_cmp_def)
    have b: "to_buffer_t s1 = [1, 2, 3, 4, 5, 6, 9]" and n: "s1 \<noteq> Leaf"
      by (simp_all add: s1_eq)
    show ?thesis
      using find_memoize_keeps_elements [OF int_cmp_ok bst_s1, of 7 0] c l b n int_cmp_ok bst_s1
      by simp
  qed
  have H: "bst int_cmp (Node Leaf 1 Leaf) \<and>
    hinv shared_pair (Some 0) [(Some 0, Node Leaf 1 Leaf)] (Node Leaf 1 Leaf) \<and>
    to_buffer shared_pair (Some 0) [] = Some [1] \<and>
    (\<exists>r s' p'. find_memoize int_cmp 7 (shared_pair, Some 0) = Some (r, s', p') \<and>
       to_buffer s' p' [] = Some [1])"
  proof -
    from find_memoize_keeps_elements [OF int_cmp_ok bst_one, of 7, THEN conjunct2] hinv_shared_pair
    obtain r s' p' where
      "find_memoize int_cmp 7 (shared_pair, Some 0) = Some (r, s', p')"
      "to_buffer shared_pair (Some 0) [] = Some (to_buffer_t (Node Leaf 1 Leaf))"
      "to_buffer s' p' [] = Some (to_buffer_t (Node Leaf 1 Leaf))"
      by blast
    with bst_one hinv_shared_pair show ?thesis by auto
  qed
  from V H show ?thesis by (rule conjI)
qed

lemma descend_max_all_right: "all_right (fst (descend_max_t [] l x r))"
  using descend_max_props [of "[]" l x r] by (cases "descend_max_t [] l x r") simp

text \<open>
  C3.  When \<open>erase v\<close> finds \<open>v\<close> (the pull returns true and leaves the root
  \<open>Node L x R\<close>), the new tree is the join of \<open>L\<close> and \<open>R\<close>: \<open>R\<close> when \<open>L\<close> is empty,
  \<open>L\<close> when \<open>R\<close> is empty, and otherwise the tree that \<open>pull_max\<close> makes of \<open>L\<close> with
  \<open>R\<close> in the right slot of its root.  \<open>pull_max\<close> descends through right children only,
  and it leaves at the root of \<open>L\<close> the greatest element of \<open>L\<close> with an empty right
  slot and the other elements of \<open>L\<close> on its left.  Every element of \<open>L\<close> is less than
  every element of \<open>R\<close>, and the tree after the erase is in search-tree order.
  In the store model, from a store in which the handle represents \<open>t\<close>, \<^verbatim>\<open>erase\<close>
  returns and \<^verbatim>\<open>to_buffer\<close> then lists the elements of \<open>L\<close> followed by those of
  \<open>R\<close>; \<^verbatim>\<open>pull_max\<close> on a handle that represents \<open>L\<close> returns and leaves the tree
  of the value model.
\<close>

theorem erase_joins_subtrees:
  assumes "cmp_ok cmp" and "bst cmp t" and "pull_t cmp v t = (True, Node L x R)"
  shows "((L = Leaf \<longrightarrow> erase_t cmp v t = R) \<and>
    (L \<noteq> Leaf \<and> R = Leaf \<longrightarrow> erase_t cmp v t = L) \<and>
    (L \<noteq> Leaf \<and> R \<noteq> Leaf \<longrightarrow>
       (\<exists>l m. pull_max_t L = Node l m Leaf \<and> erase_t cmp v t = Node l m R)) \<and>
    (\<forall>l0 x0 r0. L = Node l0 x0 r0 \<longrightarrow>
       all_right (fst (descend_max_t [] l0 x0 r0)) \<and>
       pull_max_t L =
         ptr (splay_to_top_t (fst (descend_max_t [] l0 x0 r0)) (snd (descend_max_t [] l0 x0 r0))) \<and>
       (\<exists>l m. pull_max_t L = Node l m Leaf \<and> to_buffer_t L = to_buffer_t l @ [m] \<and>
          (\<forall>y\<in>set (to_buffer_t l). cmp y m < 0))) \<and>
    (\<forall>a\<in>set (to_buffer_t L). \<forall>b\<in>set (to_buffer_t R). cmp a b < 0) \<and>
    bst cmp (erase_t cmp v t)) \<and>
    (\<forall>s p Q. hinv s p Q t \<longrightarrow>
       (\<exists>s' p'. erase cmp v (s, p) = Some (s', p') \<and> hinv s' p' Q (erase_t cmp v t) \<and>
          to_buffer s' p' [] = Some (to_buffer_t L @ to_buffer_t R))) \<and>
    (\<forall>s p Q. hinv s p Q L \<longrightarrow>
       (\<exists>s' p'. pull_max cmp (s, p) = Some (s', p') \<and> hinv s' p' Q (pull_max_t L)))"
proof -
  have V: "(L = Leaf \<longrightarrow> erase_t cmp v t = R) \<and>
    (L \<noteq> Leaf \<and> R = Leaf \<longrightarrow> erase_t cmp v t = L) \<and>
    (L \<noteq> Leaf \<and> R \<noteq> Leaf \<longrightarrow>
       (\<exists>l m. pull_max_t L = Node l m Leaf \<and> erase_t cmp v t = Node l m R)) \<and>
    (\<forall>l0 x0 r0. L = Node l0 x0 r0 \<longrightarrow>
       all_right (fst (descend_max_t [] l0 x0 r0)) \<and>
       pull_max_t L =
         ptr (splay_to_top_t (fst (descend_max_t [] l0 x0 r0)) (snd (descend_max_t [] l0 x0 r0))) \<and>
       (\<exists>l m. pull_max_t L = Node l m Leaf \<and> to_buffer_t L = to_buffer_t l @ [m] \<and>
          (\<forall>y\<in>set (to_buffer_t l). cmp y m < 0))) \<and>
    (\<forall>a\<in>set (to_buffer_t L). \<forall>b\<in>set (to_buffer_t R). cmp a b < 0) \<and>
    bst cmp (erase_t cmp v t)"
  proof -
    have io: "to_buffer_t t = to_buffer_t L @ x # to_buffer_t R"
      using pull_inorder [of cmp v t] assms(3) by simp
    have srt: "sorted_wrt (\<lambda>a b. cmp a b < 0) (to_buffer_t L @ x # to_buffer_t R)"
      using assms(2) io by (simp add: bst_def)
    have sL: "sorted_wrt (\<lambda>a b. cmp a b < 0) (to_buffer_t L)"
      using srt by (simp add: sorted_wrt_append)
    have 1: "L = Leaf \<longrightarrow> erase_t cmp v t = R"
      using assms(3) by (simp add: erase_t_def)
    have 2: "L \<noteq> Leaf \<and> R = Leaf \<longrightarrow> erase_t cmp v t = L"
      using assms(3) by (simp add: erase_t_def)
    have pm: "L \<noteq> Leaf \<Longrightarrow> \<exists>l m. pull_max_t L = Node l m Leaf \<and> to_buffer_t L = to_buffer_t l @ [m] \<and>
            (\<forall>y\<in>set (to_buffer_t l). cmp y m < 0)"
    proof -
      assume "L \<noteq> Leaf"
      from pull_max_props [OF this] obtain l m where
        p: "pull_max_t L = Node l m Leaf" and b: "to_buffer_t L = to_buffer_t l @ [m]" by blast
      have "\<forall>y\<in>set (to_buffer_t l). cmp y m < 0"
        using sL b by (simp add: sorted_wrt_append)
      with p b show ?thesis by blast
    qed
    have 3: "L \<noteq> Leaf \<and> R \<noteq> Leaf \<longrightarrow>
         (\<exists>l m. pull_max_t L = Node l m Leaf \<and> erase_t cmp v t = Node l m R)"
    proof
      assume a: "L \<noteq> Leaf \<and> R \<noteq> Leaf"
      then obtain l m where p: "pull_max_t L = Node l m Leaf" using pm by blast
      then have "erase_t cmp v t = Node l m R" using a assms(3) by (simp add: erase_t_def)
      with p show "\<exists>l m. pull_max_t L = Node l m Leaf \<and> erase_t cmp v t = Node l m R" by blast
    qed
    have 4: "\<forall>l0 x0 r0. L = Node l0 x0 r0 \<longrightarrow>
         all_right (fst (descend_max_t [] l0 x0 r0)) \<and>
         pull_max_t L =
           ptr (splay_to_top_t (fst (descend_max_t [] l0 x0 r0)) (snd (descend_max_t [] l0 x0 r0))) \<and>
         (\<exists>l m. pull_max_t L = Node l m Leaf \<and> to_buffer_t L = to_buffer_t l @ [m] \<and>
            (\<forall>y\<in>set (to_buffer_t l). cmp y m < 0))"
    proof (intro allI impI)
      fix l0 x0 r0
      assume L: "L = Node l0 x0 r0"
      have a: "all_right (fst (descend_max_t [] l0 x0 r0))" by (rule descend_max_all_right)
      have b: "pull_max_t L =
           ptr (splay_to_top_t (fst (descend_max_t [] l0 x0 r0)) (snd (descend_max_t [] l0 x0 r0)))"
        by (simp add: L pull_max_t_def split: prod.splits)
      have c: "\<exists>l m. pull_max_t L = Node l m Leaf \<and> to_buffer_t L = to_buffer_t l @ [m] \<and>
            (\<forall>y\<in>set (to_buffer_t l). cmp y m < 0)"
        using pm L by simp
      from a b c show "all_right (fst (descend_max_t [] l0 x0 r0)) \<and>
         pull_max_t L =
           ptr (splay_to_top_t (fst (descend_max_t [] l0 x0 r0)) (snd (descend_max_t [] l0 x0 r0))) \<and>
         (\<exists>l m. pull_max_t L = Node l m Leaf \<and> to_buffer_t L = to_buffer_t l @ [m] \<and>
            (\<forall>y\<in>set (to_buffer_t l). cmp y m < 0))" by blast
    qed
    have lx: "\<forall>a\<in>set (to_buffer_t L). cmp a x < 0" and xr: "\<forall>b\<in>set (to_buffer_t R). cmp x b < 0"
      using srt by (auto simp: sorted_wrt_append)
    have 5: "\<forall>a\<in>set (to_buffer_t L). \<forall>b\<in>set (to_buffer_t R). cmp a b < 0"
      using lx xr cmp_lt_trans [OF assms(1)] by blast
    have 6: "bst cmp (erase_t cmp v t)"
      using erase_sorted_set [OF assms(1,2), of v] by simp
    from 1 2 3 4 5 6 show ?thesis by blast
  qed
  have H: "(\<forall>s p Q. hinv s p Q t \<longrightarrow>
       (\<exists>s' p'. erase cmp v (s, p) = Some (s', p') \<and> hinv s' p' Q (erase_t cmp v t) \<and>
          to_buffer s' p' [] = Some (to_buffer_t L @ to_buffer_t R))) \<and>
    (\<forall>s p Q. hinv s p Q L \<longrightarrow>
       (\<exists>s' p'. pull_max cmp (s, p) = Some (s', p') \<and> hinv s' p' Q (pull_max_t L)))"
  proof (intro conjI allI impI)
    fix s p Q assume i: "hinv s p Q t"
    from erase_correct [OF i assms(1,2), of v] obtain s' p' where
      e: "erase cmp v (s, p) = Some (s', p')" and i': "hinv s' p' Q (erase_t cmp v t)" by blast
    from e i' hinv_to_buffer [OF i'] erase_found_inorder [OF assms(3)]
    show "\<exists>s' p'. erase cmp v (s, p) = Some (s', p') \<and> hinv s' p' Q (erase_t cmp v t) \<and>
        to_buffer s' p' [] = Some (to_buffer_t L @ to_buffer_t R)" by auto
  next
    fix s p Q assume i: "hinv s p Q L"
    have "bst cmp (Node L x R)" using bst_pull [OF assms(2), of v] assms(3) by simp
    then have "bst cmp L" by (rule bst_Node [THEN conjunct1])
    from pull_max_correct [OF i bst_pull_max [OF this]]
    show "\<exists>s' p'. pull_max cmp (s, p) = Some (s', p') \<and> hinv s' p' Q (pull_max_t L)" by blast
  qed
  from V H show ?thesis by (rule conjI)
qed

theorem erase_joins_subtrees_witness:
  "(cmp_ok int_cmp \<and> bst int_cmp s1 \<and>
   pull_t int_cmp 5 s1 =
     (True, Node (Node (Node Leaf 1 Leaf) 2 (Node Leaf 3 (Node Leaf 4 Leaf))) 5 (Node Leaf 6 (Node Leaf 9 Leaf))) \<and>
   pull_max_t (Node (Node Leaf 1 Leaf) 2 (Node Leaf 3 (Node Leaf 4 Leaf)) :: int tree) =
     Node (Node (Node (Node Leaf 1 Leaf) 2 Leaf) 3 Leaf) 4 Leaf \<and>
   erase_t int_cmp 5 s1 =
     Node (Node (Node (Node Leaf 1 Leaf) 2 Leaf) 3 Leaf) 4 (Node Leaf 6 (Node Leaf 9 Leaf)) \<and>
   bst int_cmp (erase_t int_cmp 5 s1)) \<and>
    bst int_cmp (Node Leaf 1 Leaf) \<and>
    pull_t int_cmp 1 (Node Leaf 1 Leaf) = (True, Node Leaf 1 Leaf) \<and>
    hinv shared_pair (Some 0) [(Some 0, Node Leaf 1 Leaf)] (Node Leaf 1 Leaf) \<and>
    (\<exists>s' p'. erase int_cmp 1 (shared_pair, Some 0) = Some (s', p') \<and> to_buffer s' p' [] = Some []) \<and>
    hinv (empty_store :: int store) None [] Leaf \<and>
    (\<exists>s' p'. pull_max int_cmp (empty_store :: int store, None) = Some (s', p') \<and>
       hinv s' p' [] (pull_max_t Leaf))"
proof -
  have V: "cmp_ok int_cmp \<and> bst int_cmp s1 \<and>
   pull_t int_cmp 5 s1 =
     (True, Node (Node (Node Leaf 1 Leaf) 2 (Node Leaf 3 (Node Leaf 4 Leaf))) 5 (Node Leaf 6 (Node Leaf 9 Leaf))) \<and>
   pull_max_t (Node (Node Leaf 1 Leaf) 2 (Node Leaf 3 (Node Leaf 4 Leaf)) :: int tree) =
     Node (Node (Node (Node Leaf 1 Leaf) 2 Leaf) 3 Leaf) 4 Leaf \<and>
   erase_t int_cmp 5 s1 =
     Node (Node (Node (Node Leaf 1 Leaf) 2 Leaf) 3 Leaf) 4 (Node Leaf 6 (Node Leaf 9 Leaf)) \<and>
   bst int_cmp (erase_t int_cmp 5 s1)"
  proof -
    let ?L = "Node (Node Leaf 1 Leaf) 2 (Node Leaf 3 (Node Leaf 4 Leaf)) :: int tree"
    let ?R = "Node Leaf 6 (Node Leaf 9 Leaf) :: int tree"
    have p: "pull_t int_cmp 5 s1 = (True, Node ?L 5 ?R)"
      by (simp add: s1_eq pull_t_def insert_pull_t_def int_cmp_def)
    have m: "pull_max_t ?L = Node (Node (Node (Node Leaf 1 Leaf) 2 Leaf) 3 Leaf) 4 Leaf"
      by (simp add: pull_max_t_def)
    note th = erase_joins_subtrees [OF int_cmp_ok bst_s1 p]
    from th have "\<exists>l m. pull_max_t ?L = Node l m Leaf \<and> erase_t int_cmp 5 s1 = Node l m ?R"
      by blast
    with m have e: "erase_t int_cmp 5 s1 =
       Node (Node (Node (Node Leaf 1 Leaf) 2 Leaf) 3 Leaf) 4 ?R" by simp
    from th have "bst int_cmp (erase_t int_cmp 5 s1)" by blast
    with p m e int_cmp_ok bst_s1 show ?thesis by blast
  qed
  have H: "bst int_cmp (Node Leaf 1 Leaf) \<and>
    pull_t int_cmp 1 (Node Leaf 1 Leaf) = (True, Node Leaf 1 Leaf) \<and>
    hinv shared_pair (Some 0) [(Some 0, Node Leaf 1 Leaf)] (Node Leaf 1 Leaf) \<and>
    (\<exists>s' p'. erase int_cmp 1 (shared_pair, Some 0) = Some (s', p') \<and> to_buffer s' p' [] = Some []) \<and>
    hinv (empty_store :: int store) None [] Leaf \<and>
    (\<exists>s' p'. pull_max int_cmp (empty_store :: int store, None) = Some (s', p') \<and>
       hinv s' p' [] (pull_max_t Leaf))"
  proof -
    have q: "pull_t int_cmp 1 (Node Leaf 1 Leaf) = (True, Node Leaf 1 Leaf)"
      by (simp add: pull_t_def insert_pull_t_def int_cmp_def)
    note th = erase_joins_subtrees [OF int_cmp_ok bst_one q, THEN conjunct2]
    from th hinv_shared_pair
    have 1: "\<exists>s' p'. erase int_cmp 1 (shared_pair, Some 0) = Some (s', p') \<and>
        to_buffer s' p' [] = Some []" by fastforce
    from th hinv_empty
    have 2: "\<exists>s' p'. pull_max int_cmp (empty_store :: int store, None) = Some (s', p') \<and>
        hinv s' p' [] (pull_max_t Leaf)" by blast
    from bst_one q hinv_shared_pair 1 hinv_empty 2 show ?thesis by (intro conjI)
  qed
  from V H show ?thesis by (rule conjI)
qed

text \<open>
  C10.  On a handle in search-tree order, under a comparator that meets its contract:
  inserting \<open>v\<close> twice gives the elements of inserting it once; erasing \<open>v\<close> twice
  gives the elements of erasing it once; and for \<open>u\<close>, \<open>v\<close> that do not compare equal,
  inserting \<open>u\<close> then \<open>v\<close> gives the elements of inserting \<open>v\<close> then \<open>u\<close>.
  In the store model the runs of two and of four operations return, and \<^verbatim>\<open>to_buffer\<close>
  of the stores they leave gives lists with the same elements.
\<close>

theorem insert_erase_algebra:
  assumes "cmp_ok cmp" and "bst cmp t"
  shows "(set (to_buffer_t (insert_t cmp v (insert_t cmp v t))) = set (to_buffer_t (insert_t cmp v t)) \<and>
    set (to_buffer_t (erase_t cmp v (erase_t cmp v t))) = set (to_buffer_t (erase_t cmp v t)) \<and>
    (cmp u v \<noteq> 0 \<longrightarrow>
       set (to_buffer_t (insert_t cmp v (insert_t cmp u t))) =
       set (to_buffer_t (insert_t cmp u (insert_t cmp v t))))) \<and>
    (\<forall>s p Q. hinv s p Q t \<longrightarrow>
       (\<exists>s1 p1 s2 p2 xs ys. insert_h cmp v (s, p) = Some (s1, p1) \<and>
          insert_h cmp v (s1, p1) = Some (s2, p2) \<and>
          to_buffer s1 p1 [] = Some xs \<and> to_buffer s2 p2 [] = Some ys \<and> set ys = set xs) \<and>
       (\<exists>s1 p1 s2 p2 xs ys. erase cmp v (s, p) = Some (s1, p1) \<and>
          erase cmp v (s1, p1) = Some (s2, p2) \<and>
          to_buffer s1 p1 [] = Some xs \<and> to_buffer s2 p2 [] = Some ys \<and> set ys = set xs) \<and>
       (cmp u v \<noteq> 0 \<longrightarrow>
          (\<exists>s1 p1 s2 p2 s3 p3 s4 p4 xs ys. insert_h cmp u (s, p) = Some (s1, p1) \<and>
             insert_h cmp v (s1, p1) = Some (s2, p2) \<and>
             insert_h cmp v (s, p) = Some (s3, p3) \<and>
             insert_h cmp u (s3, p3) = Some (s4, p4) \<and>
             to_buffer s2 p2 [] = Some xs \<and> to_buffer s4 p4 [] = Some ys \<and> set xs = set ys)))"
proof -
  have V: "set (to_buffer_t (insert_t cmp v (insert_t cmp v t))) = set (to_buffer_t (insert_t cmp v t)) \<and>
    set (to_buffer_t (erase_t cmp v (erase_t cmp v t))) = set (to_buffer_t (erase_t cmp v t)) \<and>
    (cmp u v \<noteq> 0 \<longrightarrow>
       set (to_buffer_t (insert_t cmp v (insert_t cmp u t))) =
       set (to_buffer_t (insert_t cmp u (insert_t cmp v t))))"
  proof -
    note iv = insert_sorted_set [OF assms, of v]
    note iu = insert_sorted_set [OF assms, of u]
    note ivv = insert_sorted_set [OF assms(1) conjunct1 [OF iv], of v]
    note iuv = insert_sorted_set [OF assms(1) conjunct1 [OF iu], of v]
    note ivu = insert_sorted_set [OF assms(1) conjunct1 [OF iv], of u]
    note ev = erase_sorted_set [OF assms, of v]
    note evv = erase_sorted_set [OF assms(1) conjunct1 [OF ev], of v]
    have vv: "cmp v v = 0" by (rule cmp_refl [OF assms(1)])
    have 1: "set (to_buffer_t (insert_t cmp v (insert_t cmp v t))) = set (to_buffer_t (insert_t cmp v t))"
      using iv ivv vv by auto
    have 2: "set (to_buffer_t (erase_t cmp v (erase_t cmp v t))) = set (to_buffer_t (erase_t cmp v t))"
      using ev evv by auto
    have 3: "cmp u v \<noteq> 0 \<longrightarrow>
         set (to_buffer_t (insert_t cmp v (insert_t cmp u t))) =
         set (to_buffer_t (insert_t cmp u (insert_t cmp v t)))"
    proof
      assume uv: "cmp u v \<noteq> 0"
      then have vu: "cmp v u \<noteq> 0" using cmp_sym [OF assms(1)] by blast
      show "set (to_buffer_t (insert_t cmp v (insert_t cmp u t))) =
         set (to_buffer_t (insert_t cmp u (insert_t cmp v t)))"
        using iu iuv iv ivu uv vu by auto
    qed
    from 1 2 3 show ?thesis by blast
  qed
  have H: "(\<forall>s p Q. hinv s p Q t \<longrightarrow>
       (\<exists>s1 p1 s2 p2 xs ys. insert_h cmp v (s, p) = Some (s1, p1) \<and>
          insert_h cmp v (s1, p1) = Some (s2, p2) \<and>
          to_buffer s1 p1 [] = Some xs \<and> to_buffer s2 p2 [] = Some ys \<and> set ys = set xs) \<and>
       (\<exists>s1 p1 s2 p2 xs ys. erase cmp v (s, p) = Some (s1, p1) \<and>
          erase cmp v (s1, p1) = Some (s2, p2) \<and>
          to_buffer s1 p1 [] = Some xs \<and> to_buffer s2 p2 [] = Some ys \<and> set ys = set xs) \<and>
       (cmp u v \<noteq> 0 \<longrightarrow>
          (\<exists>s1 p1 s2 p2 s3 p3 s4 p4 xs ys. insert_h cmp u (s, p) = Some (s1, p1) \<and>
             insert_h cmp v (s1, p1) = Some (s2, p2) \<and>
             insert_h cmp v (s, p) = Some (s3, p3) \<and>
             insert_h cmp u (s3, p3) = Some (s4, p4) \<and>
             to_buffer s2 p2 [] = Some xs \<and> to_buffer s4 p4 [] = Some ys \<and> set xs = set ys)))"
  proof (intro allI impI)
    fix s p Q assume i: "hinv s p Q t"
    from insert_h_elements [OF i assms, of v] obtain s1 p1 where
      a1: "insert_h cmp v (s, p) = Some (s1, p1)" and i1: "hinv s1 p1 Q (insert_t cmp v t)"
      and b1: "bst cmp (insert_t cmp v t)"
      and t1: "to_buffer s1 p1 [] = Some (to_buffer_t (insert_t cmp v t))" by blast
    from insert_h_elements [OF i1 assms(1) b1, of v] obtain s2 p2 where
      a2: "insert_h cmp v (s1, p1) = Some (s2, p2)"
      and t2: "to_buffer s2 p2 [] = Some (to_buffer_t (insert_t cmp v (insert_t cmp v t)))" by blast
    from a1 a2 t1 t2 V
    have I: "\<exists>s1 p1 s2 p2 xs ys. insert_h cmp v (s, p) = Some (s1, p1) \<and>
        insert_h cmp v (s1, p1) = Some (s2, p2) \<and>
        to_buffer s1 p1 [] = Some xs \<and> to_buffer s2 p2 [] = Some ys \<and> set ys = set xs" by blast
    from erase_elements [OF i assms, of v] obtain e1 q1 where
      c1: "erase cmp v (s, p) = Some (e1, q1)" and j1: "hinv e1 q1 Q (erase_t cmp v t)"
      and d1: "bst cmp (erase_t cmp v t)"
      and u1: "to_buffer e1 q1 [] = Some (to_buffer_t (erase_t cmp v t))" by blast
    from erase_elements [OF j1 assms(1) d1, of v] obtain e2 q2 where
      c2: "erase cmp v (e1, q1) = Some (e2, q2)"
      and u2: "to_buffer e2 q2 [] = Some (to_buffer_t (erase_t cmp v (erase_t cmp v t)))" by blast
    from c1 c2 u1 u2 V
    have E: "\<exists>s1 p1 s2 p2 xs ys. erase cmp v (s, p) = Some (s1, p1) \<and>
        erase cmp v (s1, p1) = Some (s2, p2) \<and>
        to_buffer s1 p1 [] = Some xs \<and> to_buffer s2 p2 [] = Some ys \<and> set ys = set xs" by blast
    have C: "cmp u v \<noteq> 0 \<longrightarrow>
        (\<exists>s1 p1 s2 p2 s3 p3 s4 p4 xs ys. insert_h cmp u (s, p) = Some (s1, p1) \<and>
           insert_h cmp v (s1, p1) = Some (s2, p2) \<and>
           insert_h cmp v (s, p) = Some (s3, p3) \<and>
           insert_h cmp u (s3, p3) = Some (s4, p4) \<and>
           to_buffer s2 p2 [] = Some xs \<and> to_buffer s4 p4 [] = Some ys \<and> set xs = set ys)"
    proof
      assume ne: "cmp u v \<noteq> 0"
      from insert_h_elements [OF i assms, of u] obtain w1 r1 where
        f1: "insert_h cmp u (s, p) = Some (w1, r1)" and k1: "hinv w1 r1 Q (insert_t cmp u t)"
        and g1: "bst cmp (insert_t cmp u t)" by blast
      from insert_h_elements [OF k1 assms(1) g1, of v] obtain w2 r2 where
        f2: "insert_h cmp v (w1, r1) = Some (w2, r2)"
        and x2: "to_buffer w2 r2 [] = Some (to_buffer_t (insert_t cmp v (insert_t cmp u t)))" by blast
      from insert_h_elements [OF i1 assms(1) b1, of u] obtain w4 r4 where
        f4: "insert_h cmp u (s1, p1) = Some (w4, r4)"
        and x4: "to_buffer w4 r4 [] = Some (to_buffer_t (insert_t cmp u (insert_t cmp v t)))" by blast
      from V ne have "set (to_buffer_t (insert_t cmp v (insert_t cmp u t))) =
         set (to_buffer_t (insert_t cmp u (insert_t cmp v t)))" by blast
      with f1 f2 a1 f4 x2 x4
      show "\<exists>s1 p1 s2 p2 s3 p3 s4 p4 xs ys. insert_h cmp u (s, p) = Some (s1, p1) \<and>
           insert_h cmp v (s1, p1) = Some (s2, p2) \<and>
           insert_h cmp v (s, p) = Some (s3, p3) \<and>
           insert_h cmp u (s3, p3) = Some (s4, p4) \<and>
           to_buffer s2 p2 [] = Some xs \<and> to_buffer s4 p4 [] = Some ys \<and> set xs = set ys"
        by blast
    qed
    from I E C
    show "(\<exists>s1 p1 s2 p2 xs ys. insert_h cmp v (s, p) = Some (s1, p1) \<and>
        insert_h cmp v (s1, p1) = Some (s2, p2) \<and>
        to_buffer s1 p1 [] = Some xs \<and> to_buffer s2 p2 [] = Some ys \<and> set ys = set xs) \<and>
     (\<exists>s1 p1 s2 p2 xs ys. erase cmp v (s, p) = Some (s1, p1) \<and>
        erase cmp v (s1, p1) = Some (s2, p2) \<and>
        to_buffer s1 p1 [] = Some xs \<and> to_buffer s2 p2 [] = Some ys \<and> set ys = set xs) \<and>
     (cmp u v \<noteq> 0 \<longrightarrow>
        (\<exists>s1 p1 s2 p2 s3 p3 s4 p4 xs ys. insert_h cmp u (s, p) = Some (s1, p1) \<and>
           insert_h cmp v (s1, p1) = Some (s2, p2) \<and>
           insert_h cmp v (s, p) = Some (s3, p3) \<and>
           insert_h cmp u (s3, p3) = Some (s4, p4) \<and>
           to_buffer s2 p2 [] = Some xs \<and> to_buffer s4 p4 [] = Some ys \<and> set xs = set ys))"
      by (intro conjI)
  qed
  from V H show ?thesis by (rule conjI)
qed

theorem insert_erase_algebra_witness:
  "(cmp_ok int_cmp \<and> bst int_cmp s1 \<and> int_cmp 7 8 \<noteq> 0 \<and>
   set (to_buffer_t (insert_t int_cmp 8 (insert_t int_cmp 7 s1))) =
   set (to_buffer_t (insert_t int_cmp 7 (insert_t int_cmp 8 s1))) \<and>
   set (to_buffer_t (insert_t int_cmp 8 (insert_t int_cmp 8 s1))) =
   set (to_buffer_t (insert_t int_cmp 8 s1)) \<and>
   set (to_buffer_t (erase_t int_cmp 8 (erase_t int_cmp 8 s1))) =
   set (to_buffer_t (erase_t int_cmp 8 s1))) \<and>
    bst int_cmp (Node Leaf 1 Leaf) \<and>
    hinv shared_pair (Some 0) [(Some 0, Node Leaf 1 Leaf)] (Node Leaf 1 Leaf) \<and>
    (\<exists>s1 p1 s2 p2 xs ys. insert_h int_cmp 8 (shared_pair, Some 0) = Some (s1, p1) \<and>
       insert_h int_cmp 8 (s1, p1) = Some (s2, p2) \<and>
       to_buffer s1 p1 [] = Some xs \<and> to_buffer s2 p2 [] = Some ys \<and> set ys = set xs) \<and>
    (\<exists>s1 p1 s2 p2 xs ys. erase int_cmp 8 (shared_pair, Some 0) = Some (s1, p1) \<and>
       erase int_cmp 8 (s1, p1) = Some (s2, p2) \<and>
       to_buffer s1 p1 [] = Some xs \<and> to_buffer s2 p2 [] = Some ys \<and> set ys = set xs)"
proof -
  have V: "cmp_ok int_cmp \<and> bst int_cmp s1 \<and> int_cmp 7 8 \<noteq> 0 \<and>
   set (to_buffer_t (insert_t int_cmp 8 (insert_t int_cmp 7 s1))) =
   set (to_buffer_t (insert_t int_cmp 7 (insert_t int_cmp 8 s1))) \<and>
   set (to_buffer_t (insert_t int_cmp 8 (insert_t int_cmp 8 s1))) =
   set (to_buffer_t (insert_t int_cmp 8 s1)) \<and>
   set (to_buffer_t (erase_t int_cmp 8 (erase_t int_cmp 8 s1))) =
   set (to_buffer_t (erase_t int_cmp 8 s1))"
  proof -
    have n: "int_cmp 7 8 \<noteq> 0" by (simp add: int_cmp_def)
    show ?thesis
      using insert_erase_algebra [OF int_cmp_ok bst_s1, of 8 7] n int_cmp_ok bst_s1 by blast
  qed
  have H: "bst int_cmp (Node Leaf 1 Leaf) \<and>
    hinv shared_pair (Some 0) [(Some 0, Node Leaf 1 Leaf)] (Node Leaf 1 Leaf) \<and>
    (\<exists>s1 p1 s2 p2 xs ys. insert_h int_cmp 8 (shared_pair, Some 0) = Some (s1, p1) \<and>
       insert_h int_cmp 8 (s1, p1) = Some (s2, p2) \<and>
       to_buffer s1 p1 [] = Some xs \<and> to_buffer s2 p2 [] = Some ys \<and> set ys = set xs) \<and>
    (\<exists>s1 p1 s2 p2 xs ys. erase int_cmp 8 (shared_pair, Some 0) = Some (s1, p1) \<and>
       erase int_cmp 8 (s1, p1) = Some (s2, p2) \<and>
       to_buffer s1 p1 [] = Some xs \<and> to_buffer s2 p2 [] = Some ys \<and> set ys = set xs)"
  proof -
    note th = insert_erase_algebra [OF int_cmp_ok bst_one, of 8 7, THEN conjunct2, rule_format,
      OF hinv_shared_pair]
    from th have 1: "\<exists>s1 p1 s2 p2 xs ys. insert_h int_cmp 8 (shared_pair, Some 0) = Some (s1, p1) \<and>
       insert_h int_cmp 8 (s1, p1) = Some (s2, p2) \<and>
       to_buffer s1 p1 [] = Some xs \<and> to_buffer s2 p2 [] = Some ys \<and> set ys = set xs"
      by (rule conjunct1)
    from th have 2: "\<exists>s1 p1 s2 p2 xs ys. erase int_cmp 8 (shared_pair, Some 0) = Some (s1, p1) \<and>
       erase int_cmp 8 (s1, p1) = Some (s2, p2) \<and>
       to_buffer s1 p1 [] = Some xs \<and> to_buffer s2 p2 [] = Some ys \<and> set ys = set xs"
      by (rule conjunct1 [OF conjunct2])
    from bst_one hinv_shared_pair 1 2 show ?thesis by (intro conjI)
  qed
  from V H show ?thesis by (rule conjI)
qed

text \<open>
  C7 (reference counts and sharing safety).  \<open>hinv s p Q t\<close> describes a store \<open>s\<close> with a
  handle \<open>p\<close> whose tree is \<open>t\<close> and the other live handles \<open>Q\<close>.  From such a store, with a
  comparator that satisfies its contract and \<open>t\<close> ordered, every operation on the handle
  returns: \<^verbatim>\<open>insert\<close>, \<^verbatim>\<open>erase\<close>, \<^verbatim>\<open>find_memoize\<close>, \<^verbatim>\<open>clear\<close>, the copy constructor, the
  destructor and the two non-member functions.  In the store model a write to the children
  or the value of a node with \<open>m_rc > 1\<close> is a fault, as are the failure of an assertion and
  the use of a freed node, so a result \<open>Some\<close> says that no shared node was rewritten: the
  loops of \<^verbatim>\<open>insert_pull\<close> and \<^verbatim>\<open>pull_max\<close> have replaced every shared node on their way by
  a copy and linked the copy to its parent or to the root.  After the operation the store
  again satisfies \<open>hinv\<close> for the new handles, and in it every allocated node has a
  reference count of at least 1 that is the number of child slots and handles that point
  to it (\<open>counted\<close>).  The empty store with an empty handle satisfies \<open>hinv\<close>, a new
  empty handle keeps it, and any other handle can take the place of \<open>p\<close>, so these
  properties hold after any sequence of operations on any handles.
\<close>

theorem refcounts_exact_no_shared_write:
  assumes "cmp_ok cmp" and "hinv s p Q t" and "bst cmp t"
  shows
    "(\<exists>s' p'. insert_h cmp v (s, p) = Some (s', p') \<and> hinv s' p' Q (insert_t cmp v t) \<and>
        counted s' (p' # map fst Q)) \<and>
     (\<exists>s' p'. erase cmp v (s, p) = Some (s', p') \<and> hinv s' p' Q (erase_t cmp v t) \<and>
        counted s' (p' # map fst Q)) \<and>
     (\<exists>r s' p'. find_memoize cmp v (s, p) = Some (r, s', p') \<and>
        hinv s' p' Q (snd (find_memoize_t cmp v t)) \<and> counted s' (p' # map fst Q)) \<and>
     (\<exists>s'. clear (s, p) = Some (s', None) \<and> hinv s' None Q Leaf \<and> counted s' (None # map fst Q)) \<and>
     (\<exists>s'. copy_handle (s, p) = Some (s', p) \<and> hinv s' p ((p, t) # Q) t \<and>
        counted s' (p # p # map fst Q)) \<and>
     (\<exists>s'. destroy_handle (s, p) = Some s' \<and> hinv s' None Q Leaf \<and> counted s' (None # map fst Q)) \<and>
     (\<exists>s' r. insert_copy cmp v (s, p) = Some (s', r) \<and> hinv s' r ((p, t) # Q) (insert_t cmp v t) \<and>
        counted s' (r # p # map fst Q)) \<and>
     (\<exists>s' r. erase_copy cmp v (s, p) = Some (s', r) \<and> hinv s' r ((p, t) # Q) (erase_t cmp v t) \<and>
        counted s' (r # p # map fst Q)) \<and>
     counted s (p # map fst Q) \<and>
     (\<forall>a nd c x. heap s a = Some nd \<longrightarrow> 1 < m_rc nd \<longrightarrow>
        write_left a c s = None \<and> write_right a c s = None \<and> write_value a x s = None \<and>
        update a c c s = None) \<and>
     hinv s None ((p, t) # Q) Leaf \<and>
     (\<forall>q tq Q'. Q = (q, tq) # Q' \<longrightarrow> hinv s q ((p, t) # Q') tq) \<and>
     hinv (empty_store :: 'a store) None [] Leaf"
proof -
  note ok = assms(1) and inv = assms(2) and b = assms(3)
  have 1: "\<exists>s' p'. insert_h cmp v (s, p) = Some (s', p') \<and> hinv s' p' Q (insert_t cmp v t) \<and>
        counted s' (p' # map fst Q)"
    using insert_h_correct [OF inv ok b, of v] hinv_counted by blast
  have 2: "\<exists>s' p'. erase cmp v (s, p) = Some (s', p') \<and> hinv s' p' Q (erase_t cmp v t) \<and>
        counted s' (p' # map fst Q)"
    using erase_correct [OF inv ok b, of v] hinv_counted by blast
  have 3: "\<exists>r s' p'. find_memoize cmp v (s, p) = Some (r, s', p') \<and>
        hinv s' p' Q (snd (find_memoize_t cmp v t)) \<and> counted s' (p' # map fst Q)"
    using find_memoize_correct [OF inv ok b, of v] hinv_counted by blast
  have 4: "\<exists>s'. clear (s, p) = Some (s', None) \<and> hinv s' None Q Leaf \<and> counted s' (None # map fst Q)"
    using clear_correct [OF inv] hinv_counted by (fastforce simp: clear_t_def)
  have 5: "\<exists>s'. copy_handle (s, p) = Some (s', p) \<and> hinv s' p ((p, t) # Q) t \<and>
        counted s' (p # p # map fst Q)"
    using copy_handle_correct [OF inv] hinv_counted by fastforce
  have 6: "\<exists>s'. destroy_handle (s, p) = Some s' \<and> hinv s' None Q Leaf \<and> counted s' (None # map fst Q)"
    using destroy_handle_correct [OF inv] hinv_counted by blast
  have 7: "\<exists>s' r. insert_copy cmp v (s, p) = Some (s', r) \<and> hinv s' r ((p, t) # Q) (insert_t cmp v t) \<and>
        counted s' (r # p # map fst Q)"
    using insert_copy_correct [OF inv ok b, of v] hinv_counted by fastforce
  have 8: "\<exists>s' r. erase_copy cmp v (s, p) = Some (s', r) \<and> hinv s' r ((p, t) # Q) (erase_t cmp v t) \<and>
        counted s' (r # p # map fst Q)"
    using erase_copy_correct [OF inv ok b, of v] hinv_counted by fastforce
  have 9: "counted s (p # map fst Q)" by (rule hinv_counted [OF inv])
  have 10: "\<forall>a nd c x. heap s a = Some nd \<longrightarrow> 1 < m_rc nd \<longrightarrow>
        write_left a c s = None \<and> write_right a c s = None \<and> write_value a x s = None \<and>
        update a c c s = None"
    by (simp add: write_left_def write_right_def write_value_def update_def is_shared_def)
  have 11: "hinv s None ((p, t) # Q) Leaf"
    using inv by (simp add: hinv_def repr_def)
  have 12: "\<forall>q tq Q'. Q = (q, tq) # Q' \<longrightarrow> hinv s q ((p, t) # Q') tq"
    using inv hinv_swap by blast
  have 13: "hinv (empty_store :: 'a store) None [] Leaf" by (rule hinv_empty)
  from 1 2 3 4 5 6 7 8 9 10 11 12 13 show ?thesis by (intro conjI)
qed

theorem refcounts_exact_no_shared_write_witness:
  "cmp_ok int_cmp \<and>
   hinv shared_pair (Some 0) [(Some 0, Node Leaf 1 Leaf)] (Node Leaf 1 Leaf) \<and>
   bst int_cmp (Node Leaf 1 Leaf) \<and>
   (\<exists>s' p'. insert_h int_cmp 2 (shared_pair, Some 0) = Some (s', p') \<and>
      hinv s' p' [(Some 0, Node Leaf 1 Leaf)] (insert_t int_cmp 2 (Node Leaf 1 Leaf)) \<and>
      counted s' [p', Some 0]) \<and>
   (\<exists>s'. clear (shared_pair, Some 0) = Some (s', None) \<and> counted s' [None, Some 0]) \<and>
   rc_of shared_pair 0 = 2 \<and> write_value 0 7 shared_pair = None"
proof -
  have b: "bst int_cmp (Node Leaf 1 Leaf)" by (simp add: bst_def)
  have r: "rc_of shared_pair 0 = 2" by (simp add: rc_of_def shared_pair_def)
  have h: "heap shared_pair 0 = Some \<lparr>m_left = None, m_right = None, m_value = 1, m_rc = 2\<rparr>"
    by (simp add: shared_pair_def)
  note T = refcounts_exact_no_shared_write [OF int_cmp_ok hinv_shared_pair b, of 2]
  from T have i: "\<exists>s' p'. insert_h int_cmp 2 (shared_pair, Some 0) = Some (s', p') \<and>
      hinv s' p' [(Some 0, Node Leaf 1 Leaf)] (insert_t int_cmp 2 (Node Leaf 1 Leaf)) \<and>
      counted s' [p', Some 0]" by (elim conjE) simp
  from T have "\<exists>s'. clear (shared_pair, Some 0) = Some (s', None) \<and>
      hinv s' None [(Some 0, Node Leaf 1 Leaf)] Leaf \<and> counted s' [None, Some 0]"
    by (elim conjE) simp
  then have c: "\<exists>s'. clear (shared_pair, Some 0) = Some (s', None) \<and> counted s' [None, Some 0]"
    by blast
  from T have "\<forall>a nd c x. heap shared_pair a = Some nd \<longrightarrow> 1 < m_rc nd \<longrightarrow>
        write_left a c shared_pair = None \<and> write_right a c shared_pair = None \<and>
        write_value a x shared_pair = None \<and> update a c c shared_pair = None"
    by (elim conjE)
  with h have w: "write_value 0 7 shared_pair = None" by simp
  from int_cmp_ok hinv_shared_pair b i c r w show ?thesis by (intro conjI)
qed

text \<open>
  C8 (persistence under aliasing).  Let \<open>a\<close> be a handle with tree \<open>t\<close>.  After
  \<^verbatim>\<open>B := copy(A)\<close>, which gives the handle \<open>b\<close>, each of \<^verbatim>\<open>insert\<close>, \<^verbatim>\<open>erase\<close>,
  \<^verbatim>\<open>find_memoize\<close> and \<^verbatim>\<open>clear\<close> on \<open>A\<close> returns, and \<^verbatim>\<open>to_buffer\<close> of \<open>b\<close> in the store it
  leaves gives the elements that \<open>A\<close> had when it was copied.  The non-member
  \<^verbatim>\<open>insert(t, v)\<close> and \<^verbatim>\<open>erase(t, v)\<close> return a handle \<open>r\<close> whose elements are those of the
  input without the elements equal to \<open>v\<close>, and with \<open>v\<close> for \<^verbatim>\<open>insert\<close>, while
  \<^verbatim>\<open>to_buffer\<close> of the input handle gives what it gave before the call.
\<close>

theorem copies_are_persistent:
  assumes "cmp_ok cmp" and "hinv s a Q t" and "bst cmp t"
  shows
    "to_buffer s a [] = Some (to_buffer_t t) \<and>
     (\<exists>s1 b. copy_handle (s, a) = Some (s1, b) \<and>
        to_buffer s1 a [] = Some (to_buffer_t t) \<and>
        (\<exists>s2 a2. insert_h cmp v (s1, a) = Some (s2, a2) \<and>
           to_buffer s2 b [] = Some (to_buffer_t t) \<and>
           to_buffer s2 a2 [] = Some (to_buffer_t (insert_t cmp v t))) \<and>
        (\<exists>s2 a2. erase cmp v (s1, a) = Some (s2, a2) \<and>
           to_buffer s2 b [] = Some (to_buffer_t t) \<and>
           to_buffer s2 a2 [] = Some (to_buffer_t (erase_t cmp v t))) \<and>
        (\<exists>r s2 a2. find_memoize cmp v (s1, a) = Some (r, s2, a2) \<and>
           to_buffer s2 b [] = Some (to_buffer_t t) \<and>
           to_buffer s2 a2 [] = Some (to_buffer_t t)) \<and>
        (\<exists>s2 a2. clear (s1, a) = Some (s2, a2) \<and>
           to_buffer s2 b [] = Some (to_buffer_t t) \<and>
           to_buffer s2 a2 [] = Some [])) \<and>
     (\<exists>s' r xs. insert_copy cmp v (s, a) = Some (s', r) \<and>
        to_buffer s' a [] = Some (to_buffer_t t) \<and>
        to_buffer s' r [] = Some xs \<and>
        set xs = {y \<in> set (to_buffer_t t). cmp y v \<noteq> 0} \<union> {v}) \<and>
     (\<exists>s' r xs. erase_copy cmp v (s, a) = Some (s', r) \<and>
        to_buffer s' a [] = Some (to_buffer_t t) \<and>
        to_buffer s' r [] = Some xs \<and>
        set xs = {y \<in> set (to_buffer_t t). cmp y v \<noteq> 0})"
proof -
  note ok = assms(1) and inv = assms(2) and b = assms(3)
  have 0: "to_buffer s a [] = Some (to_buffer_t t)" by (rule hinv_to_buffer [OF inv])
  from copy_handle_correct [OF inv] obtain s1 where
    c: "copy_handle (s, a) = Some (s1, a)" and i1: "hinv s1 a ((a, t) # Q) t" by blast
  have keep: "\<And>s2 a2 t2. hinv s2 a2 ((a, t) # Q) t2 \<Longrightarrow>
      to_buffer s2 a [] = Some (to_buffer_t t) \<and> to_buffer s2 a2 [] = Some (to_buffer_t t2)"
  proof -
    fix s2 a2 t2 assume i2: "hinv s2 a2 ((a, t) # Q) t2"
    have "(a, t) \<in> set ((a, t) # Q)" by simp
    from hinv_to_buffer_other [OF i2 this] hinv_to_buffer [OF i2]
    show "to_buffer s2 a [] = Some (to_buffer_t t) \<and> to_buffer s2 a2 [] = Some (to_buffer_t t2)"
      by simp
  qed
  have 1: "to_buffer s1 a [] = Some (to_buffer_t t)" by (rule hinv_to_buffer [OF i1])
  have 2: "\<exists>s2 a2. insert_h cmp v (s1, a) = Some (s2, a2) \<and>
           to_buffer s2 a [] = Some (to_buffer_t t) \<and>
           to_buffer s2 a2 [] = Some (to_buffer_t (insert_t cmp v t))"
    using insert_h_correct [OF i1 ok b, of v] keep by blast
  have 3: "\<exists>s2 a2. erase cmp v (s1, a) = Some (s2, a2) \<and>
           to_buffer s2 a [] = Some (to_buffer_t t) \<and>
           to_buffer s2 a2 [] = Some (to_buffer_t (erase_t cmp v t))"
    using erase_correct [OF i1 ok b, of v] keep by blast
  have 4: "\<exists>r s2 a2. find_memoize cmp v (s1, a) = Some (r, s2, a2) \<and>
           to_buffer s2 a [] = Some (to_buffer_t t) \<and>
           to_buffer s2 a2 [] = Some (to_buffer_t t)"
  proof -
    from find_memoize_correct [OF i1 ok b, of v] obtain r s2 a2 where
      f: "find_memoize cmp v (s1, a) = Some (r, s2, a2)"
      and i2: "hinv s2 a2 ((a, t) # Q) (snd (find_memoize_t cmp v t))" by blast
    have "to_buffer_t (snd (find_memoize_t cmp v t)) = to_buffer_t t"
      by (simp add: find_memoize_snd pull_inorder)
    with keep [OF i2] f show ?thesis by auto
  qed
  have 5: "\<exists>s2 a2. clear (s1, a) = Some (s2, a2) \<and>
           to_buffer s2 a [] = Some (to_buffer_t t) \<and>
           to_buffer s2 a2 [] = Some []"
  proof -
    from clear_correct [OF i1] obtain s2 where
      f: "clear (s1, a) = Some (s2, None)" and i2: "hinv s2 None ((a, t) # Q) Leaf"
      by (auto simp: clear_t_def)
    from keep [OF i2] f show ?thesis by auto
  qed
  have 6: "\<exists>s' r xs. insert_copy cmp v (s, a) = Some (s', r) \<and>
        to_buffer s' a [] = Some (to_buffer_t t) \<and>
        to_buffer s' r [] = Some xs \<and>
        set xs = {y \<in> set (to_buffer_t t). cmp y v \<noteq> 0} \<union> {v}"
  proof -
    from insert_copy_correct [OF inv ok b, of v] obtain s' r where
      f: "insert_copy cmp v (s, a) = Some (s', r)"
      and i2: "hinv s' r ((a, t) # Q) (insert_t cmp v t)" by blast
    from keep [OF i2] f insert_sorted_set [OF ok b, of v] show ?thesis by auto
  qed
  have 7: "\<exists>s' r xs. erase_copy cmp v (s, a) = Some (s', r) \<and>
        to_buffer s' a [] = Some (to_buffer_t t) \<and>
        to_buffer s' r [] = Some xs \<and>
        set xs = {y \<in> set (to_buffer_t t). cmp y v \<noteq> 0}"
  proof -
    from erase_copy_correct [OF inv ok b, of v] obtain s' r where
      f: "erase_copy cmp v (s, a) = Some (s', r)"
      and i2: "hinv s' r ((a, t) # Q) (erase_t cmp v t)" by blast
    from keep [OF i2] f erase_sorted_set [OF ok b, of v] show ?thesis by auto
  qed
  from c 1 2 3 4 5 have "\<exists>s1 b. copy_handle (s, a) = Some (s1, b) \<and>
        to_buffer s1 a [] = Some (to_buffer_t t) \<and>
        (\<exists>s2 a2. insert_h cmp v (s1, a) = Some (s2, a2) \<and>
           to_buffer s2 b [] = Some (to_buffer_t t) \<and>
           to_buffer s2 a2 [] = Some (to_buffer_t (insert_t cmp v t))) \<and>
        (\<exists>s2 a2. erase cmp v (s1, a) = Some (s2, a2) \<and>
           to_buffer s2 b [] = Some (to_buffer_t t) \<and>
           to_buffer s2 a2 [] = Some (to_buffer_t (erase_t cmp v t))) \<and>
        (\<exists>r s2 a2. find_memoize cmp v (s1, a) = Some (r, s2, a2) \<and>
           to_buffer s2 b [] = Some (to_buffer_t t) \<and>
           to_buffer s2 a2 [] = Some (to_buffer_t t)) \<and>
        (\<exists>s2 a2. clear (s1, a) = Some (s2, a2) \<and>
           to_buffer s2 b [] = Some (to_buffer_t t) \<and>
           to_buffer s2 a2 [] = Some [])"
    by blast
  with 0 6 7 show ?thesis by (intro conjI)
qed

theorem copies_are_persistent_witness:
  "cmp_ok int_cmp \<and>
   hinv shared_pair (Some 0) [(Some 0, Node Leaf 1 Leaf)] (Node Leaf 1 Leaf) \<and>
   bst int_cmp (Node Leaf 1 Leaf) \<and>
   to_buffer shared_pair (Some 0) [] = Some [1] \<and>
   (\<exists>s' r xs. insert_copy int_cmp 2 (shared_pair, Some 0) = Some (s', r) \<and>
      to_buffer s' (Some 0) [] = Some [1] \<and> to_buffer s' r [] = Some xs \<and> set xs = {1, 2}) \<and>
   (\<exists>s' r. erase_copy int_cmp 1 (shared_pair, Some 0) = Some (s', r) \<and>
      to_buffer s' (Some 0) [] = Some [1] \<and> to_buffer s' r [] = Some [])"
proof -
  have b: "bst int_cmp (Node Leaf 1 Leaf)" by (simp add: bst_def)
  have e: "{y. y = (1::int) \<and> int_cmp y 2 \<noteq> 0} = {1}" "{y. y = (1::int) \<and> int_cmp y 1 \<noteq> 0} = {}"
    by (auto simp: int_cmp_def)
  from copies_are_persistent [OF int_cmp_ok hinv_shared_pair b, of 2]
    copies_are_persistent [OF int_cmp_ok hinv_shared_pair b, of 1]
  show ?thesis using int_cmp_ok hinv_shared_pair b by (auto simp: e)
qed

text \<open>
  C1.  The splay phase has six rewrite cases.  While the path holds two entries or more,
  the pair (\<open>g_right\<close>, \<open>p_right\<close>) selects one of four two-level rewrites; a single
  remaining entry selects one of two one-level rewrites by \<open>p_right\<close>.  On tree
  values each case turns the before-shape of the table into its after-shape.  In the
  store, with \<open>g\<close>, \<open>p\<close>, \<open>n\<close> distinct unshared nodes and \<open>p\<close> in the slot of \<open>g\<close>
  named by \<open>g_right\<close>, each case rewrites the child slots of \<open>g\<close>, \<open>p\<close> and \<open>n\<close> only,
  to the after-shape, whatever the slot of \<open>p\<close> towards \<open>n\<close> holds; the references
  \<open>A\<close> to \<open>D\<close> are moved from slot to slot, and no reference count in the store changes
  in any run of \<open>splay_to_top\<close>.  The splay phase is the repetition of these cases:
  on tree values \<open>splay_to_top_t\<close> applies a two-level case to the two entries on top of
  the path as long as there are two, then a one-level case to a last entry.  In the
  store, when \<open>n\<close> and the entries of the path are distinct unshared nodes that are
  linked along the path, \<^verbatim>\<open>splay_to_top\<close> returns, \<open>n\<close> then is the root of the tree
  that \<open>splay_to_top_t\<close> computes, only \<open>n\<close> and the nodes of the path are written, no
  reference count changes, and the references held by child slots are the same apart
  from the one to \<open>n\<close>, which has become one to the old root.
\<close>

theorem splay_six_rewrites:
  assumes "heap s g = Some gn" and "heap s p = Some pn" and "heap s n = Some nn"
    and "g \<noteq> p" and "g \<noteq> n" and "p \<noteq> n"
    and "m_rc gn \<le> 1" and "m_rc pn \<le> 1" and "m_rc nn \<le> 1"
  shows "((ptr (splay_step2_t (False, (Node (Node A nv B) pv C, gv, D)) (False, (Node A nv B, pv, C)) (A, nv, B))
        = Node A nv (Node B pv (Node C gv D))) \<and>
    (ptr (splay_step2_t (False, (Node A pv (Node B nv C), gv, D)) (True, (A, pv, Node B nv C)) (B, nv, C))
        = Node (Node A pv B) nv (Node C gv D)) \<and>
    (ptr (splay_step2_t (True, (A, gv, Node (Node B nv C) pv D)) (False, (Node B nv C, pv, D)) (B, nv, C))
        = Node (Node A gv B) nv (Node C pv D)) \<and>
    (ptr (splay_step2_t (True, (A, gv, Node B pv (Node C nv D))) (True, (B, pv, Node C nv D)) (C, nv, D))
        = Node (Node (Node A gv B) pv C) nv D) \<and>
    (ptr (splay_step1_t (False, (Node A nv B, pv, C)) (A, nv, B)) = Node A nv (Node B pv C)) \<and>
    (ptr (splay_step1_t (True, (A, pv, Node B nv C)) (B, nv, C)) = Node (Node A pv B) nv C) \<and>
    (m_left gn = Some p \<longrightarrow> splay_step2 (False, g) (False, p) n s =
      Some (s\<lparr>heap := (heap s)
        (g \<mapsto> gn\<lparr>m_left := m_right pn, m_right := m_right gn\<rparr>,
         p \<mapsto> pn\<lparr>m_left := m_right nn, m_right := Some g\<rparr>,
         n \<mapsto> nn\<lparr>m_left := m_left nn, m_right := Some p\<rparr>)\<rparr>)) \<and>
    (m_left gn = Some p \<longrightarrow> splay_step2 (False, g) (True, p) n s =
      Some (s\<lparr>heap := (heap s)
        (p \<mapsto> pn\<lparr>m_left := m_left pn, m_right := m_left nn\<rparr>,
         g \<mapsto> gn\<lparr>m_left := m_right nn, m_right := m_right gn\<rparr>,
         n \<mapsto> nn\<lparr>m_left := Some p, m_right := Some g\<rparr>)\<rparr>)) \<and>
    (m_right gn = Some p \<longrightarrow> splay_step2 (True, g) (False, p) n s =
      Some (s\<lparr>heap := (heap s)
        (g \<mapsto> gn\<lparr>m_left := m_left gn, m_right := m_left nn\<rparr>,
         p \<mapsto> pn\<lparr>m_left := m_right nn, m_right := m_right pn\<rparr>,
         n \<mapsto> nn\<lparr>m_left := Some g, m_right := Some p\<rparr>)\<rparr>)) \<and>
    (m_right gn = Some p \<longrightarrow> splay_step2 (True, g) (True, p) n s =
      Some (s\<lparr>heap := (heap s)
        (g \<mapsto> gn\<lparr>m_left := m_left gn, m_right := m_left pn\<rparr>,
         p \<mapsto> pn\<lparr>m_left := Some g, m_right := m_left nn\<rparr>,
         n \<mapsto> nn\<lparr>m_left := Some p, m_right := m_right nn\<rparr>)\<rparr>)) \<and>
    (splay_step1 (False, p) n s =
      Some (s\<lparr>heap := (heap s)
        (p \<mapsto> pn\<lparr>m_left := m_right nn, m_right := m_right pn\<rparr>,
         n \<mapsto> nn\<lparr>m_left := m_left nn, m_right := Some p\<rparr>)\<rparr>)) \<and>
    (splay_step1 (True, p) n s =
      Some (s\<lparr>heap := (heap s)
        (p \<mapsto> pn\<lparr>m_left := m_left pn, m_right := m_left nn\<rparr>,
         n \<mapsto> nn\<lparr>m_left := Some p, m_right := m_right nn\<rparr>)\<rparr>)) \<and>
    (\<forall>pe ge path. splay_loop (pe # ge # path) n s = splay_step2 ge pe n s \<bind> splay_loop path n) \<and>
    (\<forall>pe. splay_loop [pe] n s = splay_step1 pe n s) \<and>
    (\<forall>path s' a. splay_to_top path n s = Some s' \<longrightarrow> rc_of s' a = rc_of s a)) \<and>
    (\<forall>pe ge tp tn. splay_to_top_t (pe # ge # tp) tn = splay_to_top_t tp (splay_step2_t ge pe tn)) \<and>
    (\<forall>pe tn. splay_to_top_t [pe] tn = splay_step1_t pe tn) \<and>
    (\<forall>tn. splay_to_top_t [] tn = tn) \<and>
    (\<forall>path tpath tn.
       node_rel s (insert n (snd ` set path)) n tn \<longrightarrow>
       list_all2 (entry_rel s (insert n (snd ` set path))) path tpath \<longrightarrow>
       links s path \<longrightarrow> distinct (n # map snd path) \<longrightarrow>
       (\<forall>a. heap s a \<noteq> None \<longrightarrow> a < next_free s) \<longrightarrow>
       (\<exists>s'. splay_to_top path n s = Some s' \<and>
          node_rel s' {n} n (splay_to_top_t tpath tn) \<and>
          repr s' (Some n) (ptr (splay_to_top_t tpath tn)) \<and>
          same_outside (insert n (snd ` set path)) s s' \<and>
          (\<forall>a. rc_of s' a = rc_of s a) \<and>
          (path \<noteq> [] \<longrightarrow>
             (\<forall>nd. heap s (snd (hd path)) = Some nd \<longrightarrow>
                live_refs s' + opt_mset (slot (fst (hd path)) nd) = live_refs s + {#snd (last path)#}))))"
proof -
  have V: "(ptr (splay_step2_t (False, (Node (Node A nv B) pv C, gv, D)) (False, (Node A nv B, pv, C)) (A, nv, B))
        = Node A nv (Node B pv (Node C gv D))) \<and>
    (ptr (splay_step2_t (False, (Node A pv (Node B nv C), gv, D)) (True, (A, pv, Node B nv C)) (B, nv, C))
        = Node (Node A pv B) nv (Node C gv D)) \<and>
    (ptr (splay_step2_t (True, (A, gv, Node (Node B nv C) pv D)) (False, (Node B nv C, pv, D)) (B, nv, C))
        = Node (Node A gv B) nv (Node C pv D)) \<and>
    (ptr (splay_step2_t (True, (A, gv, Node B pv (Node C nv D))) (True, (B, pv, Node C nv D)) (C, nv, D))
        = Node (Node (Node A gv B) pv C) nv D) \<and>
    (ptr (splay_step1_t (False, (Node A nv B, pv, C)) (A, nv, B)) = Node A nv (Node B pv C)) \<and>
    (ptr (splay_step1_t (True, (A, pv, Node B nv C)) (B, nv, C)) = Node (Node A pv B) nv C) \<and>
    (m_left gn = Some p \<longrightarrow> splay_step2 (False, g) (False, p) n s =
      Some (s\<lparr>heap := (heap s)
        (g \<mapsto> gn\<lparr>m_left := m_right pn, m_right := m_right gn\<rparr>,
         p \<mapsto> pn\<lparr>m_left := m_right nn, m_right := Some g\<rparr>,
         n \<mapsto> nn\<lparr>m_left := m_left nn, m_right := Some p\<rparr>)\<rparr>)) \<and>
    (m_left gn = Some p \<longrightarrow> splay_step2 (False, g) (True, p) n s =
      Some (s\<lparr>heap := (heap s)
        (p \<mapsto> pn\<lparr>m_left := m_left pn, m_right := m_left nn\<rparr>,
         g \<mapsto> gn\<lparr>m_left := m_right nn, m_right := m_right gn\<rparr>,
         n \<mapsto> nn\<lparr>m_left := Some p, m_right := Some g\<rparr>)\<rparr>)) \<and>
    (m_right gn = Some p \<longrightarrow> splay_step2 (True, g) (False, p) n s =
      Some (s\<lparr>heap := (heap s)
        (g \<mapsto> gn\<lparr>m_left := m_left gn, m_right := m_left nn\<rparr>,
         p \<mapsto> pn\<lparr>m_left := m_right nn, m_right := m_right pn\<rparr>,
         n \<mapsto> nn\<lparr>m_left := Some g, m_right := Some p\<rparr>)\<rparr>)) \<and>
    (m_right gn = Some p \<longrightarrow> splay_step2 (True, g) (True, p) n s =
      Some (s\<lparr>heap := (heap s)
        (g \<mapsto> gn\<lparr>m_left := m_left gn, m_right := m_left pn\<rparr>,
         p \<mapsto> pn\<lparr>m_left := Some g, m_right := m_left nn\<rparr>,
         n \<mapsto> nn\<lparr>m_left := Some p, m_right := m_right nn\<rparr>)\<rparr>)) \<and>
    (splay_step1 (False, p) n s =
      Some (s\<lparr>heap := (heap s)
        (p \<mapsto> pn\<lparr>m_left := m_right nn, m_right := m_right pn\<rparr>,
         n \<mapsto> nn\<lparr>m_left := m_left nn, m_right := Some p\<rparr>)\<rparr>)) \<and>
    (splay_step1 (True, p) n s =
      Some (s\<lparr>heap := (heap s)
        (p \<mapsto> pn\<lparr>m_left := m_left pn, m_right := m_left nn\<rparr>,
         n \<mapsto> nn\<lparr>m_left := Some p, m_right := m_right nn\<rparr>)\<rparr>)) \<and>
    (\<forall>pe ge path. splay_loop (pe # ge # path) n s = splay_step2 ge pe n s \<bind> splay_loop path n) \<and>
    (\<forall>pe. splay_loop [pe] n s = splay_step1 pe n s) \<and>
    (\<forall>path s' a. splay_to_top path n s = Some s' \<longrightarrow> rc_of s' a = rc_of s a)"
  proof -
    note c2 = splay_step2_cases [OF assms]
    note c1 = splay_step1_cases [OF assms(2,3,6,8,9)]
    have t: "(ptr (splay_step2_t (False, (Node (Node A nv B) pv C, gv, D)) (False, (Node A nv B, pv, C)) (A, nv, B))
          = Node A nv (Node B pv (Node C gv D))) \<and>
      (ptr (splay_step2_t (False, (Node A pv (Node B nv C), gv, D)) (True, (A, pv, Node B nv C)) (B, nv, C))
          = Node (Node A pv B) nv (Node C gv D)) \<and>
      (ptr (splay_step2_t (True, (A, gv, Node (Node B nv C) pv D)) (False, (Node B nv C, pv, D)) (B, nv, C))
          = Node (Node A gv B) nv (Node C pv D)) \<and>
      (ptr (splay_step2_t (True, (A, gv, Node B pv (Node C nv D))) (True, (B, pv, Node C nv D)) (C, nv, D))
          = Node (Node (Node A gv B) pv C) nv D) \<and>
      (ptr (splay_step1_t (False, (Node A nv B, pv, C)) (A, nv, B)) = Node A nv (Node B pv C)) \<and>
      (ptr (splay_step1_t (True, (A, pv, Node B nv C)) (B, nv, C)) = Node (Node A pv B) nv C)"
      by simp
    have l: "(\<forall>pe ge path. splay_loop (pe # ge # path) n s = splay_step2 ge pe n s \<bind> splay_loop path n) \<and>
      (\<forall>pe. splay_loop [pe] n s = splay_step1 pe n s)"
      by simp
    have r: "\<forall>path s' a. splay_to_top path n s = Some s' \<longrightarrow> rc_of s' a = rc_of s a"
      using splay_to_top_rc_of by blast
    from t l r c2 c1 show ?thesis by blast
  qed
  have N1a: "\<forall>pe ge tp tn. splay_to_top_t (pe # ge # tp) tn = splay_to_top_t tp (splay_step2_t ge pe tn)"
    by simp
  have N1b: "\<forall>pe tn. splay_to_top_t [pe] tn = splay_step1_t pe tn" by simp
  have N1c: "\<forall>tn. splay_to_top_t [] tn = tn" by simp
  have N2: "(\<forall>path tpath tn.
       node_rel s (insert n (snd ` set path)) n tn \<longrightarrow>
       list_all2 (entry_rel s (insert n (snd ` set path))) path tpath \<longrightarrow>
       links s path \<longrightarrow> distinct (n # map snd path) \<longrightarrow>
       (\<forall>a. heap s a \<noteq> None \<longrightarrow> a < next_free s) \<longrightarrow>
       (\<exists>s'. splay_to_top path n s = Some s' \<and>
          node_rel s' {n} n (splay_to_top_t tpath tn) \<and>
          repr s' (Some n) (ptr (splay_to_top_t tpath tn)) \<and>
          same_outside (insert n (snd ` set path)) s s' \<and>
          (\<forall>a. rc_of s' a = rc_of s a) \<and>
          (path \<noteq> [] \<longrightarrow>
             (\<forall>nd. heap s (snd (hd path)) = Some nd \<longrightarrow>
                live_refs s' + opt_mset (slot (fst (hd path)) nd) = live_refs s + {#snd (last path)#}))))"
  proof (intro allI impI)
    fix path tpath tn
    assume nr: "node_rel s (insert n (snd ` set path)) n tn"
      and er: "list_all2 (entry_rel s (insert n (snd ` set path))) path tpath"
      and lk: "links s path" and di: "distinct (n # map snd path)"
      and al: "\<forall>a. heap s a \<noteq> None \<longrightarrow> a < next_free s"
    show "\<exists>s'. splay_to_top path n s = Some s' \<and>
      node_rel s' {n} n (splay_to_top_t tpath tn) \<and>
      repr s' (Some n) (ptr (splay_to_top_t tpath tn)) \<and>
      same_outside (insert n (snd ` set path)) s s' \<and>
      (\<forall>a. rc_of s' a = rc_of s a) \<and>
      (path \<noteq> [] \<longrightarrow>
         (\<forall>nd. heap s (snd (hd path)) = Some nd \<longrightarrow>
            live_refs s' + opt_mset (slot (fst (hd path)) nd) = live_refs s + {#snd (last path)#}))"
      by (rule splay_to_top_correct [OF nr er lk di al])
  qed
  show ?thesis by (rule conjI [OF V conjI [OF N1a conjI [OF N1b conjI [OF N1c N2]]]])
qed

theorem splay_six_rewrites_witness:
  "(heap three_chain 2 = Some \<lparr>m_left = Some 1, m_right = None, m_value = 3, m_rc = 1\<rparr> \<and>
   heap three_chain 1 = Some \<lparr>m_left = Some 0, m_right = None, m_value = 2, m_rc = 1\<rparr> \<and>
   heap three_chain 0 = Some \<lparr>m_left = None, m_right = None, m_value = 1, m_rc = 1\<rparr> \<and>
   splay_step2 (False, 2) (False, 1) 0 three_chain =
     Some (three_chain\<lparr>heap := (heap three_chain)
       (2 \<mapsto> \<lparr>m_left = None, m_right = None, m_value = 3, m_rc = 1\<rparr>,
        1 \<mapsto> \<lparr>m_left = None, m_right = Some 2, m_value = 2, m_rc = 1\<rparr>,
        0 \<mapsto> \<lparr>m_left = None, m_right = Some 1, m_value = 1, m_rc = 1\<rparr>)\<rparr>) \<and>
   splay_step1 (False, 1) 0 three_chain =
     Some (three_chain\<lparr>heap := (heap three_chain)
       (1 \<mapsto> \<lparr>m_left = None, m_right = None, m_value = 2, m_rc = 1\<rparr>,
        0 \<mapsto> \<lparr>m_left = None, m_right = Some 1, m_value = 1, m_rc = 1\<rparr>)\<rparr>)) \<and>
   node_rel three_chain {0, 1, 2} 0 (Leaf, 1, Leaf) \<and>
   list_all2 (entry_rel three_chain {0, 1, 2}) [(False, 1), (False, 2)]
     [(False, (Node Leaf 1 Leaf, 2, Leaf)), (False, (Node (Node Leaf 1 Leaf) 2 Leaf, 3, Leaf))] \<and>
   links three_chain [(False, 1), (False, 2)] \<and>
   (\<exists>s'. splay_to_top [(False, 1), (False, 2)] 0 three_chain = Some s' \<and>
      repr s' (Some 0) (Node Leaf 1 (Node Leaf 2 (Node Leaf 3 Leaf))) \<and>
      (\<forall>a. rc_of s' a = rc_of three_chain a)) \<and>
   splay_to_top [(False, 1), (False, 2)] 0 three_chain =
     Some (three_chain\<lparr>heap := (heap three_chain)
       (2 \<mapsto> \<lparr>m_left = None, m_right = None, m_value = 3, m_rc = 1\<rparr>,
        1 \<mapsto> \<lparr>m_left = None, m_right = Some 2, m_value = 2, m_rc = 1\<rparr>,
        0 \<mapsto> \<lparr>m_left = None, m_right = Some 1, m_value = 1, m_rc = 1\<rparr>)\<rparr>)"
proof -
  let ?gn = "\<lparr>m_left = Some 1, m_right = None, m_value = 3 :: int, m_rc = 1\<rparr>"
  let ?pn = "\<lparr>m_left = Some 0, m_right = None, m_value = 2 :: int, m_rc = 1\<rparr>"
  let ?nn = "\<lparr>m_left = None, m_right = None, m_value = 1 :: int, m_rc = 1\<rparr>"
  let ?path = "[(False, 1), (False, 2)] :: entry list"
  have hg: "heap three_chain 2 = Some ?gn" and hp: "heap three_chain 1 = Some ?pn"
    and hn: "heap three_chain 0 = Some ?nn"
    by (simp_all add: three_chain_def)
  have ne: "(2 :: nat) \<noteq> 1" "(2 :: nat) \<noteq> 0" "(1 :: nat) \<noteq> 0" by simp_all
  have rc: "m_rc ?gn \<le> 1" "m_rc ?pn \<le> 1" "m_rc ?nn \<le> 1" by simp_all
  note T = splay_six_rewrites [OF hg hp hn ne rc]
  have V: "heap three_chain 2 = Some \<lparr>m_left = Some 1, m_right = None, m_value = 3, m_rc = 1\<rparr> \<and>
   heap three_chain 1 = Some \<lparr>m_left = Some 0, m_right = None, m_value = 2, m_rc = 1\<rparr> \<and>
   heap three_chain 0 = Some \<lparr>m_left = None, m_right = None, m_value = 1, m_rc = 1\<rparr> \<and>
   splay_step2 (False, 2) (False, 1) 0 three_chain =
     Some (three_chain\<lparr>heap := (heap three_chain)
       (2 \<mapsto> \<lparr>m_left = None, m_right = None, m_value = 3, m_rc = 1\<rparr>,
        1 \<mapsto> \<lparr>m_left = None, m_right = Some 2, m_value = 2, m_rc = 1\<rparr>,
        0 \<mapsto> \<lparr>m_left = None, m_right = Some 1, m_value = 1, m_rc = 1\<rparr>)\<rparr>) \<and>
   splay_step1 (False, 1) 0 three_chain =
     Some (three_chain\<lparr>heap := (heap three_chain)
       (1 \<mapsto> \<lparr>m_left = None, m_right = None, m_value = 2, m_rc = 1\<rparr>,
        0 \<mapsto> \<lparr>m_left = None, m_right = Some 1, m_value = 1, m_rc = 1\<rparr>)\<rparr>)"
    using T [THEN conjunct1] by (simp add: three_chain_def)
  have M: "insert 0 (snd ` set ?path) = {0, 1, 2}" by auto
  have nr: "node_rel three_chain (insert 0 (snd ` set ?path)) 0 (Leaf, 1, Leaf)"
    by (simp add: node_rel_def three_chain_def)
  have er: "list_all2 (entry_rel three_chain (insert 0 (snd ` set ?path))) ?path
     [(False, (Node Leaf 1 Leaf, 2, Leaf)), (False, (Node (Node Leaf 1 Leaf) 2 Leaf, 3, Leaf))]"
    by (simp add: entry_rel_def three_chain_def slot_def)
  have lk: "links three_chain ?path" by (simp add: three_chain_def slot_def)
  have di: "distinct (0 # map snd ?path)" by simp
  have al: "\<forall>a. heap three_chain a \<noteq> None \<longrightarrow> a < next_free three_chain"
    by (auto simp: three_chain_def split: if_splits)
  have tv: "ptr (splay_to_top_t
       [(False, (Node Leaf 1 Leaf, 2, Leaf)), (False, (Node (Node Leaf 1 Leaf) 2 Leaf, 3, Leaf))]
       (Leaf, 1 :: int, Leaf)) = Node Leaf 1 (Node Leaf 2 (Node Leaf 3 Leaf))"
    by simp
  from T [THEN conjunct2, THEN conjunct2, THEN conjunct2, THEN conjunct2, rule_format, OF nr er lk di al [rule_format]]
  obtain s' where st: "splay_to_top ?path 0 three_chain = Some s'"
    and rp: "repr s' (Some 0) (ptr (splay_to_top_t
       [(False, (Node Leaf 1 Leaf, 2, Leaf)), (False, (Node (Node Leaf 1 Leaf) 2 Leaf, 3, Leaf))]
       (Leaf, 1, Leaf)))"
    and rcs: "\<forall>a. rc_of s' a = rc_of three_chain a"
    by blast
  from st rp rcs have E: "\<exists>s'. splay_to_top ?path 0 three_chain = Some s' \<and>
      repr s' (Some 0) (Node Leaf 1 (Node Leaf 2 (Node Leaf 3 Leaf))) \<and>
      (\<forall>a. rc_of s' a = rc_of three_chain a)"
    unfolding tv by blast
  from V have s2: "splay_step2 (False, 2) (False, 1) 0 three_chain =
     Some (three_chain\<lparr>heap := (heap three_chain)
       (2 \<mapsto> \<lparr>m_left = None, m_right = None, m_value = 3, m_rc = 1\<rparr>,
        1 \<mapsto> \<lparr>m_left = None, m_right = Some 2, m_value = 2, m_rc = 1\<rparr>,
        0 \<mapsto> \<lparr>m_left = None, m_right = Some 1, m_value = 1, m_rc = 1\<rparr>)\<rparr>)"
    by (elim conjE)
  have X: "splay_to_top ?path 0 three_chain =
     Some (three_chain\<lparr>heap := (heap three_chain)
       (2 \<mapsto> \<lparr>m_left = None, m_right = None, m_value = 3, m_rc = 1\<rparr>,
        1 \<mapsto> \<lparr>m_left = None, m_right = Some 2, m_value = 2, m_rc = 1\<rparr>,
        0 \<mapsto> \<lparr>m_left = None, m_right = Some 1, m_value = 1, m_rc = 1\<rparr>)\<rparr>)"
    using hn s2 by (simp add: splay_to_top_def unshared_def is_shared_def)
  note nr' = nr [unfolded M] and er' = er [unfolded M]
  show ?thesis
    by (rule conjI [OF V conjI [OF nr' conjI [OF er' conjI [OF lk conjI [OF E X]]]]])
qed

text \<open>
  C6, amended.  Search-tree order is an invariant of each handle with its own comparator,
  and the comparator is part of the handle: \<^verbatim>\<open>swap\<close> exchanges the roots only.  Under a
  comparator that meets its contract, when the tree of a handle is in search-tree order
  before \<open>insert\<close>, \<open>erase\<close>, \<open>find\<close>, \<open>find_memoize\<close>, \<open>clear\<close> or the copy
  constructor, the trees of the handles involved are so afterwards; after \<open>swap\<close> they
  are so when the comparators of the two handles order every pair of values alike.  A
  tree in search-tree order passes \<open>check_invariant\<close> (the value of every left child is
  less than its parent's, the value of every parent is less than its right child's), and
  \<open>to_buffer\<close> lists its elements in strictly ascending order, without duplicates.
  In the store model, a handle that represents an ordered tree passes \<^verbatim>\<open>check_invariant\<close>,
  and so does the handle after \<^verbatim>\<open>insert\<close>, \<^verbatim>\<open>erase\<close>, \<^verbatim>\<open>find_memoize\<close> and \<^verbatim>\<open>clear\<close>,
  each of which returns; \<^verbatim>\<open>find\<close> returns and leaves the store as it is; the copy
  constructor returns a handle with the same comparator and root, and both handles pass;
  after \<^verbatim>\<open>swap\<close> of two handles whose comparators order alike each handle holds the
  other's root and passes with its own comparator; \<^verbatim>\<open>to_buffer\<close> gives the elements of
  the tree in order.
\<close>

theorem order_invariant:
  assumes "cmp_ok cmp" and "bst cmp t" and "bst cmp' t'"
    and "\<forall>a b. (cmp' a b < 0) = (cmp a b < 0)"
  shows "(bst cmp Leaf \<and>
    bst cmp (insert_t cmp v t) \<and>
    bst cmp (erase_t cmp v t) \<and>
    bst cmp (snd (find_memoize_t cmp v t)) \<and>
    bst cmp (clear_t t) \<and>
    copy_t (cmp, t) = ((cmp, t), (cmp, t)) \<and>
    ordered_t (fst (copy_t (cmp, t))) \<and> ordered_t (snd (copy_t (cmp, t))) \<and>
    swap_t (cmp, t) (cmp', t') = ((cmp, t'), (cmp', t)) \<and>
    ordered_t (fst (swap_t (cmp, t) (cmp', t'))) \<and> ordered_t (snd (swap_t (cmp, t) (cmp', t'))) \<and>
    check_invariant_t cmp t \<and>
    sorted_wrt (\<lambda>a b. cmp a b < 0) (to_buffer_t t) \<and>
    distinct (to_buffer_t t)) \<and>
    (\<forall>s p Q. hinv s p Q t \<longrightarrow>
       check_invariant cmp s p = Some True \<and>
       to_buffer s p [] = Some (to_buffer_t t) \<and>
       (\<exists>s' p'. insert_h cmp v (s, p) = Some (s', p') \<and> hinv s' p' Q (insert_t cmp v t) \<and>
          check_invariant cmp s' p' = Some True) \<and>
       (\<exists>s' p'. erase cmp v (s, p) = Some (s', p') \<and> hinv s' p' Q (erase_t cmp v t) \<and>
          check_invariant cmp s' p' = Some True) \<and>
       (\<exists>r s' p'. find_memoize cmp v (s, p) = Some (r, s', p') \<and>
          hinv s' p' Q (snd (find_memoize_t cmp v t)) \<and>
          check_invariant cmp s' p' = Some True) \<and>
       (\<exists>s'. clear (s, p) = Some (s', None) \<and> hinv s' None Q (clear_t t) \<and>
          check_invariant cmp s' None = Some True) \<and>
       (\<exists>r. find_h cmp v (s, p) = Some r) \<and>
       (\<exists>s'. copy_construct (s, (cmp, p)) = Some (s', (cmp, p)) \<and>
          hinv s' p ((p, t) # Q) t \<and> check_invariant cmp s' p = Some True)) \<and>
    (\<forall>s p q Q. hinv s p ((q, t') # Q) t \<longrightarrow>
       swap_handle (cmp, p) (cmp', q) = ((cmp, q), (cmp', p)) \<and>
       check_invariant cmp s q = Some True \<and> check_invariant cmp' s p = Some True \<and>
       to_buffer s q [] = Some (to_buffer_t t') \<and> to_buffer s p [] = Some (to_buffer_t t))"
proof -
  note ag = bst_agree [OF assms(4)]
  have bt': "bst cmp t'" using assms(3) ag by simp
  have b't: "bst cmp' t" using assms(2) ag by simp
  have 1: "bst cmp (insert_t cmp v t)" using insert_sorted_set [OF assms(1,2), of v] by simp
  have 2: "bst cmp (erase_t cmp v t)" using erase_sorted_set [OF assms(1,2), of v] by simp
  have 3: "bst cmp (snd (find_memoize_t cmp v t))"
    using assms(2) by (simp add: bst_def find_memoize_snd pull_inorder)
  have 4: "bst cmp (clear_t t)" by (simp add: clear_t_def bst_Leaf)
  have 5: "copy_t (cmp, t) = ((cmp, t), (cmp, t))" by (simp add: copy_t_def)
  have 6: "ordered_t (fst (copy_t (cmp, t))) \<and> ordered_t (snd (copy_t (cmp, t)))"
    using assms(2) by (simp add: copy_t_def ordered_t_def)
  have 7: "swap_t (cmp, t) (cmp', t') = ((cmp, t'), (cmp', t))" by (simp add: swap_t_def)
  have 8: "ordered_t (fst (swap_t (cmp, t) (cmp', t'))) \<and> ordered_t (snd (swap_t (cmp, t) (cmp', t')))"
    using bt' b't by (simp add: swap_t_def ordered_t_def)
  have 9: "check_invariant_t cmp t" by (rule check_invariant_bst [OF assms(2)])
  have 10: "sorted_wrt (\<lambda>a b. cmp a b < 0) (to_buffer_t t)" using assms(2) by (simp add: bst_def)
  have 11: "distinct (to_buffer_t t)" by (rule sorted_distinct [OF assms(1) 10])
  have V: "bst cmp Leaf \<and>
    bst cmp (insert_t cmp v t) \<and>
    bst cmp (erase_t cmp v t) \<and>
    bst cmp (snd (find_memoize_t cmp v t)) \<and>
    bst cmp (clear_t t) \<and>
    copy_t (cmp, t) = ((cmp, t), (cmp, t)) \<and>
    ordered_t (fst (copy_t (cmp, t))) \<and> ordered_t (snd (copy_t (cmp, t))) \<and>
    swap_t (cmp, t) (cmp', t') = ((cmp, t'), (cmp', t)) \<and>
    ordered_t (fst (swap_t (cmp, t) (cmp', t'))) \<and> ordered_t (snd (swap_t (cmp, t) (cmp', t'))) \<and>
    check_invariant_t cmp t \<and>
    sorted_wrt (\<lambda>a b. cmp a b < 0) (to_buffer_t t) \<and>
    distinct (to_buffer_t t)"
    using bst_Leaf [of cmp] 1 2 3 4 5 6 7 8 9 10 11 by (intro conjI) simp_all
  have H: "\<forall>s p Q. hinv s p Q t \<longrightarrow>
       check_invariant cmp s p = Some True \<and>
       to_buffer s p [] = Some (to_buffer_t t) \<and>
       (\<exists>s' p'. insert_h cmp v (s, p) = Some (s', p') \<and> hinv s' p' Q (insert_t cmp v t) \<and>
          check_invariant cmp s' p' = Some True) \<and>
       (\<exists>s' p'. erase cmp v (s, p) = Some (s', p') \<and> hinv s' p' Q (erase_t cmp v t) \<and>
          check_invariant cmp s' p' = Some True) \<and>
       (\<exists>r s' p'. find_memoize cmp v (s, p) = Some (r, s', p') \<and>
          hinv s' p' Q (snd (find_memoize_t cmp v t)) \<and>
          check_invariant cmp s' p' = Some True) \<and>
       (\<exists>s'. clear (s, p) = Some (s', None) \<and> hinv s' None Q (clear_t t) \<and>
          check_invariant cmp s' None = Some True) \<and>
       (\<exists>r. find_h cmp v (s, p) = Some r) \<and>
       (\<exists>s'. copy_construct (s, (cmp, p)) = Some (s', (cmp, p)) \<and>
          hinv s' p ((p, t) # Q) t \<and> check_invariant cmp s' p = Some True)"
  proof (intro allI impI)
    fix s p Q assume i: "hinv s p Q t"
    have a1: "check_invariant cmp s p = Some True" by (rule check_invariant_correct [OF i assms(2)])
    have a2: "to_buffer s p [] = Some (to_buffer_t t)" by (rule hinv_to_buffer [OF i])
    have a3: "\<exists>s' p'. insert_h cmp v (s, p) = Some (s', p') \<and> hinv s' p' Q (insert_t cmp v t) \<and>
        check_invariant cmp s' p' = Some True"
      using insert_h_elements [OF i assms(1,2), of v] by blast
    have a4: "\<exists>s' p'. erase cmp v (s, p) = Some (s', p') \<and> hinv s' p' Q (erase_t cmp v t) \<and>
        check_invariant cmp s' p' = Some True"
      using erase_elements [OF i assms(1,2), of v] by blast
    have a5: "\<exists>r s' p'. find_memoize cmp v (s, p) = Some (r, s', p') \<and>
        hinv s' p' Q (snd (find_memoize_t cmp v t)) \<and>
        check_invariant cmp s' p' = Some True"
    proof -
      from find_memoize_correct [OF i assms(1,2), of v] obtain r s' p' where
        f: "find_memoize cmp v (s, p) = Some (r, s', p')"
        and i': "hinv s' p' Q (snd (find_memoize_t cmp v t))" by blast
      from f i' check_invariant_correct [OF i' 3] show ?thesis by blast
    qed
    have a6: "\<exists>s'. clear (s, p) = Some (s', None) \<and> hinv s' None Q (clear_t t) \<and>
        check_invariant cmp s' None = Some True"
    proof -
      from clear_correct [OF i] obtain s' where
        f: "clear (s, p) = Some (s', None)" and i': "hinv s' None Q (clear_t t)" by blast
      from f i' check_invariant_correct [OF i' 4] show ?thesis by blast
    qed
    have a7: "\<exists>r. find_h cmp v (s, p) = Some r"
      using find_h_correct [OF i, of cmp v] by blast
    have a8: "\<exists>s'. copy_construct (s, (cmp, p)) = Some (s', (cmp, p)) \<and>
        hinv s' p ((p, t) # Q) t \<and> check_invariant cmp s' p = Some True"
    proof -
      from copy_handle_correct [OF i] obtain s' where
        f: "copy_handle (s, p) = Some (s', p)" and i': "hinv s' p ((p, t) # Q) t" by blast
      have "copy_construct (s, (cmp, p)) = Some (s', (cmp, p))"
        using f by (simp add: copy_construct_def)
      with i' check_invariant_correct [OF i' assms(2)] show ?thesis by blast
    qed
    from a1 a2 a3 a4 a5 a6 a7 a8
    show "check_invariant cmp s p = Some True \<and>
       to_buffer s p [] = Some (to_buffer_t t) \<and>
       (\<exists>s' p'. insert_h cmp v (s, p) = Some (s', p') \<and> hinv s' p' Q (insert_t cmp v t) \<and>
          check_invariant cmp s' p' = Some True) \<and>
       (\<exists>s' p'. erase cmp v (s, p) = Some (s', p') \<and> hinv s' p' Q (erase_t cmp v t) \<and>
          check_invariant cmp s' p' = Some True) \<and>
       (\<exists>r s' p'. find_memoize cmp v (s, p) = Some (r, s', p') \<and>
          hinv s' p' Q (snd (find_memoize_t cmp v t)) \<and>
          check_invariant cmp s' p' = Some True) \<and>
       (\<exists>s'. clear (s, p) = Some (s', None) \<and> hinv s' None Q (clear_t t) \<and>
          check_invariant cmp s' None = Some True) \<and>
       (\<exists>r. find_h cmp v (s, p) = Some r) \<and>
       (\<exists>s'. copy_construct (s, (cmp, p)) = Some (s', (cmp, p)) \<and>
          hinv s' p ((p, t) # Q) t \<and> check_invariant cmp s' p = Some True)"
      by (intro conjI)
  qed
  have S: "\<forall>s p q Q. hinv s p ((q, t') # Q) t \<longrightarrow>
       swap_handle (cmp, p) (cmp', q) = ((cmp, q), (cmp', p)) \<and>
       check_invariant cmp s q = Some True \<and> check_invariant cmp' s p = Some True \<and>
       to_buffer s q [] = Some (to_buffer_t t') \<and> to_buffer s p [] = Some (to_buffer_t t)"
  proof (intro allI impI)
    fix s p q Q assume i: "hinv s p ((q, t') # Q) t"
    note j = hinv_swap [OF i]
    have b1: "swap_handle (cmp, p) (cmp', q) = ((cmp, q), (cmp', p))"
      by (simp add: swap_handle_def swap_h_def)
    from b1 check_invariant_correct [OF j bt'] check_invariant_correct [OF i b't]
      hinv_to_buffer [OF j] hinv_to_buffer [OF i]
    show "swap_handle (cmp, p) (cmp', q) = ((cmp, q), (cmp', p)) \<and>
       check_invariant cmp s q = Some True \<and> check_invariant cmp' s p = Some True \<and>
       to_buffer s q [] = Some (to_buffer_t t') \<and> to_buffer s p [] = Some (to_buffer_t t)"
      by (intro conjI)
  qed
  show ?thesis by (rule conjI [OF V conjI [OF H S]])
qed

theorem order_invariant_witness:
  "cmp_ok int_cmp \<and> bst int_cmp s1 \<and> (\<forall>a b. (int_cmp a b < 0) = (int_cmp a b < 0)) \<and>
   bst int_cmp (insert_t int_cmp 7 s1) \<and>
   bst int_cmp (erase_t int_cmp 4 (insert_t int_cmp 7 s1)) \<and>
   check_invariant_t int_cmp (insert_t int_cmp 7 s1) \<and>
   distinct (to_buffer_t (insert_t int_cmp 7 s1)) \<and>
   to_buffer_t s1 = [1, 2, 3, 4, 5, 6, 9] \<and>
   ordered_t (fst (swap_t (int_cmp, s1) (int_cmp, insert_t int_cmp 7 s1))) \<and>
   ordered_t (snd (swap_t (int_cmp, s1) (int_cmp, insert_t int_cmp 7 s1))) \<and>
   bst int_cmp (Node Leaf 1 Leaf) \<and>
   hinv shared_pair (Some 0) [(Some 0, Node Leaf 1 Leaf)] (Node Leaf 1 Leaf) \<and>
   check_invariant int_cmp shared_pair (Some 0) = Some True \<and>
   to_buffer shared_pair (Some 0) [] = Some [1] \<and>
   (\<exists>s' p'. insert_h int_cmp 7 (shared_pair, Some 0) = Some (s', p') \<and>
      check_invariant int_cmp s' p' = Some True) \<and>
   (\<exists>s'. copy_construct (shared_pair, (int_cmp, Some 0)) = Some (s', (int_cmp, Some 0)) \<and>
      check_invariant int_cmp s' (Some 0) = Some True) \<and>
   swap_handle (int_cmp, Some 0) (int_cmp, Some 0) = ((int_cmp, Some 0), (int_cmp, Some 0))"
proof -
  have ag: "\<forall>a b. (int_cmp a b < 0) = (int_cmp a b < 0)" by simp
  note a = order_invariant [OF int_cmp_ok bst_s1 bst_s1 ag, of 7, THEN conjunct1]
  from a have b: "bst int_cmp (insert_t int_cmp 7 s1)" by (elim conjE)
  note c = order_invariant [OF int_cmp_ok b b ag, of 4, THEN conjunct1]
  note d = order_invariant [OF int_cmp_ok bst_s1 b ag, of 7, THEN conjunct1]
  have tb: "to_buffer_t s1 = [1, 2, 3, 4, 5, 6, 9]" by (simp add: s1_eq)
  from c have c1: "bst int_cmp (erase_t int_cmp 4 (insert_t int_cmp 7 s1))" by (elim conjE)
  from c have c2: "check_invariant_t int_cmp (insert_t int_cmp 7 s1)" by (elim conjE)
  from c have c3: "distinct (to_buffer_t (insert_t int_cmp 7 s1))" by (elim conjE)
  from d have d1: "ordered_t (fst (swap_t (int_cmp, s1) (int_cmp, insert_t int_cmp 7 s1)))"
    by (elim conjE)
  from d have d2: "ordered_t (snd (swap_t (int_cmp, s1) (int_cmp, insert_t int_cmp 7 s1)))"
    by (elim conjE)
  note th = order_invariant [OF int_cmp_ok bst_one bst_one ag, of 7, THEN conjunct2]
  note th1 = th [THEN conjunct1, rule_format, OF hinv_shared_pair]
  note th2 = th [THEN conjunct2, rule_format, OF hinv_shared_pair]
  from th1 have e1: "check_invariant int_cmp shared_pair (Some 0) = Some True" by (rule conjunct1)
  from th1 have e2: "to_buffer shared_pair (Some 0) [] = Some [1]" by simp
  from th1 have e3: "\<exists>s' p'. insert_h int_cmp 7 (shared_pair, Some 0) = Some (s', p') \<and>
     check_invariant int_cmp s' p' = Some True" by blast
  from th1 have e4: "\<exists>s'. copy_construct (shared_pair, (int_cmp, Some 0)) = Some (s', (int_cmp, Some 0)) \<and>
      check_invariant int_cmp s' (Some 0) = Some True" by blast
  from th2 have e5: "swap_handle (int_cmp, Some 0) (int_cmp, Some 0) = ((int_cmp, Some 0), (int_cmp, Some 0))"
    by (rule conjunct1)
  from int_cmp_ok bst_s1 ag b c1 c2 c3 tb d1 d2 bst_one hinv_shared_pair e1 e2 e3 e4 e5
  show ?thesis by (intro conjI)
qed

text \<open>
  The claim as it is worded fails for \<^verbatim>\<open>swap\<close>.  A handle with the ascending comparator
  holds 1 and 2, an empty handle has the descending comparator; both are in search-tree
  order.  \<^verbatim>\<open>swap\<close> leaves the tree with 1 and 2 in the handle with the descending
  comparator: it is not in search-tree order for that handle, \<^verbatim>\<open>check_invariant\<close> of that
  handle fails where it passed for both handles before, and \<^verbatim>\<open>to_buffer\<close> lists 1 before
  2, which ascends for the other comparator only.
\<close>

theorem order_invariant_swap_counterexample:
  "cmp_ok int_cmp \<and> cmp_ok rev_cmp \<and>
   insert_t int_cmp 2 (insert_t int_cmp 1 Leaf) = Node (Node Leaf 1 Leaf) 2 Leaf \<and>
   ordered_t (int_cmp, Node (Node Leaf 1 Leaf) 2 Leaf) \<and>
   ordered_t (rev_cmp, Leaf) \<and>
   swap_t (int_cmp, Node (Node Leaf 1 Leaf) 2 Leaf) (rev_cmp, Leaf) =
     ((int_cmp, Leaf), (rev_cmp, Node (Node Leaf 1 Leaf) 2 Leaf)) \<and>
   \<not> ordered_t (snd (swap_t (int_cmp, Node (Node Leaf 1 Leaf) 2 Leaf) (rev_cmp, Leaf))) \<and>
   \<not> check_invariant_t rev_cmp (Node (Node Leaf 1 Leaf) 2 Leaf) \<and>
   hinv two_nodes (Some 1) [(None, Leaf)] (Node (Node Leaf 1 Leaf) 2 Leaf) \<and>
   check_invariant int_cmp two_nodes (Some 1) = Some True \<and>
   check_invariant rev_cmp two_nodes None = Some True \<and>
   swap_handle (int_cmp, Some 1) (rev_cmp, None) = ((int_cmp, None), (rev_cmp, Some 1)) \<and>
   check_invariant rev_cmp two_nodes (Some 1) = None \<and>
   to_buffer two_nodes (Some 1) [] = Some [1, 2] \<and>
   rev_cmp 1 2 = 1"
proof -
  have 1: "insert_t int_cmp 2 (insert_t int_cmp 1 Leaf) = Node (Node Leaf 1 Leaf) 2 Leaf"
    by (simp add: insert_t_def insert_pull_t_def int_cmp_def)
  have 2: "ordered_t (int_cmp, Node (Node Leaf 1 Leaf) 2 Leaf)"
    by (simp add: ordered_t_def bst_def int_cmp_def)
  have 3: "ordered_t (rev_cmp, Leaf)" by (simp add: ordered_t_def bst_def)
  have 4: "swap_t (int_cmp, Node (Node Leaf 1 Leaf) 2 Leaf) (rev_cmp, Leaf) =
     ((int_cmp, Leaf), (rev_cmp, Node (Node Leaf 1 Leaf) 2 Leaf))"
    by (simp add: swap_t_def)
  have 5: "\<not> ordered_t (snd (swap_t (int_cmp, Node (Node Leaf 1 Leaf) 2 Leaf) (rev_cmp, Leaf)))"
    by (simp add: swap_t_def ordered_t_def bst_def rev_cmp_def int_cmp_def)
  have 6: "\<not> check_invariant_t rev_cmp (Node (Node Leaf 1 Leaf) 2 Leaf)"
    by (simp add: rev_cmp_def int_cmp_def)
  have h1: "heap two_nodes 1 = Some \<lparr>m_left = Some 0, m_right = None, m_value = 2, m_rc = 1\<rparr>"
    and h0: "heap two_nodes 0 = Some \<lparr>m_left = None, m_right = None, m_value = 1, m_rc = 1\<rparr>"
    by (simp_all add: two_nodes_def)
  have l0: "\<And>c. check_invariant c two_nodes (Some 0) = Some True"
    using h0 by (subst check_invariant.simps) simp
  have 7: "check_invariant int_cmp two_nodes (Some 1) = Some True"
    using h1 h0 l0 by (subst check_invariant.simps) (simp add: int_cmp_def)
  have 8: "check_invariant rev_cmp two_nodes None = Some True"
    by (subst check_invariant.simps) simp
  have 9: "swap_handle (int_cmp, Some 1) (rev_cmp, None) = ((int_cmp, None), (rev_cmp, Some 1))"
    by (simp add: swap_handle_def swap_h_def)
  have 10: "check_invariant rev_cmp two_nodes (Some 1) = None"
    using h1 h0 l0 by (subst check_invariant.simps) (simp add: rev_cmp_def int_cmp_def)
  have 11: "to_buffer two_nodes (Some 1) [] = Some [1, 2]"
    using to_buffer_hang [OF hinv_two_nodes [unfolded hinv_def repr_def, THEN conjunct2, THEN conjunct2, THEN conjunct1], of "[]"]
    by simp
  have 12: "rev_cmp 1 2 = 1" by (simp add: rev_cmp_def int_cmp_def)
  from int_cmp_ok rev_cmp_ok 1 2 3 4 5 6 hinv_two_nodes 7 8 9 10 11 12
  show ?thesis by (intro conjI)
qed

end
